(* ===== verification/Khaos_Prelude.thy ===== *)
theory Khaos_Prelude
  imports Main "HOL-Library.Word"
begin

text \<open>
  Shared vocabulary of the development: the Go integer types as machine words, the
  values of Go's \<^verbatim>\<open>error\<close> interface that the sources build, the dynamic values of
  \<^verbatim>\<open>any\<close>, and the generic facts on lists, sums and words that the component
  theories use.  Facts about the model's own functions are collected in
  \<open>node_simps\<close> (field-wise effect of the operations on nodes) so that the
  component proofs name one collection instead of a list of equations.
\<close>

named_theorems node_simps \<open>field-wise effect of the operations on the node heap\<close>

section \<open>Go types\<close>

type_synonym uint8 = "8 word"
type_synonym uint32 = "32 word"
type_synonym uint64 = "64 word"
type_synonym int64 = "64 word"

text \<open>
  A dynamic value of type \<^verbatim>\<open>any\<close> is \<^verbatim>\<open>nil\<close> (\<open>None\<close>) or holds a value of the caller's
  choice; the engine never looks inside, so the payload type stays a parameter.
\<close>

type_synonym 'v any = "'v option"

text \<open>
  The error values of the sources.  Each constructor is one error the code builds, with
  the arguments its message formats; \<open>Wrap\<close> and \<open>AtSeq\<close> are \<^verbatim>\<open>fmt.Errorf("...: %w", err)\<close>,
  \<open>Joined\<close> is \<^verbatim>\<open>errors.Join\<close>, and \<open>External\<close> is an error that a driver or another storage engine reports.
\<close>

datatype error =
    Canceled
  | DeadlineExceeded
  | UnknownOperation
  | NotDense nat uint64
  | UnknownOperationTypeAt uint8 uint64
  | SeqOutOfRange uint64 nat
  | DuplicateSeq uint64
  | MissingSeq nat
  | UnknownOperationName string
  | RiderIdRequired uint64
  | PayloadRequired uint64
  | AtSeq uint64 error
  | InvalidStatus string
  | NegativeEta int64
  | NilRiderUpdate
  | NotRiderUpdate
  | Wrap string error
  | Joined "error list"
  | External string
  | BodyTooLarge
  | ErrServerClosed
  | PasswordRequired
  | NetError bool
  | UrlError error

text \<open>
  \<^verbatim>\<open>errors.Is\<close> against a sentinel: the error itself or anything it wraps.  \<open>UrlError\<close> is the
  \<^verbatim>\<open>*url.Error\<close> of an HTTP client, \<open>NetError\<close> another network error with what its
  \<^verbatim>\<open>Timeout()\<close> answers.
\<close>

fun errors_Is :: "error \<Rightarrow> error \<Rightarrow> bool" where
  "errors_Is (Wrap m e) target \<longleftrightarrow> Wrap m e = target \<or> errors_Is e target"
| "errors_Is (AtSeq q e) target \<longleftrightarrow> AtSeq q e = target \<or> errors_Is e target"
| "errors_Is (UrlError e) target \<longleftrightarrow> UrlError e = target \<or> errors_Is e target"
| "errors_Is (Joined es) target \<longleftrightarrow> Joined es = target \<or> (\<exists>e \<in> set es. errors_Is e target)"
| "errors_Is e target \<longleftrightarrow> e = target"

section \<open>Machine words as counters\<close>

lemma unat_of_nat_64: "k < 2 ^ 64 \<Longrightarrow> unat (of_nat k :: 64 word) = k"
  by (simp add: unat_of_nat take_bit_nat_eq_self)

lemma of_nat_64_inject:
  assumes "j < 2 ^ 64" and "k < 2 ^ 64"
  shows "(of_nat j :: 64 word) = of_nat k \<longleftrightarrow> j = k"
  by (metis assms unat_of_nat_64)

lemma word_eq_of_nat_64:
  fixes w :: "64 word"
  assumes "k < 2 ^ 64"
  shows "w = of_nat k \<longleftrightarrow> unat w = k"
  using unat_of_nat_64 [OF assms] by (metis word_unat_eq_iff)

lemma of_nat_64_eq_0: "k < 2 ^ 64 \<Longrightarrow> (of_nat k :: 64 word) = 0 \<longleftrightarrow> k = 0"
  by (auto simp: word_of_nat_eq_0_iff dest: nat_dvd_not_less)

lemma of_nat_64_dec: "0 < k \<Longrightarrow> (of_nat k :: 64 word) - 1 = of_nat (k - 1)"
  by (cases k) simp_all

text \<open>Conversion to \<^verbatim>\<open>int\<close> (64 bit) reads the same bits as two's complement.\<close>

lemma sint_eq_nat_64:
  fixes w :: "64 word"
  assumes "sint w = int i"
  shows "w = of_nat i" and "i < 2 ^ 63"
proof -
  have "w = word_of_int (sint w)" by simp
  then show "w = of_nat i" using assms by simp
  have "sint w < 2 ^ (LENGTH(64) - 1)" by (rule sint_lt)
  then have "int i < 2 ^ 63" using assms by simp
  then show "i < 2 ^ 63" by (metis of_nat_less_iff of_nat_numeral of_nat_power)
qed

lemma sint_of_nat_64: "i < 2 ^ 63 \<Longrightarrow> sint (of_nat i :: 64 word) = int i"
  by (simp add: sint_uint uint_nat unat_of_nat_64 signed_take_bit_int_eq_self)

section \<open>Lists\<close>

lemma filter_upt_Suc:
  "filter P [0..<Suc n] = filter P [0..<n] @ (if P n then [n] else [])"
  by simp

lemma count_list_filter_upt:
  "count_list (filter P [0..<n]) i = (if i < n \<and> P i then 1 else 0)"
  by (induction n) (auto simp: less_Suc_eq)

lemma count_list_distinct: "distinct xs \<Longrightarrow> count_list xs x = (if x \<in> set xs then 1 else 0)"
  by (induction xs) auto

lemma count_list_pos_iff: "0 < count_list xs x \<longleftrightarrow> x \<in> set xs"
  by (metis count_list_0_iff gr0I less_numeral_extra(3))

lemma count_list_le_1_distinct: "(\<And>x. count_list xs x \<le> 1) \<Longrightarrow> distinct xs"
proof (induction xs)
  case (Cons x xs)
  have "count_list xs y \<le> 1" for y using Cons.prems [of y] by (auto split: if_splits)
  moreover have "x \<notin> set xs" using Cons.prems [of x] by (simp add: count_list_0_iff)
  ultimately show ?case using Cons.IH by simp
qed simp

lemma sum_list_update_nat:
  fixes f :: "'a \<Rightarrow> nat"
  assumes "i < length xs"
  shows "sum_list (map f (xs[i := x])) + f (xs ! i) = sum_list (map f xs) + f x"
  using assms
proof (induction xs arbitrary: i)
  case (Cons a xs)
  then show ?case by (cases i) auto
qed simp

end
