(* ===== verification/Khaos_Types.thy ===== *)
theory Khaos_Types
  imports Khaos_Prelude
begin

text \<open>
  Model of \<^verbatim>\<open>src/types.go\<close>: operation types, execution states, \<^verbatim>\<open>Operation\<close> and
  \<^verbatim>\<open>DAGNode\<close>.  A \<^verbatim>\<open>*DAGNode\<close> is an index into a heap of nodes (a list of records);
  \<^verbatim>\<open>DAGNode\<close> embeds \<^verbatim>\<open>Operation\<close>, which is record extension here.  The node's
  \<^verbatim>\<open>done\<close> channel only carries its being closed, so it is a flag, and closing it a
  second time is the panic that Go raises.  The atomic counters are 64-bit words.
\<close>

section \<open>Operation types and execution states\<close>

type_synonym OperationType = uint8

definition OpRead :: OperationType where "OpRead = 0"
definition OpWrite :: OperationType where "OpWrite = 1"
definition OpDelete :: OperationType where "OpDelete = 2"

lemmas op_type_defs = OpRead_def OpWrite_def OpDelete_def

lemma op_types_distinct [simp]:
  "OpRead \<noteq> OpWrite" "OpRead \<noteq> OpDelete" "OpWrite \<noteq> OpDelete"
  "OpWrite \<noteq> OpRead" "OpDelete \<noteq> OpRead" "OpDelete \<noteq> OpWrite"
  by (simp_all add: op_type_defs)

definition OperationType_String :: "OperationType \<Rightarrow> string" where
  "OperationType_String t =
     (if t = OpRead then ''READ''
      else if t = OpWrite then ''WRITE''
      else if t = OpDelete then ''DELETE''
      else ''UNKNOWN'')"

type_synonym ExecutionState = uint32

definition StatePending :: ExecutionState where "StatePending = 0"
definition StateBlocked :: ExecutionState where "StateBlocked = 1"
definition StateRunnable :: ExecutionState where "StateRunnable = 2"
definition StateExecuting :: ExecutionState where "StateExecuting = 3"
definition StateCommitted :: ExecutionState where "StateCommitted = 4"
definition StateFailed :: ExecutionState where "StateFailed = 5"

lemmas state_defs = StatePending_def StateBlocked_def StateRunnable_def
  StateExecuting_def StateCommitted_def StateFailed_def

definition ExecutionState_String :: "ExecutionState \<Rightarrow> string" where
  "ExecutionState_String s =
     (if s = StatePending then ''PENDING''
      else if s = StateBlocked then ''BLOCKED''
      else if s = StateRunnable then ''RUNNABLE''
      else if s = StateExecuting then ''EXECUTING''
      else if s = StateCommitted then ''COMMITTED''
      else if s = StateFailed then ''FAILED''
      else ''UNKNOWN'')"

text \<open>A write for hazard purposes is \<^verbatim>\<open>OpWrite\<close> or \<^verbatim>\<open>OpDelete\<close>.\<close>

definition writes :: "OperationType \<Rightarrow> bool" where
  "writes t \<longleftrightarrow> t = OpWrite \<or> t = OpDelete"

definition known_type :: "OperationType \<Rightarrow> bool" where
  "known_type t \<longleftrightarrow> t = OpRead \<or> writes t"

lemma writes_simps [simp]:
  "writes OpWrite" "writes OpDelete" "\<not> writes OpRead"
  by (simp_all add: writes_def)

section \<open>Operations and nodes\<close>

record 'v Operation =
  SeqID :: uint64
  Key :: string
  Type :: OperationType
  Value :: "'v any"
  Result :: "'v any"
  Err :: "error option"

type_synonym ptr = nat

record 'v DAGNode = "'v Operation" +
  inDegree :: int64
  dependents :: "ptr list"
  done_closed :: bool
  state :: ExecutionState

type_synonym 'v heap = "'v DAGNode list"

text \<open>The embedded \<^verbatim>\<open>node.Operation\<close>, copied by value.\<close>

definition operation_of :: "'v DAGNode \<Rightarrow> 'v Operation" where
  "operation_of n = Operation.truncate n"

lemma operation_of_simps [simp]:
  "SeqID (operation_of n) = SeqID n" "Key (operation_of n) = Key n"
  "Type (operation_of n) = Type n" "Value (operation_of n) = Value n"
  "Result (operation_of n) = Result n" "Err (operation_of n) = Err n"
  by (simp_all add: operation_of_def Operation.truncate_def)

definition NewDAGNode :: "'v Operation \<Rightarrow> 'v DAGNode" where
  "NewDAGNode op = Operation.extend op
     \<lparr>inDegree = 0, dependents = [], done_closed = False, state = StatePending\<rparr>"

lemma NewDAGNode_simps [simp, node_simps]:
  "SeqID (NewDAGNode op) = SeqID op" "Key (NewDAGNode op) = Key op"
  "Type (NewDAGNode op) = Type op" "Value (NewDAGNode op) = Value op"
  "Result (NewDAGNode op) = Result op" "Err (NewDAGNode op) = Err op"
  "inDegree (NewDAGNode op) = 0" "dependents (NewDAGNode op) = []"
  "\<not> done_closed (NewDAGNode op)" "state (NewDAGNode op) = StatePending"
  by (simp_all add: NewDAGNode_def Operation.extend_def)

lemma operation_of_NewDAGNode [simp]: "operation_of (NewDAGNode op) = op"
  by (simp add: operation_of_def NewDAGNode_def Operation.extend_def Operation.truncate_def)

text \<open>
  \<^verbatim>\<open>n.AddDependency(dependent)\<close>: append to the fan-out list of \<open>n\<close>, then increment the
  in-degree of \<open>d\<close> (the second update reads the heap after the first).
\<close>

definition AddDependency :: "'v heap \<Rightarrow> ptr \<Rightarrow> ptr \<Rightarrow> 'v heap" where
  "AddDependency h n d =
     (let h' = h[n := (h ! n)\<lparr>dependents := dependents (h ! n) @ [d]\<rparr>]
      in h'[d := (h' ! d)\<lparr>inDegree := inDegree (h' ! d) + 1\<rparr>])"

definition Dependents :: "'v heap \<Rightarrow> ptr \<Rightarrow> ptr list" where
  "Dependents h n = (if n < length h then dependents (h ! n) else [])"

definition InDegree :: "'v heap \<Rightarrow> ptr \<Rightarrow> int64" where
  "InDegree h n = inDegree (h ! n)"

text \<open>\<^verbatim>\<open>dep.inDegree.Add(-1) == 0\<close>: one atomic decrement and the test on its result.\<close>

definition decInDegree :: "'v heap \<Rightarrow> ptr \<Rightarrow> 'v heap \<times> bool" where
  "decInDegree h d =
     (let v = inDegree (h ! d) - 1 in (h[d := (h ! d)\<lparr>inDegree := v\<rparr>], v = 0))"

fun release_loop :: "'v heap \<Rightarrow> ptr list \<Rightarrow> ptr list \<Rightarrow> 'v heap \<times> ptr list" where
  "release_loop h [] runnable = (h, runnable)"
| "release_loop h (dep # deps) runnable =
     (let (h', zero) = decInDegree h dep
      in release_loop h' deps (if zero then runnable @ [dep] else runnable))"

text \<open>\<^verbatim>\<open>close(n.done)\<close>; \<open>None\<close> is the panic on a channel that is already closed.\<close>

definition closeDone :: "'v heap \<Rightarrow> ptr \<Rightarrow> 'v heap option" where
  "closeDone h n =
     (if done_closed (h ! n) then None else Some (h[n := (h ! n)\<lparr>done_closed := True\<rparr>]))"

definition Release :: "'v heap \<Rightarrow> ptr \<Rightarrow> ('v heap \<times> ptr list) option" where
  "Release h n =
     (let (h', runnable) = release_loop h (Dependents h n) []
      in case closeDone h' n of None \<Rightarrow> None | Some h'' \<Rightarrow> Some (h'', runnable))"

definition Done :: "'v heap \<Rightarrow> ptr \<Rightarrow> bool" where
  "Done h n = done_closed (h ! n)"

definition State :: "'v heap \<Rightarrow> ptr \<Rightarrow> ExecutionState" where
  "State h n = state (h ! n)"

definition SetState :: "'v heap \<Rightarrow> ptr \<Rightarrow> ExecutionState \<Rightarrow> 'v heap" where
  "SetState h n s = h[n := (h ! n)\<lparr>state := s\<rparr>]"

section \<open>What the heap operations change\<close>

lemma length_AddDependency [simp, node_simps]: "length (AddDependency h n d) = length h"
  by (simp add: AddDependency_def Let_def)

lemma operation_of_update [simp]:
  "operation_of (x\<lparr>dependents := ds\<rparr>) = operation_of x"
  "operation_of (x\<lparr>inDegree := g\<rparr>) = operation_of x"
  "operation_of (x\<lparr>done_closed := b\<rparr>) = operation_of x"
  "operation_of (x\<lparr>state := st\<rparr>) = operation_of x"
  by (simp_all add: operation_of_def Operation.truncate_def)

lemma AddDependency_nth [node_simps]:
  assumes "n < length h" "d < length h" "i < length h"
  shows "dependents (AddDependency h n d ! i) = dependents (h ! i) @ (if i = n then [d] else [])"
    and "inDegree (AddDependency h n d ! i) = inDegree (h ! i) + (if i = d then 1 else 0)"
    and "operation_of (AddDependency h n d ! i) = operation_of (h ! i)"
    and "done_closed (AddDependency h n d ! i) = done_closed (h ! i)"
    and "state (AddDependency h n d ! i) = state (h ! i)"
  using assms by (auto simp: AddDependency_def Let_def nth_list_update)

lemma decInDegree_nth [node_simps]:
  assumes "decInDegree h d = (h', z)" "d < length h" "i < length h"
  shows "length h' = length h"
    and "inDegree (h' ! i) = inDegree (h ! i) - (if i = d then 1 else 0)"
    and "dependents (h' ! i) = dependents (h ! i)"
    and "operation_of (h' ! i) = operation_of (h ! i)"
    and "done_closed (h' ! i) = done_closed (h ! i)"
    and "state (h' ! i) = state (h ! i)"
    and "z \<longleftrightarrow> inDegree (h ! d) = 1"
  using assms by (auto simp: decInDegree_def Let_def nth_list_update split: if_splits)

lemma closeDone_nth [node_simps]:
  assumes "closeDone h n = Some h'" "n < length h" "i < length h"
  shows "length h' = length h"
    and "inDegree (h' ! i) = inDegree (h ! i)"
    and "dependents (h' ! i) = dependents (h ! i)"
    and "operation_of (h' ! i) = operation_of (h ! i)"
    and "done_closed (h' ! i) \<longleftrightarrow> done_closed (h ! i) \<or> i = n"
    and "state (h' ! i) = state (h ! i)"
  using assms by (auto simp: closeDone_def nth_list_update split: if_splits)

lemma decInDegree_counter:
  assumes "decInDegree h d = (h', z)" "d < length h" "i < length h"
    and "inDegree (h ! i) = of_nat m" "0 < m" "m < 2 ^ 64" "i = d"
  shows "inDegree (h' ! i) = of_nat (m - 1)" and "z \<longleftrightarrow> m = 1"
proof -
  show "inDegree (h' ! i) = of_nat (m - 1)"
    using assms of_nat_64_dec [of m] by (simp add: decInDegree_nth)
  have "z \<longleftrightarrow> (of_nat m :: 64 word) = of_nat 1"
    using assms decInDegree_nth(7) [OF assms(1-3)] by simp
  then show "z \<longleftrightarrow> m = 1" using of_nat_64_inject [of m 1] assms by simp
qed

section \<open>Releasing dependents\<close>

lemma release_loop_frame:
  assumes "set ds \<subseteq> {..<length h}" "release_loop h ds acc = (h', r)" "i < length h"
  shows "length h' = length h \<and> dependents (h' ! i) = dependents (h ! i)
    \<and> operation_of (h' ! i) = operation_of (h ! i) \<and> done_closed (h' ! i) = done_closed (h ! i)
    \<and> state (h' ! i) = state (h ! i)"
  using assms
proof (induction ds arbitrary: h acc)
  case (Cons d ds)
  obtain h1 z where dec: "decInDegree h d = (h1, z)" by (cases "decInDegree h d")
  have *: "d < length h" using Cons.prems(1) by simp
  note frame = decInDegree_nth [OF dec * Cons.prems(3)]
  have "release_loop h1 ds (if z then acc @ [d] else acc) = (h', r)"
    using Cons.prems(2) dec by simp
  from Cons.IH [OF _ this] Cons.prems frame show ?case by auto
qed simp

text \<open>
  The counter of one dependent under any sequence of decrements: it reports zero at the
  decrement that brings it there and at no other.
\<close>

lemma release_loop_counter:
  assumes "set ds \<subseteq> {..<length h}" "d < length h"
    and "inDegree (h ! d) = of_nat m" "m < 2 ^ 64" "count_list ds d \<le> m"
    and "release_loop h ds acc = (h', r)"
  shows "inDegree (h' ! d) = of_nat (m - count_list ds d)
    \<and> count_list r d = count_list acc d + (if 0 < m \<and> count_list ds d = m then 1 else 0)"
  using assms
proof (induction ds arbitrary: h acc m)
  case (Cons e ds)
  obtain h1 z where dec: "decInDegree h e = (h1, z)" by (cases "decInDegree h e")
  have e: "e < length h" using Cons.prems(1) by simp
  note frame = decInDegree_nth [OF dec e Cons.prems(2)]
  have rest: "release_loop h1 ds (if z then acc @ [e] else acc) = (h', r)"
    using Cons.prems(6) dec by simp
  show ?case
  proof (cases "e = d")
    case True
    then have m: "0 < m" using Cons.prems(5) by simp
    have counter: "inDegree (h1 ! d) = of_nat (m - 1)" "z \<longleftrightarrow> m = 1"
      using decInDegree_counter [OF dec e Cons.prems(2,3) m Cons.prems(4)] True by auto
    from Cons.IH [OF _ _ counter(1) _ _ rest] Cons.prems frame True m counter(2)
    show ?thesis by (auto split: if_splits)
  next
    case False
    then have "inDegree (h1 ! d) = of_nat m" using frame(2) Cons.prems(3) by simp
    from Cons.IH [OF _ _ this _ _ rest] Cons.prems frame False show ?thesis by auto
  qed
qed auto

section \<open>Properties\<close>

text \<open>
  C27: a node is released exactly once.  \<^verbatim>\<open>Release\<close> lowers the counter of each dependent by
  the number of edges to it and returns a dependent exactly when its counter reaches zero
  in this call, and then once; it closes the \<^verbatim>\<open>done\<close> channel, so a second \<^verbatim>\<open>Release\<close> panics.
\<close>

theorem Release_exactly_once:
  assumes n: "n < length h" "\<not> Done h n" and deps: "set (Dependents h n) \<subseteq> {..<length h}"
    and d: "d < length h" "InDegree h d = of_nat m" "m < 2 ^ 64" "count_list (Dependents h n) d \<le> m"
  shows "\<exists>h' runnable. Release h n = Some (h', runnable)
    \<and> InDegree h' d = of_nat (m - count_list (Dependents h n) d)
    \<and> count_list runnable d = (if 0 < m \<and> count_list (Dependents h n) d = m then 1 else 0)
    \<and> Done h' n \<and> Release h' n = None"
proof -
  obtain h1 r where loop: "release_loop h (Dependents h n) [] = (h1, r)" by (cases "release_loop h (Dependents h n) []")
  note frame = release_loop_frame [OF deps loop]
  have "\<not> done_closed (h1 ! n)" "length h1 = length h" using frame [OF n(1)] n(2) by (simp_all add: Done_def)
  then obtain h2 where h2: "closeDone h1 n = Some h2" "length h2 = length h" "done_closed (h2 ! n)"
    using n(1) by (simp add: closeDone_def)
  have n1: "n < length h1" and d1: "d < length h1" using n(1) d(1) \<open>length h1 = length h\<close> by simp_all
  have "inDegree (h2 ! d) = of_nat (m - count_list (Dependents h n) d)"
    and "count_list r d = (if 0 < m \<and> count_list (Dependents h n) d = m then 1 else 0)"
    using release_loop_counter [OF deps d(1) _ d(3,4) loop] d(2) closeDone_nth(2) [OF h2(1) n1 d1]
    by (simp_all add: InDegree_def)
  moreover have "Release h n = Some (h2, r)" using loop h2(1) by (simp add: Release_def)
  moreover have "Release h2 n = None"
  proof -
    have same: "Dependents h2 n = Dependents h n"
      using closeDone_nth(3) [OF h2(1) n1 n1] frame [OF n(1)] n(1) h2(2) by (simp add: Dependents_def)
    obtain h3 r3 where loop2: "release_loop h2 (Dependents h2 n) [] = (h3, r3)"
      by (cases "release_loop h2 (Dependents h2 n) []")
    have "done_closed (h3 ! n)"
      using release_loop_frame [OF _ loop2, of n] deps n(1) h2(2,3) same by simp
    then show ?thesis using loop2 by (simp add: Release_def closeDone_def)
  qed
  ultimately show ?thesis using h2(3) by (simp add: InDegree_def Done_def)
qed

definition example_nodes :: "nat heap" where
  "example_nodes = (let op = (\<lambda>i. \<lparr>SeqID = i, Key = ''k'', Type = OpWrite, Value = None, Result = None, Err = None\<rparr>)
     in AddDependency [NewDAGNode (op 0), NewDAGNode (op 1)] 0 1)"

theorem Release_exactly_once_witness:
  "\<exists>h' runnable. Release example_nodes 0 = Some (h', runnable) \<and> InDegree h' 1 = 0
    \<and> count_list runnable 1 = 1 \<and> Done h' 0 \<and> Release h' 0 = None"
  using Release_exactly_once [of 0 example_nodes 1 1]
  by (simp add: example_nodes_def AddDependency_def Dependents_def InDegree_def Done_def Let_def)

end
