(* ===== verification/Hazard.thy ===== *)
theory Hazard
  imports Khaos_Types
begin

text \<open>
  Model of \<^verbatim>\<open>src/hazard.go\<close>, \<^verbatim>\<open>SequentialHazardResolver.Build\<close>: one pass over the
  batch with the maps \<^verbatim>\<open>lastWrite\<close> and \<^verbatim>\<open>lastReads\<close>.  The declarative graph
  \<open>hazard\<close> has an edge between two operations on the same key, one of them a
  write, with no write on that key between them; the loop is proved to build exactly
  that graph.  The interface \<^verbatim>\<open>HazardResolver\<close> of \<^verbatim>\<open>src/interfaces.go\<close> is the locale
  \<open>hazard_resolver\<close>, which the worker pool relies on.
\<close>

section \<open>The resolver\<close>

record 'v build_state =
  nodes :: "'v heap"
  lastWrite :: "string \<rightharpoonup> ptr"
  lastReads :: "string \<Rightarrow> ptr list"

definition build_init :: "'v build_state" where
  "build_init = \<lparr>nodes = [], lastWrite = Map.empty, lastReads = (\<lambda>_. [])\<rparr>"

text \<open>\<open>for _, reader := range readers { reader.AddDependency(node) }\<close>\<close>

definition addDependencies :: "ptr list \<Rightarrow> ptr \<Rightarrow> 'v heap \<Rightarrow> 'v heap" where
  "addDependencies readers node h = fold (\<lambda>r h. AddDependency h r node) readers h"

text \<open>One iteration of the loop over the batch, at position \<open>i\<close>.\<close>

definition build_step ::
  "nat \<Rightarrow> 'v Operation \<Rightarrow> 'v build_state \<Rightarrow> error + 'v build_state" where
  "build_step i op st =
     (if sint (SeqID op) \<noteq> int i then Inl (NotDense i (SeqID op))
      else let node = length (nodes st);
               h = nodes st @ [NewDAGNode op];
               h1 = (case lastWrite st (Key op) of
                       Some w \<Rightarrow> AddDependency h w node | None \<Rightarrow> h)
           in if Type op = OpRead then
                Inr (st\<lparr>nodes := h1,
                  lastReads := (lastReads st)(Key op := lastReads st (Key op) @ [node])\<rparr>)
              else if Type op = OpWrite \<or> Type op = OpDelete then
                Inr (st\<lparr>nodes := addDependencies (lastReads st (Key op)) node h1,
                  lastWrite := (lastWrite st)(Key op \<mapsto> node),
                  lastReads := (lastReads st)(Key op := [])\<rparr>)
              else Inl (UnknownOperationTypeAt (Type op) (SeqID op)))"

fun build_loop ::
  "nat \<Rightarrow> 'v Operation list \<Rightarrow> 'v build_state \<Rightarrow> error + 'v build_state" where
  "build_loop i [] st = Inr st"
| "build_loop i (op # ops) st =
     (case build_step i op st of Inl e \<Rightarrow> Inl e | Inr st' \<Rightarrow> build_loop (Suc i) ops st')"

text \<open>
  \<^verbatim>\<open>Build\<close> returns the nodes it allocated (the heap), the pointers in batch order and
  the pointers of the nodes with in-degree zero.
\<close>

definition Build :: "'v Operation list \<Rightarrow> error + ('v heap \<times> ptr list \<times> ptr list)" where
  "Build batch =
     (case build_loop 0 batch build_init of
        Inl e \<Rightarrow> Inl e
      | Inr st \<Rightarrow>
          (let all_nodes = [0..<length (nodes st)]
           in Inr (nodes st, all_nodes, filter (\<lambda>n. InDegree (nodes st) n = 0) all_nodes)))"

section \<open>The hazard graph\<close>

definition writer :: "'v Operation list \<Rightarrow> string \<Rightarrow> nat \<Rightarrow> bool" where
  "writer ops k i \<longleftrightarrow> Key (ops ! i) = k \<and> writes (Type (ops ! i))"

definition hazard :: "'v Operation list \<Rightarrow> nat \<Rightarrow> nat \<Rightarrow> bool" where
  "hazard ops i j \<longleftrightarrow> i < j \<and> j < length ops \<and> Key (ops ! i) = Key (ops ! j)
     \<and> (writes (Type (ops ! i)) \<or> writes (Type (ops ! j)))
     \<and> (\<forall>k \<in> set [Suc i..<j]. \<not> writer ops (Key (ops ! i)) k)"

lemma hazard_iff:
  "hazard ops i j \<longleftrightarrow> i < j \<and> j < length ops \<and> Key (ops ! i) = Key (ops ! j)
     \<and> (writes (Type (ops ! i)) \<or> writes (Type (ops ! j)))
     \<and> (\<forall>k. i < k \<and> k < j \<longrightarrow> \<not> writer ops (Key (ops ! i)) k)"
  by (auto simp: hazard_def)

text \<open>Two operations conflict when they share a key and one of them writes it.\<close>

definition conflict :: "'v Operation \<Rightarrow> 'v Operation \<Rightarrow> bool" where
  "conflict a b \<longleftrightarrow> Key a = Key b \<and> (writes (Type a) \<or> writes (Type b))"

text \<open>What \<^verbatim>\<open>Build\<close> requires of a batch: dense sequence numbers and known types.\<close>

definition valid_op :: "nat \<Rightarrow> 'v Operation \<Rightarrow> bool" where
  "valid_op i op \<longleftrightarrow> sint (SeqID op) = int i \<and> known_type (Type op)"

definition valid_batch :: "'v Operation list \<Rightarrow> bool" where
  "valid_batch ops \<longleftrightarrow> (\<forall>i < length ops. valid_op i (ops ! i))"

definition op_error :: "nat \<Rightarrow> 'v Operation \<Rightarrow> error" where
  "op_error i op = (if sint (SeqID op) \<noteq> int i then NotDense i (SeqID op)
     else UnknownOperationTypeAt (Type op) (SeqID op))"

section \<open>When the loop succeeds\<close>

lemma build_step_error:
  "\<not> valid_op i op \<Longrightarrow> build_step i op st = Inl (op_error i op)"
  by (auto simp: build_step_def valid_op_def op_error_def known_type_def writes_def Let_def)

lemma build_step_ok: "valid_op i op \<Longrightarrow> \<exists>st'. build_step i op st = Inr st'"
  by (auto simp: build_step_def valid_op_def known_type_def writes_def Let_def)

lemma build_loop_append:
  "build_loop i (xs @ ys) st =
     (case build_loop i xs st of Inl e \<Rightarrow> Inl e | Inr st' \<Rightarrow> build_loop (i + length xs) ys st')"
  by (induction xs arbitrary: i st) (auto split: sum.splits)

lemma build_loop_valid:
  assumes "\<And>j. j < length ops \<Longrightarrow> valid_op (i + j) (ops ! j)"
  shows "\<exists>st'. build_loop i ops st = Inr st'"
  using assms
proof (induction ops arbitrary: i st)
  case (Cons op ops)
  from Cons.prems [of 0] obtain st1 where st1: "build_step i op st = Inr st1"
    using build_step_ok by fastforce
  have "valid_op (Suc i + j) (ops ! j)" if "j < length ops" for j
    using Cons.prems [of "Suc j"] that by simp
  from Cons.IH [OF this] st1 show ?case by simp
qed simp

lemma Build_first_error:
  assumes "i < length ops" "\<not> valid_op i (ops ! i)" "\<And>j. j < i \<Longrightarrow> valid_op j (ops ! j)"
  shows "Build ops = Inl (op_error i (ops ! i))"
proof -
  have ops: "ops = take i ops @ (ops ! i # drop (Suc i) ops)"
    using assms(1) by (rule id_take_nth_drop)
  obtain st where st: "build_loop 0 (take i ops) build_init = Inr st"
    using build_loop_valid [of "take i ops" 0] assms(1,3) by force
  have "build_loop 0 ops build_init = Inl (op_error i (ops ! i))"
    by (subst ops, subst build_loop_append)
      (use assms st build_step_error [OF assms(2)] in \<open>simp add: min_def\<close>)
  then show ?thesis by (simp add: Build_def)
qed

lemma Build_ok_iff: "(\<exists>r. Build ops = Inr r) \<longleftrightarrow> valid_batch ops"
proof
  assume "valid_batch ops"
  then obtain st where "build_loop 0 ops build_init = Inr st"
    using build_loop_valid [of ops 0] by (auto simp: valid_batch_def)
  then show "\<exists>r. Build ops = Inr r" by (simp add: Build_def Let_def)
next
  assume ok: "\<exists>r. Build ops = Inr r"
  show "valid_batch ops"
  proof (rule ccontr)
    let ?bad = "\<lambda>i. i < length ops \<and> \<not> valid_op i (ops ! i)"
    assume "\<not> valid_batch ops"
    then obtain i0 where "?bad i0" by (auto simp: valid_batch_def)
    then have "?bad (LEAST i. ?bad i)" by (rule LeastI)
    moreover define i where "i = (LEAST i. ?bad i)"
    ultimately have bad: "?bad i" by simp
    have "valid_op j (ops ! j)" if "j < i" for j
      using not_less_Least [of j ?bad] that bad unfolding i_def [symmetric] by simp
    then have "Build ops = Inl (op_error i (ops ! i))"
      using bad Build_first_error by blast
    with ok show False by simp
  qed
qed

section \<open>The loop builds the hazard graph\<close>

lemma addDependencies_nth:
  assumes "set ps \<subseteq> {..<length h}" "distinct ps" "d < length h" "i < length h"
  shows "length (addDependencies ps d h) = length h
    \<and> dependents (addDependencies ps d h ! i) = dependents (h ! i) @ (if i \<in> set ps then [d] else [])
    \<and> inDegree (addDependencies ps d h ! i) = inDegree (h ! i) + (if i = d then of_nat (length ps) else 0)
    \<and> operation_of (addDependencies ps d h ! i) = operation_of (h ! i)
    \<and> done_closed (addDependencies ps d h ! i) = done_closed (h ! i)
    \<and> state (addDependencies ps d h ! i) = state (h ! i)"
  using assms
proof (induction ps arbitrary: h)
  case (Cons p ps)
  have p: "p < length h" using Cons.prems(1) by simp
  note add = AddDependency_nth [OF p Cons.prems(3,4)]
  have "set ps \<subseteq> {..<length (AddDependency h p d)}" using Cons.prems(1) by simp
  from Cons.IH [OF this] Cons.prems add show ?case
    by (auto simp: addDependencies_def)
qed (simp add: addDependencies_def)

text \<open>
  The direct predecessors of position \<open>m\<close> are read off the running maps: the last
  writer of the key, and for a write also the reads since then.
\<close>

definition last_writer_ok :: "'v Operation list \<Rightarrow> nat \<Rightarrow> string \<Rightarrow> ptr option \<Rightarrow> bool" where
  "last_writer_ok ops m k w \<longleftrightarrow>
     (case w of None \<Rightarrow> (\<forall>i < m. \<not> writer ops k i)
      | Some w \<Rightarrow> w < m \<and> writer ops k w \<and> (\<forall>i. w < i \<and> i < m \<longrightarrow> \<not> writer ops k i))"

definition reads_since :: "'v Operation list \<Rightarrow> nat \<Rightarrow> string \<Rightarrow> nat list" where
  "reads_since ops m k =
     filter (\<lambda>i. Key (ops ! i) = k \<and> \<not> writes (Type (ops ! i))
       \<and> (\<forall>x. i < x \<and> x < m \<longrightarrow> \<not> writer ops k x)) [0..<m]"

definition build_inv :: "'v Operation list \<Rightarrow> nat \<Rightarrow> 'v build_state \<Rightarrow> bool" where
  "build_inv ops m st \<longleftrightarrow> length (nodes st) = m
     \<and> (\<forall>i < m. operation_of (nodes st ! i) = ops ! i \<and> \<not> done_closed (nodes st ! i)
         \<and> state (nodes st ! i) = StatePending
         \<and> dependents (nodes st ! i) = filter (hazard ops i) [0..<m]
         \<and> inDegree (nodes st ! i) = of_nat (length (filter (\<lambda>p. hazard ops p i) [0..<m])))
     \<and> (\<forall>k. last_writer_ok ops m k (lastWrite st k) \<and> lastReads st k = reads_since ops m k)"

lemma hazard_read_iff:
  assumes "m < length ops" "\<not> writes (Type (ops ! m))" "last_writer_ok ops m (Key (ops ! m)) w"
  shows "hazard ops i m \<longleftrightarrow> w = Some i"
  using assms
  by (auto simp: hazard_iff last_writer_ok_def writer_def split: option.splits)
    (metis linorder_neqE_nat)

lemma hazard_write_iff:
  assumes "m < length ops" "writes (Type (ops ! m))" "last_writer_ok ops m (Key (ops ! m)) w"
  shows "hazard ops i m \<longleftrightarrow> w = Some i \<or> i \<in> set (reads_since ops m (Key (ops ! m)))"
proof (cases "writes (Type (ops ! i))")
  case True
  then have "i \<notin> set (reads_since ops m (Key (ops ! m)))" by (simp add: reads_since_def)
  with assms True show ?thesis
    by (auto simp: hazard_iff last_writer_ok_def writer_def split: option.splits)
      (metis linorder_neqE_nat)
next
  case False
  with assms show ?thesis
    by (auto simp: hazard_iff last_writer_ok_def reads_since_def writer_def split: option.splits)
qed

text \<open>The nodes that one iteration gives a dependent, in the order of the code.\<close>

definition preds_of :: "'v build_state \<Rightarrow> 'v Operation \<Rightarrow> ptr list" where
  "preds_of st op = (case lastWrite st (Key op) of None \<Rightarrow> [] | Some w \<Rightarrow> [w])
     @ (if writes (Type op) then lastReads st (Key op) else [])"

lemma build_step_result:
  assumes "build_step i op st = Inr st'"
  shows "nodes st' = addDependencies (preds_of st op) (length (nodes st)) (nodes st @ [NewDAGNode op])"
    and "lastWrite st' = (if writes (Type op) then (lastWrite st)(Key op \<mapsto> length (nodes st)) else lastWrite st)"
    and "lastReads st' = (lastReads st)(Key op :=
           if writes (Type op) then [] else lastReads st (Key op) @ [length (nodes st)])"
    and "valid_op i op"
  using assms
  by (auto simp: build_step_def preds_of_def addDependencies_def valid_op_def known_type_def Let_def
      split: if_splits option.splits)

lemma preds_of_hazard:
  assumes "build_inv ops m st" "m < length ops"
  shows "distinct (preds_of st (ops ! m))" and "set (preds_of st (ops ! m)) = {p. hazard ops p m}"
proof -
  let ?w = "lastWrite st (Key (ops ! m))" and ?k = "Key (ops ! m)"
  have w: "last_writer_ok ops m ?k ?w" and r: "lastReads st ?k = reads_since ops m ?k"
    using assms(1) by (auto simp: build_inv_def)
  have "set (reads_since ops m ?k) \<inter> {i. ?w = Some i} = {}"
    using w by (auto simp: reads_since_def last_writer_ok_def writer_def)
  then show "distinct (preds_of st (ops ! m))"
    using r by (auto simp: preds_of_def reads_since_def split: option.split)
  show "set (preds_of st (ops ! m)) = {p. hazard ops p m}"
  proof (cases "writes (Type (ops ! m))")
    case True
    show ?thesis
      unfolding hazard_write_iff [OF assms(2) True w]
      using True r by (cases ?w) (auto simp: preds_of_def)
  next
    case False
    show ?thesis
      unfolding hazard_read_iff [OF assms(2) False w]
      using False by (cases ?w) (auto simp: preds_of_def)
  qed
qed

lemma last_writer_ok_step:
  assumes "last_writer_ok ops m k w"
  shows "last_writer_ok ops (Suc m) k (if writer ops k m then Some m else w)"
  using assms by (auto simp: last_writer_ok_def less_Suc_eq split: option.splits)

lemma reads_since_step:
  "reads_since ops (Suc m) k =
     (if writer ops k m then []
      else reads_since ops m k @ (if Key (ops ! m) = k then [m] else []))"
proof (cases "writer ops k m")
  case True
  then have "\<forall>i \<in> set [0..<Suc m]. writes (Type (ops ! i)) \<or> Key (ops ! i) \<noteq> k
    \<or> (\<exists>x. i < x \<and> x < Suc m \<and> writer ops k x)"
    by (auto simp: writer_def less_Suc_eq)
  then show ?thesis using True by (auto simp: reads_since_def filter_empty_conv simp del: upt_Suc)
next
  case False
  then have "filter (\<lambda>i. Key (ops ! i) = k \<and> \<not> writes (Type (ops ! i))
      \<and> (\<forall>x. i < x \<and> x < Suc m \<longrightarrow> \<not> writer ops k x)) [0..<m] = reads_since ops m k"
    by (auto simp: reads_since_def less_Suc_eq intro!: filter_cong)
  then show ?thesis using False by (auto simp: reads_since_def writer_def)
qed

lemma build_inv_step:
  assumes inv: "build_inv ops m st" and m: "m < length ops"
    and step: "build_step m (ops ! m) st = Inr st'"
  shows "build_inv ops (Suc m) st'"
proof -
  let ?op = "ops ! m" and ?h = "nodes st @ [NewDAGNode (ops ! m)]"
  let ?ps = "preds_of st ?op"
  have len: "length (nodes st) = m" using inv by (simp add: build_inv_def)
  note res = build_step_result [OF step]
  note ps = preds_of_hazard [OF inv m]
  have ps_lt: "set ?ps \<subseteq> {..<length ?h}" using ps(2) len by (auto simp: hazard_def)
  have "card (set ?ps) = length (filter (\<lambda>p. hazard ops p m) [0..<m])"
    using ps(2) by (subst distinct_card [symmetric]) (auto simp: hazard_def intro: arg_cong [where f = card])
  then have n_ps: "length ?ps = length (filter (\<lambda>p. hazard ops p m) [0..<m])"
    using ps(1) by (simp add: distinct_card)
  have node: "operation_of (nodes st' ! i) = ops ! i \<and> \<not> done_closed (nodes st' ! i)
      \<and> state (nodes st' ! i) = StatePending
      \<and> dependents (nodes st' ! i) = filter (hazard ops i) [0..<Suc m]
      \<and> inDegree (nodes st' ! i) = of_nat (length (filter (\<lambda>p. hazard ops p i) [0..<Suc m]))"
    if "i < Suc m" for i
  proof -
    have i: "i < length ?h" using that len by simp
    note add = addDependencies_nth [OF ps_lt ps(1) _ i, of m]
    have "hazard ops j j = False" "hazard ops m i = False" for j
      using that by (auto simp: hazard_def)
    then show ?thesis
      using add inv len that ps(2) n_ps res(1)
      by (cases "i = m") (auto simp: build_inv_def nth_append hazard_def filter_empty_conv)
  qed
  have maps: "last_writer_ok ops (Suc m) k (lastWrite st' k) \<and> lastReads st' k = reads_since ops (Suc m) k" for k
  proof -
    have "last_writer_ok ops m k (lastWrite st k)" and r: "lastReads st k = reads_since ops m k"
      using inv by (simp_all add: build_inv_def)
    from last_writer_ok_step [OF this(1)] r show ?thesis
      by (auto simp: res(2,3) len reads_since_step writer_def)
  qed
  from node maps show ?thesis
    using addDependencies_nth [OF ps_lt ps(1), of m m] len by (simp add: build_inv_def res(1))
qed

lemma build_loop_inv:
  assumes "build_loop m (drop m ops) st = Inr st'" "m \<le> length ops" "build_inv ops m st"
  shows "build_inv ops (length ops) st'"
  using assms
proof (induction "length ops - m" arbitrary: m st)
  case (Suc d)
  then have m: "m < length ops" by simp
  then have "drop m ops = ops ! m # drop (Suc m) ops" by (rule Cons_nth_drop_Suc [symmetric])
  with Suc.prems(1) obtain st1 where st1: "build_step m (ops ! m) st = Inr st1"
    and rest: "build_loop (Suc m) (drop (Suc m) ops) st1 = Inr st'"
    by (auto split: sum.splits)
  from build_inv_step [OF Suc.prems(3) m st1] rest Suc.hyps m show ?case
    by (intro Suc.hyps(1)) auto
qed simp

lemma build_inv_init: "build_inv ops 0 build_init"
  by (simp add: build_inv_def build_init_def last_writer_ok_def reads_since_def)

lemma Build_result:
  assumes "Build ops = Inr (h, all_nodes, runnable)"
  obtains st where "build_inv ops (length ops) st" "h = nodes st"
    "all_nodes = [0..<length ops]" "runnable = filter (\<lambda>n. inDegree (h ! n) = 0) [0..<length ops]"
proof -
  from assms obtain st where st: "build_loop 0 ops build_init = Inr st" and h: "h = nodes st"
    and r: "all_nodes = [0..<length (nodes st)]"
      "runnable = filter (\<lambda>n. InDegree (nodes st) n = 0) [0..<length (nodes st)]"
    by (auto simp: Build_def Let_def split: sum.splits)
  have "build_inv ops (length ops) st"
    using build_loop_inv [OF _ _ build_inv_init, of ops st] st by simp
  with h r show thesis by (intro that) (auto simp: build_inv_def InDegree_def)
qed

lemma valid_batch_length:
  assumes "valid_batch ops"
  shows "length ops \<le> 2 ^ 63"
proof (rule ccontr)
  assume "\<not> length ops \<le> 2 ^ 63"
  then have "valid_op (2 ^ 63) (ops ! (2 ^ 63))" using assms unfolding valid_batch_def by simp
  then have "sint (SeqID (ops ! (2 ^ 63))) = int (2 ^ 63)" unfolding valid_op_def by blast
  then have "(2 ^ 63 :: nat) < 2 ^ 63" by (rule sint_eq_nat_64(2))
  then show False by simp
qed

section \<open>Facts about the hazard graph\<close>

lemma hazard_less: "hazard ops i j \<Longrightarrow> i < j \<and> j < length ops"
  by (simp add: hazard_def)

lemma hazard_trancl_key:
  "(hazard ops)\<^sup>+\<^sup>+ i j \<Longrightarrow> i < j \<and> j < length ops \<and> Key (ops ! i) = Key (ops ! j)"
  by (induction rule: tranclp_induct) (auto simp: hazard_def)

text \<open>Every conflicting pair is ordered by a chain of edges through the writes between.\<close>

lemma hazard_trancl_conflict:
  assumes "i < j" "j < length ops" "conflict (ops ! i) (ops ! j)"
  shows "(hazard ops)\<^sup>+\<^sup>+ i j"
  using assms
proof (induction "j - i" arbitrary: i j rule: less_induct)
  case less
  show ?case
  proof (cases "hazard ops i j")
    case False
    with less.prems obtain k where k: "i < k" "k < j" "writer ops (Key (ops ! i)) k"
      by (auto simp: hazard_iff conflict_def)
    then have "conflict (ops ! i) (ops ! k)" "conflict (ops ! k) (ops ! j)"
      using less.prems(3) by (auto simp: conflict_def writer_def)
    then have "(hazard ops)\<^sup>+\<^sup>+ i k" "(hazard ops)\<^sup>+\<^sup>+ k j"
      using less.hyps [of k i] less.hyps [of j k] k less.prems by simp_all
    then show ?thesis by (rule tranclp_trans)
  qed (rule tranclp.r_into_trancl)
qed

lemma hazard_writer_source_unique:
  assumes "hazard ops i j" "hazard ops i' j" "writes (Type (ops ! i))" "writes (Type (ops ! i'))"
  shows "i = i'"
  using assms by (auto simp: hazard_iff writer_def) (metis linorder_neqE_nat)

lemma hazard_reader_target_unique:
  assumes "hazard ops i j" "hazard ops i j'" "\<not> writes (Type (ops ! i))"
  shows "j = j'"
  using assms by (auto simp: hazard_iff writer_def) (metis linorder_neqE_nat)

lemma sum_length_filter:
  "(\<Sum>i < (n :: nat). length (filter (P i) [0..<m])) = card {(i, j). i < n \<and> j < m \<and> P i j}"
proof -
  have "length (filter (P i) [0..<m]) = card {j. j < m \<and> P i j}" for i
    by (subst distinct_card [symmetric]) (auto intro: arg_cong [where f = card])
  then have "(\<Sum>i < (n :: nat). length (filter (P i) [0..<m])) = card (SIGMA i:{..<n}. {j. j < m \<and> P i j})"
    by (subst card_SigmaI) auto
  also have "(SIGMA i:{..<n}. {j. j < m \<and> P i j}) = {(i, j). i < n \<and> j < m \<and> P i j}" by auto
  finally show ?thesis .
qed

lemma hazard_edge_count:
  "(\<Sum>i < length ops. length (filter (hazard ops i) [0..<length ops])) \<le> 2 * length ops"
proof -
  let ?n = "length ops"
  let ?E = "{(i, j). i < ?n \<and> j < ?n \<and> hazard ops i j}"
  let ?W = "{e \<in> ?E. writes (Type (ops ! fst e))}" and ?R = "{e \<in> ?E. \<not> writes (Type (ops ! fst e))}"
  have "inj_on snd ?W" by (auto intro!: inj_onI dest: hazard_writer_source_unique)
  then have W: "card ?W \<le> ?n" by (rule card_inj_on_le [of snd _ "{..<?n}", simplified]) auto
  have "inj_on fst ?R" by (auto intro!: inj_onI dest: hazard_reader_target_unique)
  then have R: "card ?R \<le> ?n" by (rule card_inj_on_le [of fst _ "{..<?n}", simplified]) auto
  have E: "?E = ?W \<union> ?R" by blast
  have "card (?W \<union> ?R) \<le> card ?W + card ?R" by (rule card_Un_le)
  with W R show ?thesis unfolding sum_length_filter E [symmetric] by linarith
qed

section \<open>The interface to the worker pool\<close>

text \<open>
  The contract of \<^verbatim>\<open>HazardResolver\<close> in \<^verbatim>\<open>src/interfaces.go\<close>: one fresh node per operation in
  sequence order, edges only forward, in-degrees that count the edges, the nodes without
  predecessors as the runnable ones, and every RAW, WAR and WAW pair ordered by a path.
\<close>

definition dag_edge :: "'v heap \<Rightarrow> nat \<Rightarrow> nat \<Rightarrow> bool" where
  "dag_edge h i j \<longleftrightarrow> j \<in> set (Dependents h i)"

locale hazard_resolver =
  fixes build :: "'v Operation list \<Rightarrow> error + ('v heap \<times> ptr list \<times> ptr list)"
  assumes build_nodes:
      "build ops = Inr (h, all_nodes, runnable) \<Longrightarrow>
         length h = length ops \<and> all_nodes = [0..<length ops] \<and> length ops \<le> 2 ^ 63"
    and build_fresh:
      "build ops = Inr (h, all_nodes, runnable) \<Longrightarrow> i < length ops \<Longrightarrow>
         operation_of (h ! i) = ops ! i \<and> SeqID (ops ! i) = of_nat i \<and> known_type (Type (ops ! i))
         \<and> \<not> done_closed (h ! i) \<and> state (h ! i) = StatePending"
    and build_forward:
      "build ops = Inr (h, all_nodes, runnable) \<Longrightarrow> dag_edge h i j \<Longrightarrow> i < j \<and> j < length ops"
    and build_distinct:
      "build ops = Inr (h, all_nodes, runnable) \<Longrightarrow> i < length ops \<Longrightarrow> distinct (dependents (h ! i))"
    and build_inDegree:
      "build ops = Inr (h, all_nodes, runnable) \<Longrightarrow> j < length ops \<Longrightarrow>
         inDegree (h ! j) = of_nat (\<Sum>i < length ops. count_list (dependents (h ! i)) j)"
    and build_runnable:
      "build ops = Inr (h, all_nodes, runnable) \<Longrightarrow>
         runnable = filter (\<lambda>j. inDegree (h ! j) = 0) [0..<length ops]"
    and build_orders:
      "build ops = Inr (h, all_nodes, runnable) \<Longrightarrow> i < j \<Longrightarrow> j < length ops \<Longrightarrow>
         conflict (ops ! i) (ops ! j) \<Longrightarrow> (dag_edge h)\<^sup>+\<^sup>+ i j"

lemma Build_facts:
  assumes "Build ops = Inr (h, all_nodes, runnable)"
  shows "length h = length ops" "all_nodes = [0..<length ops]"
    and "runnable = filter (\<lambda>n. inDegree (h ! n) = 0) [0..<length ops]"
    and "valid_batch ops"
    and "i < length ops \<Longrightarrow> operation_of (h ! i) = ops ! i \<and> \<not> done_closed (h ! i)
      \<and> state (h ! i) = StatePending \<and> dependents (h ! i) = filter (hazard ops i) [0..<length ops]
      \<and> inDegree (h ! i) = of_nat (length (filter (\<lambda>p. hazard ops p i) [0..<length ops]))"
proof -
  from assms obtain st where st: "build_inv ops (length ops) st" "h = nodes st"
    "all_nodes = [0..<length ops]" "runnable = filter (\<lambda>n. inDegree (h ! n) = 0) [0..<length ops]"
    by (rule Build_result)
  then show "length h = length ops" "all_nodes = [0..<length ops]"
    "runnable = filter (\<lambda>n. inDegree (h ! n) = 0) [0..<length ops]"
    by (simp_all add: build_inv_def)
  show "valid_batch ops" using assms Build_ok_iff by blast
  show "operation_of (h ! i) = ops ! i \<and> \<not> done_closed (h ! i)
      \<and> state (h ! i) = StatePending \<and> dependents (h ! i) = filter (hazard ops i) [0..<length ops]
      \<and> inDegree (h ! i) = of_nat (length (filter (\<lambda>p. hazard ops p i) [0..<length ops]))"
    if "i < length ops" using st(1,2) that by (simp add: build_inv_def)
qed

lemma Build_dag_edge:
  assumes "Build ops = Inr (h, all_nodes, runnable)"
  shows "dag_edge h = hazard ops"
  using Build_facts(1,5) [OF assms]
  by (auto simp: fun_eq_iff dag_edge_def Dependents_def hazard_def)

lemma length_filter_count:
  "length (filter (\<lambda>i. P i j) [0..<n]) = (\<Sum>i < n. count_list (filter (P i) [0..<m]) j)"
  if "\<And>i. P i j \<Longrightarrow> j < m"
  using that by (induction n) (auto simp: count_list_filter_upt)

interpretation seq_resolver: hazard_resolver Build
proof (unfold_locales, goal_cases)
  case (1 ops h all_nodes runnable)
  then show ?case using Build_facts [OF 1] valid_batch_length by blast
next
  case (2 ops h all_nodes runnable i)
  have "valid_op i (ops ! i)" using Build_facts(4) [OF 2(1)] 2(2) by (simp add: valid_batch_def)
  then show ?case using Build_facts(5) [OF 2] sint_eq_nat_64(1) by (auto simp: valid_op_def)
next
  case (3 ops h all_nodes runnable i j)
  then show ?case using hazard_less by (simp add: Build_dag_edge)
next
  case (4 ops h all_nodes runnable i)
  then show ?case using Build_facts(5) [OF 4] by simp
next
  case (5 ops h all_nodes runnable j)
  have "length (filter (\<lambda>p. hazard ops p j) [0..<length ops])
      = (\<Sum>i < length ops. count_list (filter (hazard ops i) [0..<length ops]) j)"
    by (rule length_filter_count) (simp add: hazard_def)
  also have "\<dots> = (\<Sum>i < length ops. count_list (dependents (h ! i)) j)"
    using Build_facts(5) [OF 5(1)] by simp
  finally show ?case using Build_facts(5) [OF 5] by simp
next
  case (6 ops h all_nodes runnable)
  then show ?case by (rule Build_facts(3))
next
  case (7 ops h all_nodes runnable i j)
  then show ?case using hazard_trancl_conflict by (simp add: Build_dag_edge)
qed

section \<open>Properties\<close>

text \<open>
  C19: the graph is the hazard graph.  On success \<^verbatim>\<open>Build\<close> returns one node per operation in
  order; the fan-out of a node are exactly the later operations on its key with no write in
  between where one of the two writes (RAW, WAR, WAW), in order and without duplicates; its
  counter is the number of its predecessors; and the runnable nodes are those with none.
\<close>

theorem Build_hazard_graph:
  assumes "Build ops = Inr (h, all_nodes, runnable)"
  shows "length h = length ops \<and> all_nodes = [0..<length ops]
    \<and> (\<forall>i < length ops. operation_of (h ! i) = ops ! i
         \<and> Dependents h i = filter (hazard ops i) [0..<length ops]
         \<and> InDegree h i = of_nat (length (filter (\<lambda>p. hazard ops p i) [0..<length ops])))
    \<and> runnable = filter (\<lambda>i. \<forall>p < length ops. \<not> hazard ops p i) [0..<length ops]"
proof -
  note facts = Build_facts [OF assms]
  have "inDegree (h ! i) = 0 \<longleftrightarrow> (\<forall>p < length ops. \<not> hazard ops p i)" if "i < length ops" for i
  proof -
    have "length (filter (\<lambda>p. hazard ops p i) [0..<length ops]) \<le> length ops"
      using length_filter_le [of _ "[0..<length ops]"] by simp
    also have "\<dots> < 2 ^ 64" using valid_batch_length [OF facts(4)] by simp
    finally have "inDegree (h ! i) = 0 \<longleftrightarrow> length (filter (\<lambda>p. hazard ops p i) [0..<length ops]) = 0"
      using facts(5) [OF that] of_nat_64_eq_0 by metis
    then show ?thesis by (auto simp: filter_empty_conv)
  qed
  then have "runnable = filter (\<lambda>i. \<forall>p < length ops. \<not> hazard ops p i) [0..<length ops]"
    unfolding facts(3) by (intro filter_cong) simp_all
  with facts(1,2,5) show ?thesis by (simp add: Dependents_def InDegree_def)
qed

definition example_ops :: "nat Operation list" where
  "example_ops = map (\<lambda>(i, t). \<lparr>SeqID = i, Key = ''k'', Type = t, Value = Some 7, Result = None, Err = None\<rparr>)
     [(0, OpWrite), (1, OpRead), (2, OpRead), (3, OpDelete)]"

lemma example_valid: "valid_batch example_ops"
  by (auto simp: valid_batch_def example_ops_def valid_op_def known_type_def less_Suc_eq eval_nat_numeral)

lemma example_hazards:
  "map (\<lambda>i. filter (hazard example_ops i) [0..<4]) [0..<4] = [[1, 2, 3], [3], [3], []]"
  by (simp add: hazard_def writer_def example_ops_def upt_rec writes_def)

lemma example_build: obtains h all_nodes runnable where "Build example_ops = Inr (h, all_nodes, runnable)"
  using example_valid Build_ok_iff [of example_ops] by (metis surj_pair)

theorem Build_hazard_graph_witness:
  "\<exists>h all_nodes runnable. Build example_ops = Inr (h, all_nodes, runnable)
    \<and> Dependents h 0 = [1, 2, 3] \<and> Dependents h 1 = [3] \<and> 0 \<in> set runnable"
proof -
  obtain h all_nodes runnable where b: "Build example_ops = Inr (h, all_nodes, runnable)" by (rule example_build)
  have len: "length example_ops = 4" by (simp add: example_ops_def)
  have "\<not> hazard example_ops p 0" for p by (simp add: hazard_def)
  with Build_hazard_graph [OF b, unfolded len] example_hazards b show ?thesis
    by (intro exI conjI) (auto simp: upt_rec)
qed

text \<open>
  Errors of \<^verbatim>\<open>Build\<close>.  It fails exactly when some operation is out of sequence or of an
  unknown type, and then reports the first one, the position before the type.
\<close>

theorem Build_error_iff:
  "Build ops = Inl e \<longleftrightarrow> (\<exists>i < length ops. \<not> valid_op i (ops ! i)
     \<and> (\<forall>j < i. valid_op j (ops ! j)) \<and> e = op_error i (ops ! i))"
proof
  assume err: "Build ops = Inl e"
  then have "\<not> valid_batch ops" using Build_ok_iff [of ops] by auto
  then obtain i where i: "i < length ops \<and> \<not> valid_op i (ops ! i)" by (auto simp: valid_batch_def)
  define m where "m = (LEAST i. i < length ops \<and> \<not> valid_op i (ops ! i))"
  have m: "m < length ops" "\<not> valid_op m (ops ! m)" using LeastI [of "\<lambda>i. i < length ops \<and> \<not> valid_op i (ops ! i)", OF i] unfolding m_def by simp_all
  have before: "valid_op j (ops ! j)" if "j < m" for j
    using not_less_Least [OF that [unfolded m_def]] that m(1) by auto
  from Build_first_error [OF m before] err m before
  show "\<exists>i < length ops. \<not> valid_op i (ops ! i) \<and> (\<forall>j < i. valid_op j (ops ! j)) \<and> e = op_error i (ops ! i)"
    by auto
qed (use Build_first_error in auto)

theorem Build_error_iff_witness:
  "Build (example_ops @ [(example_ops ! 0)\<lparr>SeqID := 9\<rparr>]) = Inl (NotDense 4 9)"
proof -
  let ?ops = "example_ops @ [(example_ops ! 0)\<lparr>SeqID := 9\<rparr>]"
  have len: "length example_ops = 4" by (simp add: example_ops_def)
  have bad: "\<not> valid_op 4 (?ops ! 4)" "op_error 4 (?ops ! 4) = NotDense 4 9"
    by (simp_all add: len nth_append valid_op_def op_error_def)
  have "valid_op j (?ops ! j)" if "j < 4" for j
    using example_valid that by (simp add: valid_batch_def nth_append len)
  then show ?thesis
    unfolding Build_error_iff using bad len by (intro exI [of _ 4]) auto
qed

text \<open>
  C20: every conflict is ordered and the graph is acyclic.  Two operations on the same key of
  which one writes are connected by a path from the earlier to the later one, and every
  path leads forward, between operations on the same key.
\<close>

theorem Build_orders_conflicts:
  assumes "Build ops = Inr (h, all_nodes, runnable)"
  shows "(i < j \<and> j < length ops \<and> conflict (ops ! i) (ops ! j) \<longrightarrow> (dag_edge h)\<^sup>+\<^sup>+ i j)
    \<and> ((dag_edge h)\<^sup>+\<^sup>+ i j \<longrightarrow> i < j \<and> j < length ops \<and> Key (ops ! i) = Key (ops ! j))"
  using hazard_trancl_conflict hazard_trancl_key unfolding Build_dag_edge [OF assms] by blast

theorem Build_orders_conflicts_witness:
  "\<exists>h all_nodes runnable. Build example_ops = Inr (h, all_nodes, runnable) \<and> (dag_edge h)\<^sup>+\<^sup>+ 1 3
    \<and> \<not> (dag_edge h)\<^sup>+\<^sup>+ 3 1"
proof -
  obtain h all_nodes runnable where b: "Build example_ops = Inr (h, all_nodes, runnable)" by (rule example_build)
  have "conflict (example_ops ! 1) (example_ops ! 3)" "length example_ops = 4"
    by (simp_all add: example_ops_def conflict_def)
  with Build_orders_conflicts [OF b, of 1 3] Build_orders_conflicts [OF b, of 3 1] b show ?thesis
    by (intro exI conjI) auto
qed

text \<open>
  Size of the graph.  The number of edges is at most twice the number of operations, so
  \<^verbatim>\<open>Build\<close> is linear as its comment claims.
\<close>

theorem Build_edge_bound:
  assumes "Build ops = Inr (h, all_nodes, runnable)"
  shows "sum_list (map (\<lambda>n. length (Dependents h n)) all_nodes) \<le> 2 * length ops"
proof -
  note facts = Build_facts [OF assms]
  have "sum_list (map (\<lambda>n. length (Dependents h n)) all_nodes)
      = (\<Sum>i < length ops. length (filter (hazard ops i) [0..<length ops]))"
    unfolding facts(2) interv_sum_list_conv_sum_set_nat atLeast0LessThan
    by (rule sum.cong) (use facts(1,5) in \<open>auto simp: Dependents_def\<close>)
  also have "\<dots> \<le> 2 * length ops" by (rule hazard_edge_count)
  finally show ?thesis .
qed

theorem Build_edge_bound_witness:
  "\<exists>h all_nodes runnable. Build example_ops = Inr (h, all_nodes, runnable)
    \<and> sum_list (map (\<lambda>n. length (Dependents h n)) all_nodes) \<le> 8"
proof -
  obtain h all_nodes runnable where b: "Build example_ops = Inr (h, all_nodes, runnable)" by (rule example_build)
  with Build_edge_bound [OF b] show ?thesis by (auto simp: example_ops_def)
qed

end
