(* ===== verification/Storage.thy ===== *)
theory Storage
  imports Khaos_Types
begin

text \<open>
  The interface \<^verbatim>\<open>StorageEngine\<close> of \<^verbatim>\<open>src/interfaces.go\<close> and its in-memory
  implementation \<^verbatim>\<open>ShardedMap\<close> of \<^verbatim>\<open>src/storage.go\<close>.  An interface value is a record of
  the three methods over a state \<open>'s\<close>; a \<^verbatim>\<open>context.Context\<close> is its \<^verbatim>\<open>ctx.Err()\<close> at the
  time of the call.  Every method is one atomic step here: for \<^verbatim>\<open>ShardedMap\<close>, whose critical
  sections are one map access under the shard's lock, \<open>Shard_Locks\<close> shows that this is no restriction.
  The contract is stated twice: \<open>storage_engine\<close> says that an engine behaves as a map,
  and the weaker \<open>keyed_storage\<close> only that a call on a key depends on and changes that
  key's part of the state; the worker pool needs no more than the latter.  The weaker
  contract is relative to a set of keys, for engines in which different strings may name
  the same row, and to a function \<open>norm\<close> on results, for engines whose answers contain
  something that the calls do not determine, such as a time stamp.
\<close>

unbundle bit_operations_syntax

section \<open>The interface\<close>

type_synonym ctx_err = "error option"

record ('s, 'v) StorageEngine =
  se_Get :: "ctx_err \<Rightarrow> string \<Rightarrow> 's \<Rightarrow> 's \<times> 'v any \<times> bool \<times> error option"
  se_Set :: "ctx_err \<Rightarrow> string \<Rightarrow> 'v any \<Rightarrow> 's \<Rightarrow> 's \<times> error option"
  se_Delete :: "ctx_err \<Rightarrow> string \<Rightarrow> 's \<Rightarrow> 's \<times> error option"

locale keyed_storage =
  fixes eng :: "('s, 'v) StorageEngine"
    and invar :: "'s \<Rightarrow> bool"
    and view :: "'s \<Rightarrow> string \<Rightarrow> 'c"
    and keys :: "string set"
    and norm :: "'v any \<Rightarrow> 'v any"
  assumes get_frame:
      "invar s \<Longrightarrow> k \<in> keys \<Longrightarrow> se_Get eng None k s = (s', r) \<Longrightarrow>
         invar s' \<and> (\<forall>k' \<in> keys. view s' k' = view s k')"
    and get_local:
      "invar s \<Longrightarrow> invar t \<Longrightarrow> k \<in> keys \<Longrightarrow> view s k = view t k \<Longrightarrow>
         map_prod norm id (snd (se_Get eng None k s)) = map_prod norm id (snd (se_Get eng None k t))"
    and set_frame:
      "invar s \<Longrightarrow> k \<in> keys \<Longrightarrow> se_Set eng None k v s = (s', e) \<Longrightarrow>
         invar s' \<and> (\<forall>k' \<in> keys. k' \<noteq> k \<longrightarrow> view s' k' = view s k')"
    and set_local:
      "invar s \<Longrightarrow> invar t \<Longrightarrow> k \<in> keys \<Longrightarrow> view s k = view t k \<Longrightarrow>
         snd (se_Set eng None k v s) = snd (se_Set eng None k v t)
         \<and> view (fst (se_Set eng None k v s)) k = view (fst (se_Set eng None k v t)) k"
    and delete_frame:
      "invar s \<Longrightarrow> k \<in> keys \<Longrightarrow> se_Delete eng None k s = (s', e) \<Longrightarrow>
         invar s' \<and> (\<forall>k' \<in> keys. k' \<noteq> k \<longrightarrow> view s' k' = view s k')"
    and delete_local:
      "invar s \<Longrightarrow> invar t \<Longrightarrow> k \<in> keys \<Longrightarrow> view s k = view t k \<Longrightarrow>
         snd (se_Delete eng None k s) = snd (se_Delete eng None k t)
         \<and> view (fst (se_Delete eng None k s)) k = view (fst (se_Delete eng None k t)) k"

locale storage_engine =
  fixes eng :: "('s, 'v) StorageEngine"
    and invar :: "'s \<Rightarrow> bool"
    and view :: "'s \<Rightarrow> string \<Rightarrow> 'v any option"
  assumes get_view:
      "invar s \<Longrightarrow> se_Get eng None k s =
         (s, case view s k of None \<Rightarrow> (None, False, None) | Some v \<Rightarrow> (v, True, None))"
    and set_view:
      "invar s \<Longrightarrow> se_Set eng None k v s = (s', e) \<Longrightarrow>
         e = None \<and> invar s' \<and> view s' = (view s)(k \<mapsto> v)"
    and delete_view:
      "invar s \<Longrightarrow> se_Delete eng None k s = (s', e) \<Longrightarrow>
         e = None \<and> invar s' \<and> view s' = (view s)(k := None)"
    and cancelled:
      "se_Get eng (Some c) k s = (s, None, False, Some c)"
      "se_Set eng (Some c) k v s = (s, Some c)"
      "se_Delete eng (Some c) k s = (s, Some c)"
begin

text \<open>Round trips that every map-like engine has.\<close>

lemma set_then_get:
  assumes "invar s" "se_Set eng None k v s = (s', e)"
  shows "snd (se_Get eng None k s') = (v, True, None)"
  using set_view [OF assms] get_view [of s' k] by auto

lemma delete_then_get:
  assumes "invar s" "se_Delete eng None k s = (s', e)"
  shows "snd (se_Get eng None k s') = (None, False, None)"
  using delete_view [OF assms] get_view [of s' k] by auto

end

sublocale storage_engine \<subseteq> keyed: keyed_storage eng invar view UNIV id
proof (unfold_locales, goal_cases)
  case (1 s k s' r)
  then show ?case using get_view [OF 1(1), of k] by auto
next
  case (2 s t k)
  then show ?case using get_view [OF 2(1), of k] get_view [OF 2(2), of k] by simp
next
  case (3 s k v s' e)
  then show ?case using set_view [OF 3(1,3)] by simp
next
  case (4 s t k v)
  obtain s1 e1 t1 e2 where eqs: "se_Set eng None k v s = (s1, e1)" "se_Set eng None k v t = (t1, e2)"
    by (metis surj_pair)
  show ?case using set_view [OF 4(1) eqs(1)] set_view [OF 4(2) eqs(2)] eqs by simp
next
  case (5 s k s' e)
  then show ?case using delete_view [OF 5(1,3)] by simp
next
  case (6 s t k)
  obtain s1 e1 t1 e2 where eqs: "se_Delete eng None k s = (s1, e1)" "se_Delete eng None k t = (t1, e2)"
    by (metis surj_pair)
  show ?case using delete_view [OF 6(1) eqs(1)] delete_view [OF 6(2) eqs(2)] eqs by simp
qed

section \<open>ShardedMap\<close>

definition numShards :: nat where "numShards = 256"
definition shardMask :: uint32 where "shardMask = of_nat numShards - 1"
definition fnv1aOffset32 :: uint32 where "fnv1aOffset32 = 2166136261"
definition fnv1aPrime32 :: uint32 where "fnv1aPrime32 = 16777619"

definition fnv1a :: "string \<Rightarrow> uint32" where
  "fnv1a key = fold (\<lambda>b h. (h XOR of_char b) * fnv1aPrime32) key fnv1aOffset32"

record 'v shard = data :: "string \<rightharpoonup> 'v any"

type_synonym 'v ShardedMap = "'v shard list"

definition NewShardedMap :: "'v ShardedMap" where
  "NewShardedMap = replicate numShards \<lparr>data = Map.empty\<rparr>"

definition shardIndex :: "string \<Rightarrow> nat" where
  "shardIndex key = unat (fnv1a key AND shardMask)"

definition shardFor :: "'v ShardedMap \<Rightarrow> string \<Rightarrow> 'v shard" where
  "shardFor sm key = sm ! shardIndex key"

definition sm_Get ::
  "ctx_err \<Rightarrow> string \<Rightarrow> 'v ShardedMap \<Rightarrow> 'v ShardedMap \<times> 'v any \<times> bool \<times> error option" where
  "sm_Get ctx key sm =
     (case ctx of Some err \<Rightarrow> (sm, None, False, Some err)
      | None \<Rightarrow> (case data (shardFor sm key) key of
                   Some v \<Rightarrow> (sm, v, True, None)
                 | None \<Rightarrow> (sm, None, False, None)))"

definition sm_Set ::
  "ctx_err \<Rightarrow> string \<Rightarrow> 'v any \<Rightarrow> 'v ShardedMap \<Rightarrow> 'v ShardedMap \<times> error option" where
  "sm_Set ctx key value sm =
     (case ctx of Some err \<Rightarrow> (sm, Some err)
      | None \<Rightarrow> (sm[shardIndex key :=
                   (shardFor sm key)\<lparr>data := (data (shardFor sm key))(key \<mapsto> value)\<rparr>], None))"

definition sm_Delete ::
  "ctx_err \<Rightarrow> string \<Rightarrow> 'v ShardedMap \<Rightarrow> 'v ShardedMap \<times> error option" where
  "sm_Delete ctx key sm =
     (case ctx of Some err \<Rightarrow> (sm, Some err)
      | None \<Rightarrow> (sm[shardIndex key :=
                   (shardFor sm key)\<lparr>data := (data (shardFor sm key))(key := None)\<rparr>], None))"

definition ShardedMap_engine :: "('v ShardedMap, 'v) StorageEngine" where
  "ShardedMap_engine = \<lparr>se_Get = sm_Get, se_Set = sm_Set, se_Delete = sm_Delete\<rparr>"

text \<open>The map a sharded store represents, and the invariant: all shards are allocated.\<close>

definition sm_view :: "'v ShardedMap \<Rightarrow> string \<Rightarrow> 'v any option" where
  "sm_view sm key = data (shardFor sm key) key"

definition sm_invar :: "'v ShardedMap \<Rightarrow> bool" where
  "sm_invar sm \<longleftrightarrow> length sm = numShards"

lemmas sm_defs = sm_Get_def sm_Set_def sm_Delete_def sm_view_def sm_invar_def shardFor_def

section \<open>Routing\<close>

lemma shardIndex_mod: "shardIndex key = unat (fnv1a key) mod numShards"
proof -
  have "shardMask = mask 8" by (simp add: shardMask_def numShards_def mask_eq_exp_minus_1)
  then have "fnv1a key AND shardMask = take_bit 8 (fnv1a key)" by (simp add: take_bit_eq_mask)
  then show ?thesis
    by (simp add: shardIndex_def numShards_def take_bit_eq_mod unat_mod_distrib)
qed

lemma shardIndex_less: "shardIndex key < numShards"
  by (simp add: shardIndex_mod numShards_def)

lemma sm_invar_New: "sm_invar NewShardedMap"
  by (simp add: sm_invar_def NewShardedMap_def)

lemma sm_view_New: "sm_view NewShardedMap key = None"
  using shardIndex_less [of key] by (simp add: sm_view_def shardFor_def NewShardedMap_def)

lemma sm_view_update:
  assumes "sm_invar sm"
  shows "sm_view (sm[shardIndex key := (shardFor sm key)\<lparr>data := (data (shardFor sm key))(key := x)\<rparr>])
    = (sm_view sm)(key := x)"
  using assms shardIndex_less [of key]
  by (auto simp: fun_eq_iff sm_view_def shardFor_def sm_invar_def nth_list_update)

interpretation sharded: storage_engine ShardedMap_engine sm_invar sm_view
proof (unfold_locales, goal_cases)
  case (1 s k)
  then show ?case by (simp add: ShardedMap_engine_def sm_defs split: option.split)
next
  case (2 s k v s' e)
  then show ?case using sm_view_update [OF 2(1), of k "Some v"]
    by (auto simp: ShardedMap_engine_def sm_Set_def sm_invar_def)
next
  case (3 s k s' e)
  then show ?case using sm_view_update [OF 3(1), of k None]
    by (auto simp: ShardedMap_engine_def sm_Delete_def sm_invar_def)
qed (simp_all add: ShardedMap_engine_def sm_defs)

section \<open>Properties\<close>

text \<open>
  C23: the sharded map is a map.  Under a live context \<^verbatim>\<open>Get\<close> looks the key up and changes
  nothing, \<^verbatim>\<open>Set\<close> and \<^verbatim>\<open>Delete\<close> succeed and change the key and no other one, wherever the
  keys are routed; all shards stay allocated.
\<close>

theorem ShardedMap_refines_map:
  assumes inv: "sm_invar sm"
  shows "sm_Get None k sm = (sm, case sm_view sm k of None \<Rightarrow> (None, False, None) | Some v \<Rightarrow> (v, True, None))
    \<and> (\<exists>sm'. sm_Set None k x sm = (sm', None) \<and> sm_invar sm' \<and> sm_view sm' = (sm_view sm)(k \<mapsto> x))
    \<and> (\<exists>sm'. sm_Delete None k sm = (sm', None) \<and> sm_invar sm' \<and> sm_view sm' = (sm_view sm)(k := None))"
proof -
  have eng: "se_Get ShardedMap_engine = sm_Get" "se_Set ShardedMap_engine = sm_Set"
    "se_Delete ShardedMap_engine = sm_Delete" by (simp_all add: ShardedMap_engine_def)
  obtain s1 e1 s2 e2 where eqs: "sm_Set None k x sm = (s1, e1)" "sm_Delete None k sm = (s2, e2)"
    by (metis surj_pair)
  from sharded.get_view [OF inv, of k] sharded.set_view [OF inv, of k x s1 e1] sharded.delete_view [OF inv, of k s2 e2] eqs
  show ?thesis by (simp add: eng)
qed

theorem ShardedMap_refines_map_witness:
  "\<exists>sm. sm_Set None ''r1'' (Some (7 :: nat)) NewShardedMap = (sm, None) \<and> sm_view sm ''r1'' = Some (Some 7)
    \<and> sm_view sm ''r2'' = None"
  using ShardedMap_refines_map [OF sm_invar_New, of "''r1''" "Some (7 :: nat)"]
  by (auto simp: sm_view_New)

fun sm_run :: "(string \<times> 'v any option) list \<Rightarrow> 'v ShardedMap \<Rightarrow> 'v ShardedMap" where
  "sm_run [] sm = sm"
| "sm_run ((k, Some x) # ops) sm = sm_run ops (fst (sm_Set None k x sm))"
| "sm_run ((k, None) # ops) sm = sm_run ops (fst (sm_Delete None k sm))"

lemma sm_step_view:
  assumes "sm_invar sm"
  shows "sm_invar (fst (sm_Set None k x sm)) \<and> sm_view (fst (sm_Set None k x sm)) = (sm_view sm)(k \<mapsto> x)"
    and "sm_invar (fst (sm_Delete None k sm)) \<and> sm_view (fst (sm_Delete None k sm)) = (sm_view sm)(k := None)"
  using sm_view_update [OF assms, of k "Some x"] sm_view_update [OF assms, of k None] assms
  by (simp_all add: sm_Set_def sm_Delete_def sm_invar_def)

lemma sm_run_other:
  "sm_invar sm \<Longrightarrow> k \<notin> fst ` set ops \<Longrightarrow> sm_invar (sm_run ops sm) \<and> sm_view (sm_run ops sm) k = sm_view sm k"
  by (induction ops sm rule: sm_run.induct) (auto simp: sm_step_view)

text \<open>
  Round trips.  A value written is the value read back and a deleted key is not found,
  also after any sequence of writes and deletes of other keys, in the same shard or not.
\<close>

theorem ShardedMap_round_trip:
  assumes inv: "sm_invar sm" and other: "k \<notin> fst ` set ops"
  shows "snd (sm_Get None k (sm_run ops (fst (sm_Set None k x sm)))) = (x, True, None)
    \<and> snd (sm_Get None k (sm_run ops (fst (sm_Delete None k sm)))) = (None, False, None)"
proof -
  have get: "snd (sm_Get None k s) = (case sm_view s k of None \<Rightarrow> (None, False, None) | Some v \<Rightarrow> (v, True, None))" for s
    by (simp add: sm_Get_def sm_view_def split: option.split)
  have "sm_view (sm_run ops (fst (sm_Set None k x sm))) k = Some x"
    "sm_view (sm_run ops (fst (sm_Delete None k sm))) k = None"
    using sm_run_other [OF _ other] sm_step_view(1) [OF inv, of k x] sm_step_view(2) [OF inv, of k] by simp_all
  then show ?thesis by (simp add: get)
qed

theorem ShardedMap_round_trip_witness:
  "snd (sm_Get None ''a'' (sm_run [(''b'', Some (Some 2)), (''c'', None)] (fst (sm_Set None ''a'' (Some (1 :: nat)) NewShardedMap))))
     = (Some 1, True, None)"
  using ShardedMap_round_trip [OF sm_invar_New, of "''a''" "[(''b'', Some (Some 2)), (''c'', None)]" "Some (1 :: nat)"]
  by simp

text \<open>
  Routing.  Masking the hash is reduction modulo the number of shards and never indexes
  outside the array; the hash is FNV-1a, with the published values for three test inputs.
\<close>

theorem shard_routing:
  "shardIndex key = unat (fnv1a key) mod numShards \<and> shardIndex key < numShards
    \<and> fnv1a [] = 0x811C9DC5 \<and> fnv1a ''a'' = 0xE40C292C \<and> fnv1a ''foobar'' = 0xBF9CF968"
proof -
  have "fnv1a [] = 0x811C9DC5" "fnv1a ''a'' = 0xE40C292C" "fnv1a ''foobar'' = 0xBF9CF968"
    by (simp_all add: fnv1a_def fnv1aOffset32_def fnv1aPrime32_def)
  then show ?thesis using shardIndex_mod shardIndex_less by blast
qed

end
