(* ===== verification/Reorder.thy ===== *)
theory Reorder
  imports Khaos_Types
begin

text \<open>
  Model of \<^verbatim>\<open>src/reorder.go\<close>, \<^verbatim>\<open>InOrderReorderBuffer\<close>.  The mutex makes one call of
  \<^verbatim>\<open>Commit\<close> run alone, so \<open>Commit\<close> is a function; the pieces of its loop
  (\<open>rob_insert\<close>, \<open>rob_take\<close>, \<open>rob_sent\<close>) are separate definitions because the worker
  pool interleaves with it at the blocking send.  The flag \<^verbatim>\<open>rb.closed\<close> is set exactly
  where \<^verbatim>\<open>rb.out\<close> is closed, so it also records that the channel is closed; a send on
  the closed channel is the panic \<open>None\<close>.
\<close>

section \<open>The buffer\<close>

record 'v InOrderReorderBuffer =
  pending :: "uint64 \<rightharpoonup> 'v Operation"
  nextExpected :: uint64
  flushed :: int
  total :: int
  closed :: bool
  has_ctx :: bool

definition NewInOrderReorderBuffer :: "'v InOrderReorderBuffer" where
  "NewInOrderReorderBuffer =
     \<lparr>pending = Map.empty, nextExpected = 0, flushed = 0, total = 0, closed = False, has_ctx = False\<rparr>"

text \<open>\<open>has_ctx\<close> says that \<^verbatim>\<open>rb.ctx\<close> is the batch context and no longer \<^verbatim>\<open>context.Background()\<close>.\<close>

definition Drain :: "'v InOrderReorderBuffer \<Rightarrow> int \<Rightarrow> 'v InOrderReorderBuffer" where
  "Drain rb n =
     (let rb' = rb\<lparr>has_ctx := True, total := n\<rparr>
      in if n = 0 \<and> \<not> closed rb' then rb'\<lparr>closed := True\<rparr> else rb')"

definition rob_insert :: "'v InOrderReorderBuffer \<Rightarrow> 'v Operation \<Rightarrow> 'v InOrderReorderBuffer" where
  "rob_insert rb op = rb\<lparr>pending := (pending rb)(SeqID op \<mapsto> op)\<rparr>"

definition rob_take ::
  "'v InOrderReorderBuffer \<Rightarrow> ('v Operation \<times> 'v InOrderReorderBuffer) option" where
  "rob_take rb =
     (case pending rb (nextExpected rb) of
        None \<Rightarrow> None
      | Some op \<Rightarrow> Some (op, rb\<lparr>pending := (pending rb)(nextExpected rb := None)\<rparr>))"

definition rob_sent :: "'v InOrderReorderBuffer \<Rightarrow> 'v InOrderReorderBuffer" where
  "rob_sent rb =
     (let rb' = rb\<lparr>nextExpected := nextExpected rb + 1, flushed := flushed rb + 1\<rparr>
      in if flushed rb' = total rb' \<and> \<not> closed rb' then rb'\<lparr>closed := True\<rparr> else rb')"

lemma pending_rob_sent [simp]: "pending (rob_sent rb) = pending rb"
  by (simp add: rob_sent_def Let_def)

lemma rob_take_dom:
  "rob_take rb = Some (op, rb') \<Longrightarrow> card (dom (pending (rob_sent rb'))) < card (dom (pending rb))"
  by (auto simp: rob_take_def pending_rob_sent split: option.splits intro!: card_Diff1_less)

text \<open>
  The flush loop.  The \<^verbatim>\<open>select\<close> chooses between the send and \<^verbatim>\<open>ctx.Done()\<close>: with
  \<open>Some k\<close> the loop takes the \<^verbatim>\<open>ctx.Done()\<close> branch after \<open>k\<close> sends (the operation it
  just removed from \<^verbatim>\<open>pending\<close> is dropped), with \<open>None\<close> it never does.
\<close>

function rob_flush ::
  "nat option \<Rightarrow> 'v InOrderReorderBuffer \<Rightarrow> ('v InOrderReorderBuffer \<times> 'v Operation list) option" where
  "rob_flush cancel rb =
     (case rob_take rb of
        None \<Rightarrow> Some (rb, [])
      | Some (op, rb') \<Rightarrow>
          if cancel = Some 0 then Some (rb', [])
          else if closed rb' then None
          else map_option (\<lambda>(rb'', ops). (rb'', op # ops))
                 (rob_flush (map_option (\<lambda>k. k - 1) cancel) (rob_sent rb')))"
  by pat_completeness auto
termination
  by (relation "measure (\<lambda>(cancel, rb). card (dom (pending rb)))") (auto dest: rob_take_dom)

declare rob_flush.simps [simp del]

definition Commit ::
  "nat option \<Rightarrow> 'v InOrderReorderBuffer \<Rightarrow> 'v Operation
     \<Rightarrow> ('v InOrderReorderBuffer \<times> 'v Operation list) option" where
  "Commit cancel rb op = rob_flush cancel (rob_insert rb op)"

section \<open>The state between two steps\<close>

text \<open>
  \<open>rob_inv f N P m rb\<close>: of the \<open>N\<close> operations \<open>f 0, f 1, \<dots>\<close> the first \<open>m\<close> are released
  and the ones at \<open>P\<close> wait in the buffer.
\<close>

definition rob_inv ::
  "(nat \<Rightarrow> 'v Operation) \<Rightarrow> nat \<Rightarrow> nat set \<Rightarrow> nat \<Rightarrow> 'v InOrderReorderBuffer \<Rightarrow> bool" where
  "rob_inv f N P m rb \<longleftrightarrow>
     pending rb = (\<lambda>w. if unat w \<in> P then Some (f (unat w)) else None)
     \<and> nextExpected rb = of_nat m \<and> flushed rb = int m \<and> total rb = int N
     \<and> (closed rb \<longleftrightarrow> m = N) \<and> P \<subseteq> {m..<N} \<and> m \<le> N \<and> N \<le> 2 ^ 63 \<and> has_ctx rb"

lemma rob_inv_init: "N \<le> 2 ^ 63 \<Longrightarrow> rob_inv f N {} 0 (Drain NewInOrderReorderBuffer (int N))"
  by (auto simp: rob_inv_def Drain_def NewInOrderReorderBuffer_def Let_def)

lemma rob_inv_bounds: "rob_inv f N P m rb \<Longrightarrow> m < 2 ^ 64"
  by (simp add: rob_inv_def)

lemma rob_inv_insert:
  assumes "rob_inv f N P m rb" "m \<le> i" "i < N" "SeqID (f i) = of_nat i"
  shows "rob_inv f N (insert i P) m (rob_insert rb (f i))"
proof -
  have eq: "(w = of_nat i) = (unat w = i)" for w :: "64 word"
    using assms by (intro word_eq_of_nat_64) (simp add: rob_inv_def)
  show ?thesis using assms(1-3) by (auto simp: rob_inv_def rob_insert_def fun_eq_iff assms(4) eq)
qed

lemma rob_inv_take:
  assumes "rob_inv f N P m rb"
  shows "rob_take rb =
    (if m \<in> P then Some (f m, rb\<lparr>pending := (pending rb)(nextExpected rb := None)\<rparr>) else None)"
  using assms unat_of_nat_64 [OF rob_inv_bounds [OF assms]]
  by (auto simp: rob_inv_def rob_take_def)

lemma rob_inv_taken:
  assumes "rob_inv f N P m rb"
  shows "rob_inv f N (P - {m}) m (rb\<lparr>pending := (pending rb)(nextExpected rb := None)\<rparr>)"
proof -
  have "(w = of_nat m) = (unat w = m)" for w :: "64 word"
    using rob_inv_bounds [OF assms] by (rule word_eq_of_nat_64)
  then show ?thesis using assms by (auto simp: rob_inv_def fun_eq_iff)
qed

lemma rob_inv_sent:
  assumes "rob_inv f N P m rb" "m \<notin> P" "m < N"
  shows "rob_inv f N P (Suc m) (rob_sent rb)"
proof -
  have "P \<subseteq> {Suc m..<N}"
    using assms by (auto simp: rob_inv_def Suc_le_eq subset_iff le_less)
  then show ?thesis using assms by (simp add: rob_inv_def rob_sent_def Let_def)
qed

section \<open>One call of Commit\<close>

lemma rob_flush_live:
  assumes "rob_inv f N P m rb"
  shows "\<exists>m' rb'. rob_flush None rb = Some (rb', map f [m..<m']) \<and> m \<le> m' \<and> {m..<m'} \<subseteq> P
    \<and> m' \<notin> P \<and> rob_inv f N (P - {m..<m'}) m' rb'"
  using assms
proof (induction "N - m" arbitrary: P m rb rule: less_induct)
  case less
  show ?case
  proof (cases "m \<in> P")
    case False
    then have "rob_flush None rb = Some (rb, [])"
      using rob_inv_take [OF less.prems] by (subst rob_flush.simps) simp
    then show ?thesis using less.prems False by (intro exI [of _ m] exI [of _ rb]) simp
  next
    case True
    let ?rb = "rb\<lparr>pending := (pending rb)(nextExpected rb := None)\<rparr>"
    have m: "m < N" using True less.prems by (auto simp: rob_inv_def)
    have inv1: "rob_inv f N (P - {m}) m ?rb" by (rule rob_inv_taken [OF less.prems])
    have inv2: "rob_inv f N (P - {m}) (Suc m) (rob_sent ?rb)" by (rule rob_inv_sent [OF inv1]) (use m in auto)
    have "N - Suc m < N - m" using m by simp
    from less.hyps [OF this inv2] obtain m' rb' where
      IH: "rob_flush None (rob_sent ?rb) = Some (rb', map f [Suc m..<m'])" "Suc m \<le> m'"
        "{Suc m..<m'} \<subseteq> P - {m}" "m' \<notin> P - {m}" "rob_inv f N (P - {m} - {Suc m..<m'}) m' rb'"
      by blast
    have "\<not> closed ?rb" using less.prems m by (simp add: rob_inv_def)
    then have "rob_flush None rb = Some (rb', f m # map f [Suc m..<m'])"
      using rob_inv_take [OF less.prems] True IH(1) by (subst rob_flush.simps) simp
    moreover have "m # [Suc m..<m'] = [m..<m']" using IH(2) by (simp add: upt_rec [of m])
    moreover have "P - {m} - {Suc m..<m'} = P - {m..<m'}" using IH(2) by auto
    moreover have "{m..<m'} = insert m {Suc m..<m'}" using IH(2) by auto
    then have "{m..<m'} \<subseteq> P" using IH(3) True by auto
    ultimately show ?thesis using IH True
      by (intro exI [of _ m'] exI [of _ rb']) (auto simp flip: list.map(2))
  qed
qed

text \<open>Commits in a given order, with everything released so far.\<close>

fun commits ::
  "('b \<Rightarrow> 'v Operation \<Rightarrow> ('b \<times> 'v Operation list) option)
     \<Rightarrow> 'b \<Rightarrow> 'v Operation list \<Rightarrow> ('b \<times> 'v Operation list) option" where
  "commits commit b [] = Some (b, [])"
| "commits commit b (op # ops) =
     (case commit b op of None \<Rightarrow> None
      | Some (b', out) \<Rightarrow>
          map_option (\<lambda>(b'', out'). (b'', out @ out')) (commits commit b' ops))"

text \<open>
  The contract of \<^verbatim>\<open>ReorderBuffer\<close> in \<^verbatim>\<open>src/interfaces.go\<close>: a commit releases the maximal run
  of operations that starts at the first unreleased one.
\<close>

locale reorder_buffer =
  fixes drained :: "nat \<Rightarrow> 'b"
    and commit :: "'b \<Rightarrow> 'v Operation \<Rightarrow> ('b \<times> 'v Operation list) option"
    and out_closed :: "'b \<Rightarrow> bool"
    and inv :: "(nat \<Rightarrow> 'v Operation) \<Rightarrow> nat \<Rightarrow> nat set \<Rightarrow> nat \<Rightarrow> 'b \<Rightarrow> bool"
  assumes inv_drained: "N \<le> 2 ^ 63 \<Longrightarrow> inv f N {} 0 (drained N)"
    and inv_commit:
      "inv f N P m b \<Longrightarrow> m \<le> i \<Longrightarrow> i < N \<Longrightarrow> SeqID (f i) = of_nat i \<Longrightarrow>
         \<exists>m' b'. commit b (f i) = Some (b', map f [m..<m']) \<and> m \<le> m' \<and> {m..<m'} \<subseteq> insert i P
           \<and> m' \<notin> insert i P \<and> inv f N (insert i P - {m..<m'}) m' b'"
    and inv_closed: "inv f N P m b \<Longrightarrow> out_closed b \<longleftrightarrow> m = N"
begin

lemma commits_prefix:
  assumes "inv f N P m b" "distinct xs" "set xs \<subseteq> {m..<N}" "set xs \<inter> P = {}" "m \<notin> P"
    and "\<And>i. i < N \<Longrightarrow> SeqID (f i) = of_nat i"
  shows "\<exists>m' b'. commits commit b (map f xs) = Some (b', map f [m..<m']) \<and> m \<le> m'
    \<and> {m..<m'} \<subseteq> P \<union> set xs \<and> m' \<notin> P \<union> set xs \<and> inv f N (P \<union> set xs - {m..<m'}) m' b'"
  using assms(1-5)
proof (induction xs arbitrary: P m b)
  case Nil
  then show ?case by (intro exI [of _ m] exI [of _ b]) simp
next
  case (Cons i xs)
  then obtain m1 b1 where one: "commit b (f i) = Some (b1, map f [m..<m1])" "m \<le> m1"
    "{m..<m1} \<subseteq> insert i P" "m1 \<notin> insert i P" "inv f N (insert i P - {m..<m1}) m1 b1"
    using inv_commit [OF Cons.prems(1), of i] assms(6) by fastforce
  have xs: "set xs \<subseteq> {m1..<N}"
    using Cons.prems one(2,3) by (fastforce simp: subset_iff)
  have "set xs \<inter> (insert i P - {m..<m1}) = {}" using Cons.prems by auto
  from Cons.IH [OF one(5) _ xs this] Cons.prems(2) one(4) obtain m2 b2 where
    two: "commits commit b1 (map f xs) = Some (b2, map f [m1..<m2])" "m1 \<le> m2"
      "{m1..<m2} \<subseteq> insert i P - {m..<m1} \<union> set xs" "m2 \<notin> insert i P - {m..<m1} \<union> set xs"
      "inv f N (insert i P - {m..<m1} \<union> set xs - {m1..<m2}) m2 b2"
    by auto
  have "insert i P - {m..<m1} \<union> set xs - {m1..<m2} = P \<union> set (i # xs) - {m..<m2}"
    using xs one(2) two(2) by (auto simp: subset_iff)
  moreover have "map f [m..<m1] @ map f [m1..<m2] = map f [m..<m2]"
    using upt_add_eq_append [of m m1 "m2 - m1"] one(2) two(2) by simp
  moreover have "{m..<m2} = {m..<m1} \<union> {m1..<m2}" using one(2) two(2) by auto
  then have "{m..<m2} \<subseteq> P \<union> set (i # xs)" using one(3) two(3) by auto
  moreover have "m2 \<notin> P \<union> set (i # xs)" using two(2,4) one(2) by auto
  ultimately show ?case
    using one(1,2) two(1,2,5) by (intro exI [of _ m2] exI [of _ b2]) simp
qed

lemma commits_all:
  assumes "N \<le> 2 ^ 63" "distinct xs" "set xs = {..<N}" "\<And>i. i < N \<Longrightarrow> SeqID (f i) = of_nat i"
  shows "\<exists>b. commits commit (drained N) (map f xs) = Some (b, map f [0..<N]) \<and> out_closed b"
proof -
  from commits_prefix [OF inv_drained [OF assms(1)] assms(2) _ _ _ assms(4)] assms(3)
  obtain m b where m: "commits commit (drained N) (map f xs) = Some (b, map f [0..<m])"
    "{0..<m} \<subseteq> {..<N}" "m \<notin> {..<N}" "inv f N ({..<N} - {0..<m}) m b" by fastforce
  then have "m = N" by (cases m) auto
  with m inv_closed show ?thesis by blast
qed

end

interpretation in_order: reorder_buffer
  "\<lambda>N. Drain NewInOrderReorderBuffer (int N)" "Commit None" closed rob_inv
proof (unfold_locales, goal_cases)
  case (1 N f)
  then show ?case by (rule rob_inv_init)
next
  case (2 f N P m b i)
  from rob_flush_live [OF rob_inv_insert [OF 2]] show ?case unfolding Commit_def by blast
next
  case (3 f N P m b)
  then show ?case by (simp add: rob_inv_def)
qed

section \<open>Properties\<close>

text \<open>
  Results come out in sequence order whatever the completion order.  Committing the
  operations of a batch in any order releases all of them in sequence order, never panics,
  and leaves the output channel closed.
\<close>

theorem reorder_any_completion_order:
  assumes "length ops \<le> 2 ^ 63" "distinct xs" "set xs = {..<length ops}"
    and "\<forall>i < length ops. SeqID (ops ! i) = of_nat i"
  shows "\<exists>rb. commits (Commit None) (Drain NewInOrderReorderBuffer (int (length ops))) (map ((!) ops) xs) = Some (rb, ops)
    \<and> closed rb"
  using in_order.commits_all [OF assms(1-3), of "(!) ops"] assms(4) by (simp add: map_nth)

definition example_results :: "nat Operation list" where
  "example_results = map (\<lambda>i. \<lparr>SeqID = i, Key = ''k'', Type = OpWrite, Value = None, Result = Some (unat i), Err = None\<rparr>) [0, 1, 2]"

lemma example_results_seq:
  "length example_results = 3" "\<forall>i < length example_results. SeqID (example_results ! i) = of_nat i"
  by (auto simp: example_results_def less_Suc_eq eval_nat_numeral)

theorem reorder_any_completion_order_witness:
  "\<exists>rb. commits (Commit None) (Drain NewInOrderReorderBuffer (int (length example_results)))
      (map ((!) example_results) [2, 0, 1]) = Some (rb, example_results) \<and> closed rb"
  using example_results_seq by (intro reorder_any_completion_order) auto



end
