(* ===== verification/WorkerPool.thy ===== *)
theory WorkerPool
  imports Hazard Storage Reorder
begin

text \<open>
  Model of \<^verbatim>\<open>src/workerpool.go\<close>.  \<open>reachableNodes\<close> and \<open>executeNode\<close> are
  functions; \<^verbatim>\<open>Run\<close> is a transition system over the shared state.  Each worker goroutine
  has a program counter \<open>pc\<close>, and one step is one atomic action of one goroutine: a
  channel operation, one storage call, one atomic decrement, one critical section.  A
  \<^verbatim>\<open>select\<close> with several ready cases is resolved by the \<open>branch\<close> of the event.  The
  consumer is the goroutine that ranges over the channel returned by \<^verbatim>\<open>Drain\<close> (the drain
  loop of \<^verbatim>\<open>handleBatch\<close>), and \<open>Cancel\<close> is the end of the context.  A Go panic sets
  \<open>panicked\<close>, after which nothing runs.
\<close>

section \<open>Traversal of the graph\<close>

text \<open>The two loops of \<^verbatim>\<open>reachableNodes\<close> append every unvisited node of a list to the queue.\<close>

fun enqueue :: "ptr list \<Rightarrow> ptr set \<Rightarrow> ptr list \<Rightarrow> ptr set \<times> ptr list" where
  "enqueue [] visited queue = (visited, queue)"
| "enqueue (n # ns) visited queue =
     (if n \<notin> visited then enqueue ns (insert n visited) (queue @ [n])
      else enqueue ns visited queue)"

lemma enqueue_spec:
  "enqueue ns visited queue = (visited', queue') \<Longrightarrow>
     visited' = visited \<union> set ns \<and> (\<exists>new. queue' = queue @ new \<and> distinct new \<and> set new = set ns - visited)"
proof (induction ns arbitrary: visited queue)
  case (Cons n ns)
  show ?case
  proof (cases "n \<in> visited")
    case False
    with Cons.prems have "enqueue ns (insert n visited) (queue @ [n]) = (visited', queue')" by simp
    from Cons.IH [OF this] obtain new where "visited' = insert n visited \<union> set ns"
      "queue' = queue @ n # new" "distinct new" "set new = set ns - insert n visited" by auto
    with False show ?thesis by (intro conjI exI [of _ "n # new"]) auto
  qed (use Cons in auto)
qed simp

definition all_dependents :: "'v heap \<Rightarrow> ptr set" where
  "all_dependents h = (\<Union>n \<in> set h. set (dependents n))"

lemma finite_all_dependents [simp]: "finite (all_dependents h)"
  by (simp add: all_dependents_def)

lemma Dependents_subset: "set (Dependents h n) \<subseteq> all_dependents h"
  by (auto simp: Dependents_def all_dependents_def intro!: bexI [OF _ nth_mem])

function bfs :: "'v heap \<Rightarrow> ptr set \<Rightarrow> ptr list \<Rightarrow> nat \<Rightarrow> ptr list \<Rightarrow> ptr list" where
  "bfs h visited queue i order =
     (if i < length queue then
        (let n = queue ! i;
             (visited', queue') = enqueue (Dependents h n) visited queue
         in bfs h visited' queue' (Suc i) (order @ [n]))
      else order)"
  by pat_completeness auto
termination
proof (relation "measure (\<lambda>(h, visited, queue, i, order).
    card (all_dependents h - visited) + (length queue - i))", goal_cases)
  case (2 h visited queue i order n x visited' queue')
  obtain new where new: "visited' = visited \<union> set (Dependents h n)" "queue' = queue @ new"
    "distinct new" "set new = set (Dependents h n) - visited"
    using enqueue_spec 2(3,4) by metis
  have "all_dependents h - visited' = (all_dependents h - visited) - set new"
    using new by auto
  moreover have "set new \<subseteq> all_dependents h - visited"
    using new(4) Dependents_subset by fastforce
  moreover from this have "card (set new) \<le> card (all_dependents h - visited)"
    by (intro card_mono) simp_all
  ultimately have "card (all_dependents h - visited') + length new = card (all_dependents h - visited)"
    using new(3) by (simp add: card_Diff_subset distinct_card)
  with new(2) 2(1) show ?case by simp
qed simp

declare bfs.simps [simp del]

definition reachableNodes :: "'v heap \<Rightarrow> ptr list \<Rightarrow> ptr list" where
  "reachableNodes h roots =
     (let (visited, queue) = enqueue roots {} [] in bfs h visited queue 0 [])"

section \<open>Executing one node\<close>

definition executeNode ::
  "('s, 'v) StorageEngine \<Rightarrow> ctx_err \<Rightarrow> 's \<Rightarrow> ('v, 'z) Operation_scheme
     \<Rightarrow> 's \<times> ('v, 'z) Operation_scheme" where
  "executeNode storage ctx s node =
     (if Type node = OpRead then
        (case se_Get storage ctx (Key node) s of (s', v, found, err) \<Rightarrow>
           (case err of Some e \<Rightarrow> (s', node\<lparr>Err := Some e\<rparr>)
            | None \<Rightarrow> (s', if found then node\<lparr>Result := v\<rparr> else node)))
      else if Type node = OpWrite then
        (case se_Set storage ctx (Key node) (Value node) s of (s', err) \<Rightarrow>
           (case err of Some e \<Rightarrow> (s', node\<lparr>Err := Some e\<rparr>)
            | None \<Rightarrow> (s', node\<lparr>Result := Value node\<rparr>)))
      else if Type node = OpDelete then
        (case se_Delete storage ctx (Key node) s of (s', err) \<Rightarrow>
           (case err of Some e \<Rightarrow> (s', node\<lparr>Err := Some e\<rparr>) | None \<Rightarrow> (s', node)))
      else (s, node\<lparr>Err := Some UnknownOperation\<rparr>))"

section \<open>The shared state of a run\<close>

datatype 'v pc =
    Select
  | Execute ptr
  | Releasing ptr "ptr list" "ptr list"
  | Committing ptr "ptr list"
  | Flushing "ptr list"
  | Sending "'v Operation" "ptr list"
  | Dispatch "ptr list"
  | Exited

datatype drain_pc = Draining | DrainClosed | DrainAborted

text \<open>
  \<open>executed\<close> is a history variable: the nodes in the order their storage calls took
  effect.  Nothing reads it.
\<close>

record ('s, 'v) pool =
  heap :: "'v heap"
  store :: 's
  workCh :: "ptr list"
  workCh_closed :: bool
  workCh_cap :: nat
  remaining :: int64
  workers :: "'v pc list"
  rob :: "'v InOrderReorderBuffer option"
  mu :: bool
  ctx :: ctx_err
  drain :: drain_pc
  received :: "'v Operation list"
  panicked :: bool
  executed :: "ptr list"

text \<open>Non-positive worker counts are replaced by the number of CPUs.\<close>

definition NewConcurrentWorkerPool :: "nat \<Rightarrow> int \<Rightarrow> nat" where
  "NewConcurrentWorkerPool numCPU numWorkers =
     (if numWorkers \<le> 0 then numCPU else nat numWorkers)"

text \<open>
  The state in which \<^verbatim>\<open>Run\<close> has started its workers.  With no reachable node it starts
  none and returns \<^verbatim>\<open>nil\<close>.
\<close>

definition Run_start ::
  "nat \<Rightarrow> 'v heap \<Rightarrow> ptr list \<Rightarrow> 's \<Rightarrow> 'v InOrderReorderBuffer option \<Rightarrow> ctx_err
     \<Rightarrow> ('s, 'v) pool" where
  "Run_start numWorkers h initial st rb c =
     (let n = length (reachableNodes h initial)
      in \<lparr>heap = h, store = st, workCh = initial, workCh_closed = False, workCh_cap = n,
          remaining = of_nat n, workers = (if n = 0 then [] else replicate numWorkers Select),
          rob = rb, mu = False, ctx = c, drain = Draining, received = [],
          panicked = False, executed = []\<rparr>)"

text \<open>\<^verbatim>\<open>wg.Wait()\<close> has returned; the value of \<^verbatim>\<open>Run\<close>.\<close>

definition Run_return :: "('s, 'v) pool \<Rightarrow> ctx_err option" where
  "Run_return s =
     (if workCh_cap s = 0 then Some None
      else if list_all (\<lambda>p. p = Exited) (workers s) then Some (ctx s) else None)"

datatype branch = Proceed | ChanClosed | CtxDone

datatype event = Worker nat branch | Consumer branch | Cancel error

definition goto :: "nat \<Rightarrow> 'v pc \<Rightarrow> ('s, 'v) pool \<Rightarrow> ('s, 'v) pool" where
  "goto w p s = s\<lparr>workers := (workers s)[w := p]\<rparr>"

text \<open>One action of worker \<open>w\<close>, whose program counter is the fourth argument.\<close>

fun worker_step ::
  "('s, 'v) StorageEngine \<Rightarrow> nat \<Rightarrow> branch \<Rightarrow> 'v pc \<Rightarrow> ('s, 'v) pool \<Rightarrow> ('s, 'v) pool option" where
  "worker_step storage w Proceed Select s =
     (case workCh s of [] \<Rightarrow> None
      | n # q \<Rightarrow> Some (goto w (Execute n) (s\<lparr>workCh := q\<rparr>)))"
| "worker_step storage w ChanClosed Select s =
     (if workCh s = [] \<and> workCh_closed s then Some (goto w Exited s) else None)"
| "worker_step storage w CtxDone Select s =
     (if ctx s \<noteq> None then Some (goto w Exited s) else None)"
| "worker_step storage w Proceed (Execute n) s =
     (case executeNode storage (ctx s) (store s) (heap s ! n) of (st, node) \<Rightarrow>
        Some (goto w (Releasing n (dependents node) [])
          (s\<lparr>heap := (heap s)[n := node], store := st, executed := executed s @ [n]\<rparr>)))"
| "worker_step storage w Proceed (Releasing n (d # ds) runnable) s =
     (case decInDegree (heap s) d of (h, zero) \<Rightarrow>
        Some (goto w (Releasing n ds (if zero then runnable @ [d] else runnable)) (s\<lparr>heap := h\<rparr>)))"
| "worker_step storage w Proceed (Releasing n [] runnable) s =
     (case closeDone (heap s) n of
        None \<Rightarrow> Some (s\<lparr>panicked := True\<rparr>)
      | Some h \<Rightarrow> Some (goto w (Committing n runnable) (s\<lparr>heap := h\<rparr>)))"
| "worker_step storage w Proceed (Committing n runnable) s =
     (case rob s of
        None \<Rightarrow> Some (goto w (Dispatch runnable) s)
      | Some rb \<Rightarrow>
          if mu s then None
          else Some (goto w (Flushing runnable)
                 (s\<lparr>mu := True, rob := Some (rob_insert rb (operation_of (heap s ! n)))\<rparr>)))"
| "worker_step storage w Proceed (Flushing runnable) s =
     (case rob s of
        None \<Rightarrow> None
      | Some rb \<Rightarrow>
          (case rob_take rb of
             None \<Rightarrow> Some (goto w (Dispatch runnable) (s\<lparr>mu := False\<rparr>))
           | Some (op, rb') \<Rightarrow> Some (goto w (Sending op runnable) (s\<lparr>rob := Some rb'\<rparr>))))"
| "worker_step storage w Proceed (Sending op runnable) s =
     (case rob s of
        None \<Rightarrow> None
      | Some rb \<Rightarrow>
          if closed rb then Some (s\<lparr>panicked := True\<rparr>)
          else if drain s = Draining then
            Some (goto w (Flushing runnable)
              (s\<lparr>received := received s @ [op], rob := Some (rob_sent rb)\<rparr>))
          else None)"
| "worker_step storage w CtxDone (Sending op runnable) s =
     (case rob s of
        None \<Rightarrow> None
      | Some rb \<Rightarrow>
          if has_ctx rb \<and> ctx s \<noteq> None then Some (goto w (Dispatch runnable) (s\<lparr>mu := False\<rparr>))
          else None)"
| "worker_step storage w Proceed (Dispatch (r # rs)) s =
     (if workCh_closed s then Some (s\<lparr>panicked := True\<rparr>)
      else if length (workCh s) < workCh_cap s then
        Some (goto w (Dispatch rs) (s\<lparr>workCh := workCh s @ [r]\<rparr>))
      else None)"
| "worker_step storage w Proceed (Dispatch []) s =
     (let r = remaining s - 1
      in if r = 0 then
           (if workCh_closed s then Some (s\<lparr>panicked := True\<rparr>)
            else Some (goto w Select (s\<lparr>remaining := r, workCh_closed := True\<rparr>)))
         else Some (goto w Select (s\<lparr>remaining := r\<rparr>)))"
| "worker_step storage w _ _ s = None"

text \<open>The consumer sees the closed channel, or leaves its loop because the context ended.\<close>

definition consumer_step :: "branch \<Rightarrow> ('s, 'v) pool \<Rightarrow> ('s, 'v) pool option" where
  "consumer_step b s =
     (if drain s \<noteq> Draining then None
      else case b of
        Proceed \<Rightarrow> None
      | ChanClosed \<Rightarrow>
          (case rob s of
             Some rb \<Rightarrow> if closed rb then Some (s\<lparr>drain := DrainClosed\<rparr>) else None
           | None \<Rightarrow> None)
      | CtxDone \<Rightarrow> if ctx s \<noteq> None then Some (s\<lparr>drain := DrainAborted\<rparr>) else None)"

fun pool_step ::
  "('s, 'v) StorageEngine \<Rightarrow> event \<Rightarrow> ('s, 'v) pool \<Rightarrow> ('s, 'v) pool option" where
  "pool_step storage (Worker w b) s =
     (if panicked s \<or> length (workers s) \<le> w then None
      else worker_step storage w b (workers s ! w) s)"
| "pool_step storage (Consumer b) s = (if panicked s then None else consumer_step b s)"
| "pool_step storage (Cancel e) s =
     (if panicked s \<or> ctx s \<noteq> None then None else Some (s\<lparr>ctx := Some e\<rparr>))"

text \<open>Schedules: finite sequences of events, and the states they lead to.\<close>

fun pool_run ::
  "('s, 'v) StorageEngine \<Rightarrow> event list \<Rightarrow> ('s, 'v) pool \<Rightarrow> ('s, 'v) pool option" where
  "pool_run storage [] s = Some s"
| "pool_run storage (e # es) s =
     (case pool_step storage e s of None \<Rightarrow> None | Some s' \<Rightarrow> pool_run storage es s')"

inductive pool_reach ::
  "('s, 'v) StorageEngine \<Rightarrow> ('s, 'v) pool \<Rightarrow> ('s, 'v) pool \<Rightarrow> bool"
  for storage :: "('s, 'v) StorageEngine" and s0 :: "('s, 'v) pool" where
  start: "pool_reach storage s0 s0"
| step: "pool_reach storage s0 s \<Longrightarrow> pool_step storage e s = Some s' \<Longrightarrow> pool_reach storage s0 s'"

text \<open>Nothing the program itself does is enabled any more (the environment may still cancel).\<close>

definition quiescent :: "('s, 'v) StorageEngine \<Rightarrow> ('s, 'v) pool \<Rightarrow> bool" where
  "quiescent storage s \<longleftrightarrow>
     (\<forall>w b. pool_step storage (Worker w b) s = None) \<and> (\<forall>b. pool_step storage (Consumer b) s = None)"

end
