(* ===== verification/Pool_Graph.thy ===== *)
theory Pool_Graph
  imports WorkerPool
begin

text \<open>
  Correctness of \<open>reachableNodes\<close>: the traversal visits every node reachable from
  the roots once.  For a graph that a \<open>hazard_resolver\<close> built, these are all the nodes of
  the batch, which is why the number of visited nodes bounds the work queue.
\<close>

section \<open>The breadth-first traversal\<close>

text \<open>\<open>visited\<close> is the queue as a set; the nodes before position \<open>i\<close> are expanded.\<close>

definition bfs_inv :: "'v heap \<Rightarrow> ptr list \<Rightarrow> ptr set \<Rightarrow> ptr list \<Rightarrow> nat \<Rightarrow> bool" where
  "bfs_inv h roots visited queue i \<longleftrightarrow>
     visited = set queue \<and> distinct queue \<and> i \<le> length queue \<and> set roots \<subseteq> set queue
     \<and> (\<forall>n \<in> set queue. \<exists>r \<in> set roots. (dag_edge h)\<^sup>*\<^sup>* r n)
     \<and> (\<forall>n \<in> set (take i queue). set (Dependents h n) \<subseteq> set queue)"

lemma bfs_inv_step:
  assumes inv: "bfs_inv h roots visited queue i" and i: "i < length queue"
    and enq: "enqueue (Dependents h (queue ! i)) visited queue = (visited', queue')"
  shows "bfs_inv h roots visited' queue' (Suc i)" and "take (Suc i) queue' = take i queue @ [queue ! i]"
proof -
  let ?n = "queue ! i"
  from enqueue_spec [OF enq] obtain new where new: "visited' = visited \<union> set (Dependents h ?n)"
    "queue' = queue @ new" "distinct new" "set new = set (Dependents h ?n) - visited" by auto
  from i new(2) show tk: "take (Suc i) queue' = take i queue @ [?n]"
    by (simp add: take_Suc_conv_app_nth)
  have n: "?n \<in> set queue" using i by simp
  have reach: "\<exists>r \<in> set roots. (dag_edge h)\<^sup>*\<^sup>* r m" if m: "m \<in> set queue'" for m
  proof (cases "m \<in> set queue")
    case True
    then show ?thesis using inv by (auto simp: bfs_inv_def)
  next
    case False
    then have edge: "dag_edge h ?n m" using m new(2,4) by (simp add: dag_edge_def)
    from inv n obtain r where "r \<in> set roots" "(dag_edge h)\<^sup>*\<^sup>* r ?n" by (auto simp: bfs_inv_def)
    with edge show ?thesis by (meson rtranclp.rtrancl_into_rtrancl)
  qed
  have "visited = set queue" using inv by (simp add: bfs_inv_def)
  then have v': "visited' = set queue'" "set queue' = set queue \<union> set (Dependents h ?n)"
    using new by auto
  have expanded: "\<forall>m \<in> set (take (Suc i) queue'). set (Dependents h m) \<subseteq> set queue'"
    unfolding tk using inv v'(2) by (auto simp: bfs_inv_def)
  show "bfs_inv h roots visited' queue' (Suc i)"
    using inv i new reach v' expanded by (auto simp: bfs_inv_def)
qed

lemma bfs_correct:
  assumes "bfs_inv h roots visited queue i" "order = take i queue"
  shows "distinct (bfs h visited queue i order)
    \<and> set (bfs h visited queue i order) = {n. \<exists>r \<in> set roots. (dag_edge h)\<^sup>*\<^sup>* r n}"
  using assms
proof (induction h visited queue i order rule: bfs.induct)
  case (1 h visited queue i order)
  show ?case
  proof (cases "i < length queue")
    case True
    obtain visited' queue' where enq: "enqueue (Dependents h (queue ! i)) visited queue = (visited', queue')"
      by (cases "enqueue (Dependents h (queue ! i)) visited queue")
    note step = bfs_inv_step [OF 1(2) True enq]
    have "bfs h visited queue i order = bfs h visited' queue' (Suc i) (order @ [queue ! i])"
      using True enq by (subst bfs.simps) simp
    with 1(1) [OF True refl _ _ step(1)] step(2) enq 1(3) show ?thesis by simp
  next
    case False
    with 1(2,3) have fin: "order = queue" "bfs_inv h roots visited queue (length queue)"
      by (auto simp: bfs_inv_def)
    have closed: "n \<in> set queue" if "r \<in> set roots" "(dag_edge h)\<^sup>*\<^sup>* r n" for r n
      using that(2,1) fin(2) by (induction rule: rtranclp_induct) (auto simp: bfs_inv_def dag_edge_def)
    then show ?thesis using False fin by (subst (1 2) bfs.simps) (auto simp: bfs_inv_def)
  qed
qed

lemma reachableNodes_correct:
  "distinct (reachableNodes h roots)"
  "set (reachableNodes h roots) = {n. \<exists>r \<in> set roots. (dag_edge h)\<^sup>*\<^sup>* r n}"
proof -
  obtain visited queue where enq: "enqueue roots {} [] = (visited, queue)"
    by (cases "enqueue roots {} []")
  have "bfs_inv h roots visited queue 0"
    using enqueue_spec [OF enq] by (auto simp: bfs_inv_def)
  from bfs_correct [OF this, of "[]"] enq
  show "distinct (reachableNodes h roots)"
    "set (reachableNodes h roots) = {n. \<exists>r \<in> set roots. (dag_edge h)\<^sup>*\<^sup>* r n}"
    by (auto simp: reachableNodes_def)
qed

section \<open>Graphs of a hazard resolver\<close>

context hazard_resolver
begin

lemma edge_bounds:
  assumes "build ops = Inr (h, all_nodes, runnable)" "(dag_edge h)\<^sup>+\<^sup>+ i j"
  shows "i < j \<and> j < length ops"
  using assms(2) by (induction rule: tranclp_induct) (use build_forward [OF assms(1)] in fastforce)+

text \<open>The number of edges into a node is at most the number of nodes: no counter overflows.\<close>

lemma inDegree_bound:
  assumes "build ops = Inr (h, all_nodes, runnable)"
  shows "(\<Sum>i < length ops. count_list (dependents (h ! i)) j) \<le> length ops"
proof -
  have "count_list (dependents (h ! i)) j \<le> 1" if "i < length ops" for i
    using build_distinct [OF assms that] by (simp add: count_list_distinct)
  then have "(\<Sum>i < length ops. count_list (dependents (h ! i)) j) \<le> (\<Sum>i < length ops. 1)"
    by (intro sum_mono) simp
  then show ?thesis by simp
qed

lemma inDegree_zero_iff:
  assumes "build ops = Inr (h, all_nodes, runnable)" "j < length ops"
  shows "inDegree (h ! j) = 0 \<longleftrightarrow> (\<Sum>i < length ops. count_list (dependents (h ! i)) j) = 0"
proof -
  have "(\<Sum>i < length ops. count_list (dependents (h ! i)) j) < 2 ^ 64"
    using inDegree_bound [OF assms(1), of j] build_nodes [OF assms(1)] by simp
  then show ?thesis unfolding build_inDegree [OF assms] by (rule of_nat_64_eq_0)
qed

lemma all_reachable:
  assumes b: "build ops = Inr (h, all_nodes, runnable)" and j: "j < length ops"
  shows "\<exists>r \<in> set runnable. (dag_edge h)\<^sup>*\<^sup>* r j"
  using j
proof (induction j rule: less_induct)
  case (less j)
  show ?case
  proof (cases "inDegree (h ! j) = 0")
    case True
    then show ?thesis using less.prems build_runnable [OF b] by auto
  next
    case False
    then obtain i where i: "i < length ops" "count_list (dependents (h ! i)) j \<noteq> 0"
      using inDegree_zero_iff [OF b less.prems] by auto
    then have edge: "dag_edge h i j"
      using build_nodes [OF b] by (simp add: dag_edge_def Dependents_def count_list_0_iff)
    with build_forward [OF b] have "i < j" by blast
    from less.IH [OF this i(1)] edge show ?thesis by (meson rtranclp.rtrancl_into_rtrancl)
  qed
qed

lemma reachable_all:
  assumes b: "build ops = Inr (h, all_nodes, runnable)"
  shows "set (reachableNodes h runnable) = {..<length ops}" "length (reachableNodes h runnable) = length ops"
proof -
  have roots: "set runnable \<subseteq> {..<length ops}" using build_runnable [OF b] by auto
  have "j < length ops" if "r \<in> set runnable" "(dag_edge h)\<^sup>*\<^sup>* r j" for r j
    using that(2,1) roots build_forward [OF b] by (induction rule: rtranclp_induct) auto
  then show *: "set (reachableNodes h runnable) = {..<length ops}"
    using all_reachable [OF b] by (auto simp: reachableNodes_correct)
  then show "length (reachableNodes h runnable) = length ops"
    using reachableNodes_correct(1) [of h runnable] by (metis card_lessThan distinct_card)
qed

end

section \<open>Properties\<close>

text \<open>
  The traversal visits every node once.  \<^verbatim>\<open>reachableNodes\<close> lists, without duplicates,
  exactly the nodes reachable from the roots along dependency edges.
\<close>

theorem reachableNodes_exact:
  "distinct (reachableNodes h roots) \<and> (n \<in> set (reachableNodes h roots) \<longleftrightarrow> (\<exists>r. r \<in> set roots \<and> (dag_edge h)\<^sup>*\<^sup>* r n))"
  by (auto simp: reachableNodes_correct)

text \<open>
  The queue capacity is the batch size.  From the runnable nodes of a graph that \<^verbatim>\<open>Build\<close>
  returned, every node of the batch is reached, so \<^verbatim>\<open>Run\<close> sizes its queue and its counter
  by the number of operations.
\<close>

theorem reachableNodes_whole_batch:
  assumes "Build ops = Inr (h, all_nodes, runnable)"
  shows "set (reachableNodes h runnable) = {..<length ops} \<and> length (reachableNodes h runnable) = length ops"
  using seq_resolver.reachable_all [OF assms] by blast

theorem reachableNodes_whole_batch_witness:
  "\<exists>h all_nodes runnable. Build example_ops = Inr (h, all_nodes, runnable)
    \<and> length (reachableNodes h runnable) = 4"
proof -
  obtain h all_nodes runnable where b: "Build example_ops = Inr (h, all_nodes, runnable)" by (rule example_build)
  with reachableNodes_whole_batch [OF b] show ?thesis by (auto simp: example_ops_def)
qed

end
