(* ===== verification/Pool_Sched.thy ===== *)
theory Pool_Sched
  imports Pool_Graph
begin

text \<open>
  The scheduling invariant of a run: where every node is (not yet released, held by a
  worker, queued, executed), what the in-degree counters and \<^verbatim>\<open>remaining\<close> count, and
  when the queue is closed.  It holds in every reachable state, with or without
  cancellation.  From it follow the absence of panics (send on a closed channel, double
  close), the bound on the queue and the exactly-once execution of the nodes.
  All conjuncts are equations between sums over the workers, so that a step that moves
  one worker is checked by arithmetic.
\<close>

section \<open>What a worker holds\<close>

fun held :: "'v pc \<Rightarrow> ptr list" where
  "held (Execute n) = [n]"
| "held (Releasing n ds runnable) = runnable"
| "held (Committing n runnable) = runnable"
| "held (Flushing runnable) = runnable"
| "held (Sending op runnable) = runnable"
| "held (Dispatch runnable) = runnable"
| "held _ = []"

fun owed :: "'v pc \<Rightarrow> ptr list" where
  "owed (Releasing n ds runnable) = ds"
| "owed _ = []"

fun releasing :: "'v pc \<Rightarrow> ptr list" where
  "releasing (Releasing n ds runnable) = [n]"
| "releasing _ = []"

fun busy :: "'v pc \<Rightarrow> nat" where
  "busy Select = 0"
| "busy (Execute n) = 0"
| "busy Exited = 0"
| "busy _ = 1"

definition wsum :: "('v pc \<Rightarrow> nat) \<Rightarrow> 'v pc list \<Rightarrow> nat" where
  "wsum f ws = sum_list (map f ws)"

lemma wsum_update:
  assumes "w < length ws" "ws ! w = p"
  shows "wsum f (ws[w := p']) = wsum f ws - f p + f p'" and "f p \<le> wsum f ws"
proof -
  show "f p \<le> wsum f ws"
    using assms by (auto simp: wsum_def intro!: member_le_sum_list)
  then show "wsum f (ws[w := p']) = wsum f ws - f p + f p'"
    using sum_list_update_nat [OF assms(1), of f p'] assms(2) by (simp add: wsum_def)
qed

lemma wsum_same: "w < length ws \<Longrightarrow> ws ! w = p \<Longrightarrow> f p' = f p \<Longrightarrow> wsum f (ws[w := p']) = wsum f ws"
  using wsum_update(1) [of w ws p f p'] wsum_update(2) [of w ws p f] by simp

lemma wsum_zeroD: "wsum f ws = 0 \<Longrightarrow> p \<in> set ws \<Longrightarrow> f p = 0"
  by (auto simp: wsum_def sum_list_eq_0_iff)

section \<open>The invariant\<close>

text \<open>
  \<open>tick\<close> counts the places a node is at (executed, queued or held by a worker);
  \<open>pend\<close> counts the edges into a node that are still to be released.
\<close>

definition tick :: "('s, 'v) pool \<Rightarrow> ptr \<Rightarrow> nat" where
  "tick s j = count_list (executed s) j + count_list (workCh s) j
     + wsum (\<lambda>p. count_list (held p) j) (workers s)"

definition pend :: "'v heap \<Rightarrow> ('s, 'v) pool \<Rightarrow> ptr \<Rightarrow> nat" where
  "pend h0 s j =
     (\<Sum>i < length h0. if i \<in> set (executed s) then 0 else count_list (dependents (h0 ! i)) j)
     + wsum (\<lambda>p. count_list (owed p) j) (workers s)"

definition dag_ok :: "'v heap \<Rightarrow> bool" where
  "dag_ok h0 \<longleftrightarrow> length h0 \<le> 2 ^ 63
     \<and> (\<forall>i j. dag_edge h0 i j \<longrightarrow> i < j \<and> j < length h0)
     \<and> (\<forall>j. (\<Sum>i < length h0. count_list (dependents (h0 ! i)) j) \<le> length h0)"

lemma dag_okD:
  assumes "dag_ok h0"
  shows "length h0 \<le> 2 ^ 63"
    and "\<And>i j. dag_edge h0 i j \<Longrightarrow> i < j \<and> j < length h0"
    and "\<And>j. (\<Sum>i < length h0. count_list (dependents (h0 ! i)) j) \<le> length h0"
    and "\<And>i j. i < length h0 \<Longrightarrow> j \<in> set (dependents (h0 ! i)) \<Longrightarrow> i < j \<and> j < length h0"
proof -
  show le: "length h0 \<le> 2 ^ 63" and edge: "\<And>i j. dag_edge h0 i j \<Longrightarrow> i < j \<and> j < length h0"
    and "\<And>j. (\<Sum>i < length h0. count_list (dependents (h0 ! i)) j) \<le> length h0"
    using assms unfolding dag_ok_def by blast+
  show "i < j \<and> j < length h0" if "i < length h0" "j \<in> set (dependents (h0 ! i))" for i j
    using edge [of i j] that by (simp add: dag_edge_def Dependents_def)
qed

definition sched_inv :: "'v heap \<Rightarrow> ('s, 'v) pool \<Rightarrow> bool" where
  "sched_inv h0 s \<longleftrightarrow>
     length (heap s) = length h0
     \<and> (\<forall>i < length h0. dependents (heap s ! i) = dependents (h0 ! i))
     \<and> (\<forall>j. tick s j = (if j < length h0 \<and> pend h0 s j = 0 then 1 else 0))
     \<and> (\<forall>j < length h0. inDegree (heap s ! j) = of_nat (pend h0 s j) \<and> pend h0 s j \<le> length h0)
     \<and> workCh_cap s = length h0
     \<and> (workCh_closed s \<longleftrightarrow> 0 < length h0 \<and> length (executed s) = length h0 \<and> wsum busy (workers s) = 0)
     \<and> remaining s = of_nat (length h0 + wsum busy (workers s) - length (executed s))
     \<and> wsum busy (workers s) \<le> length (executed s)
     \<and> (\<forall>i. wsum (\<lambda>p. count_list (releasing p) i) (workers s) =
            (if i \<in> set (executed s) \<and> \<not> done_closed (heap s ! i) then 1 else 0))
     \<and> (\<forall>i < length h0. done_closed (heap s ! i) \<longrightarrow> i \<in> set (executed s))
     \<and> (\<forall>p \<in> set (workers s). set (owed p) \<subseteq> {..<length h0})
     \<and> \<not> panicked s"

lemma sched_invD:
  assumes "sched_inv h0 s"
  shows "length (heap s) = length h0"
    and "\<And>i. i < length h0 \<Longrightarrow> dependents (heap s ! i) = dependents (h0 ! i)"
    and "\<And>j. tick s j = (if j < length h0 \<and> pend h0 s j = 0 then 1 else 0)"
    and "\<And>j. j < length h0 \<Longrightarrow> inDegree (heap s ! j) = of_nat (pend h0 s j) \<and> pend h0 s j \<le> length h0"
    and "workCh_cap s = length h0"
    and "workCh_closed s \<longleftrightarrow> 0 < length h0 \<and> length (executed s) = length h0 \<and> wsum busy (workers s) = 0"
    and "remaining s = of_nat (length h0 + wsum busy (workers s) - length (executed s))"
    and "wsum busy (workers s) \<le> length (executed s)"
    and "\<And>i. wsum (\<lambda>p. count_list (releasing p) i) (workers s) =
          (if i \<in> set (executed s) \<and> \<not> done_closed (heap s ! i) then 1 else 0)"
    and "\<And>i. i < length h0 \<Longrightarrow> done_closed (heap s ! i) \<Longrightarrow> i \<in> set (executed s)"
    and "\<And>p. p \<in> set (workers s) \<Longrightarrow> set (owed p) \<subseteq> {..<length h0}"
    and "\<not> panicked s"
  using assms by (simp_all add: sched_inv_def)

lemma sched_invI:
  assumes "length (heap s) = length h0"
    and "\<And>i. i < length h0 \<Longrightarrow> dependents (heap s ! i) = dependents (h0 ! i)"
    and "\<And>j. tick s j = (if j < length h0 \<and> pend h0 s j = 0 then 1 else 0)"
    and "\<And>j. j < length h0 \<Longrightarrow> inDegree (heap s ! j) = of_nat (pend h0 s j) \<and> pend h0 s j \<le> length h0"
    and "workCh_cap s = length h0"
    and "workCh_closed s \<longleftrightarrow> 0 < length h0 \<and> length (executed s) = length h0 \<and> wsum busy (workers s) = 0"
    and "remaining s = of_nat (length h0 + wsum busy (workers s) - length (executed s))"
    and "wsum busy (workers s) \<le> length (executed s)"
    and "\<And>i. wsum (\<lambda>p. count_list (releasing p) i) (workers s) =
          (if i \<in> set (executed s) \<and> \<not> done_closed (heap s ! i) then 1 else 0)"
    and "\<And>i. i < length h0 \<Longrightarrow> done_closed (heap s ! i) \<Longrightarrow> i \<in> set (executed s)"
    and "\<forall>p \<in> set (workers s). set (owed p) \<subseteq> {..<length h0}"
    and "\<not> panicked s"
  shows "sched_inv h0 s"
  using assms by (simp add: sched_inv_def)

text \<open>Every place a node can be is counted once.\<close>

lemma tick_parts:
  assumes "sched_inv h0 s"
  shows "distinct (executed s)" "set (executed s) \<subseteq> {..<length h0}" "length (executed s) \<le> length h0"
    and "distinct (workCh s)" "set (workCh s) \<subseteq> {..<length h0}"
    and "set (workCh s) \<inter> set (executed s) = {}"
proof -
  note t = sched_invD(3) [OF assms]
  have e: "count_list (executed s) j \<le> 1" "0 < count_list (executed s) j \<Longrightarrow> j < length h0" for j
    using t [of j] by (auto simp: tick_def split: if_splits)
  have q: "count_list (workCh s) j \<le> 1" "0 < count_list (workCh s) j \<Longrightarrow> j < length h0" for j
    using t [of j] by (auto simp: tick_def split: if_splits)
  show d: "distinct (executed s)" by (rule count_list_le_1_distinct) (rule e(1))
  show "distinct (workCh s)" by (rule count_list_le_1_distinct) (rule q(1))
  show sub: "set (executed s) \<subseteq> {..<length h0}"
    using e(2) by (auto simp: count_list_pos_iff)
  show "set (workCh s) \<subseteq> {..<length h0}"
    using q(2) by (auto simp: count_list_pos_iff)
  show "length (executed s) \<le> length h0"
    using card_mono [OF _ sub] distinct_card [OF d] by simp
  have "\<not> (0 < count_list (executed s) j \<and> 0 < count_list (workCh s) j)" for j
    using t [of j] by (auto simp: tick_def split: if_splits)
  then show "set (workCh s) \<inter> set (executed s) = {}"
    unfolding count_list_pos_iff by blast
qed

section \<open>Steps that only move a worker\<close>

lemma set_update_owed:
  assumes "\<forall>p \<in> set ws. set (owed p) \<subseteq> A" "set (owed p') \<subseteq> A"
  shows "\<forall>p \<in> set (ws[w := p']). set (owed p) \<subseteq> A"
  using assms set_update_subset_insert [of ws w p'] by blast

lemma sched_owed_update:
  assumes "sched_inv h0 s" "set (owed p') \<subseteq> {..<length h0}"
  shows "\<forall>p \<in> set ((workers s)[w := p']). set (owed p) \<subseteq> {..<length h0}"
  using assms by (intro set_update_owed) (simp_all add: sched_inv_def)

lemma sched_inv_move:
  assumes "sched_inv h0 s" "w < length (workers s)" "workers s ! w = p"
    and "held p' = held p" "owed p' = owed p" "releasing p' = releasing p" "busy p' = busy p"
    and "workers s' = (workers s)[w := p']" "heap s' = heap s" "workCh s' = workCh s"
      "workCh_closed s' = workCh_closed s" "workCh_cap s' = workCh_cap s"
      "remaining s' = remaining s" "executed s' = executed s" "panicked s' = panicked s"
  shows "sched_inv h0 s'"
proof -
  have same: "wsum f ((workers s)[w := p']) = wsum f (workers s)" if "f p' = f p" for f
    using wsum_same [OF assms(2,3) that] .
  have "set (owed p) \<subseteq> {..<length h0}"
    using sched_invD(11) [OF assms(1)] assms(2,3) by force
  then have owed: "\<forall>p \<in> set (workers s'). set (owed p) \<subseteq> {..<length h0}"
    unfolding assms(8) by (intro sched_owed_update [OF assms(1)]) (simp add: assms(5))
  have "tick s' j = tick s j" "pend h0 s' j = pend h0 s j" for j
    by (simp_all add: tick_def pend_def assms same)
  then show ?thesis using assms(1) owed by (simp add: sched_inv_def assms same)
qed

lemma sched_inv_frame:
  assumes "sched_inv h0 s"
    and "workers s' = workers s" "heap s' = heap s" "workCh s' = workCh s"
      "workCh_closed s' = workCh_closed s" "workCh_cap s' = workCh_cap s"
      "remaining s' = remaining s" "executed s' = executed s" "panicked s' = panicked s"
  shows "sched_inv h0 s'"
  using assms(1) by (simp add: sched_inv_def tick_def pend_def assms)

section \<open>Steps of the schedule\<close>

text \<open>The following lemmas share the situation of a worker \<open>w\<close> at \<open>p\<close> in a state that satisfies the invariant.\<close>

lemma goto_simps [simp]:
  "heap (goto w p s) = heap s" "store (goto w p s) = store s" "workCh (goto w p s) = workCh s"
  "workCh_closed (goto w p s) = workCh_closed s" "workCh_cap (goto w p s) = workCh_cap s"
  "remaining (goto w p s) = remaining s" "workers (goto w p s) = (workers s)[w := p]"
  "rob (goto w p s) = rob s" "mu (goto w p s) = mu s" "ctx (goto w p s) = ctx s"
  "drain (goto w p s) = drain s" "received (goto w p s) = received s"
  "panicked (goto w p s) = panicked s" "executed (goto w p s) = executed s"
  by (simp_all add: goto_def)

lemma sched_inv_recv:
  assumes inv: "sched_inv h0 s" and w: "w < length (workers s)" "workers s ! w = Select"
    and q: "workCh s = n # q"
  shows "sched_inv h0 (goto w (Execute n) (s\<lparr>workCh := q\<rparr>))" (is "sched_inv h0 ?s")
proof -
  note upd = wsum_update(1) [OF w]
  have "tick ?s j = tick s j" "pend h0 ?s j = pend h0 s j" for j
    by (simp_all add: tick_def pend_def q upd)
  moreover have "\<forall>p \<in> set (workers ?s). set (owed p) \<subseteq> {..<length h0}"
    using sched_owed_update [OF inv, of "Execute n" w] by simp
  ultimately show ?thesis using inv by (simp add: sched_inv_def upd)
qed

lemma executeNode_frame:
  assumes "executeNode storage c s node = (s', node')"
  shows "Operation.more node' = Operation.more node" "SeqID node' = SeqID node" "Key node' = Key node"
    "Type node' = Type node" "Value node' = Value node"
  using assms by (auto simp: executeNode_def split: prod.splits option.splits if_splits)

lemma executeNode_node [simp]:
  assumes "executeNode storage c s (node :: 'v DAGNode) = (s', node')"
  shows "dependents node' = dependents node" "inDegree node' = inDegree node"
    "done_closed node' = done_closed node" "state node' = state node"
  using assms by (auto simp: executeNode_def split: prod.splits option.splits if_splits)

text \<open>A node that a worker is about to execute is fresh, and nothing it waits for is outstanding.\<close>

lemma execute_ready:
  assumes inv: "sched_inv h0 s" and w: "w < length (workers s)" "workers s ! w = Execute n"
  shows "n < length h0" "n \<notin> set (executed s)" "pend h0 s n = 0"
proof -
  note le = wsum_update(2) [OF w, of "\<lambda>p. count_list (held p) n"]
  have "0 < tick s n" using le by (simp add: tick_def)
  then have n: "n < length h0 \<and> pend h0 s n = 0 \<and> tick s n = 1"
    using sched_invD(3) [OF inv, of n] by (auto split: if_splits)
  then show "n < length h0" "pend h0 s n = 0" by blast+
  show "n \<notin> set (executed s)"
    using n le by (auto simp: tick_def count_list_0_iff [symmetric])
qed

lemma sched_inv_exec:
  assumes inv: "sched_inv h0 s" and dag: "dag_ok h0"
    and w: "w < length (workers s)" "workers s ! w = Execute n"
    and ex: "executeNode storage (ctx s) (store s) (heap s ! n) = (st, node)"
  shows "sched_inv h0 (goto w (Releasing n (dependents node) [])
    (s\<lparr>heap := (heap s)[n := node], store := st, executed := executed s @ [n]\<rparr>))"
    (is "sched_inv h0 ?s")
proof -
  note upd = wsum_update [OF w]
  note n = execute_ready(1) [OF inv w] and fresh = execute_ready(2) [OF inv w]
  have deps: "dependents node = dependents (h0 ! n)"
    using ex sched_invD(2) [OF inv n] by simp
  have tick: "tick ?s j = tick s j" for j
    using upd(2) [of "\<lambda>p. count_list (held p) j"] by (simp add: tick_def upd(1))
  have "(if i \<in> set (executed s) then 0 else count_list (dependents (h0 ! i)) j)
      = (if i = n then count_list (dependents (h0 ! n)) j else 0)
      + (if i \<in> set (executed ?s) then 0 else count_list (dependents (h0 ! i)) j)" for i j
    using fresh by simp
  then have pend: "pend h0 ?s j = pend h0 s j" for j
    using n by (simp add: pend_def upd(1) deps sum.distrib)
  have len: "length (heap s) = length h0" by (rule sched_invD(1) [OF inv])
  have node: "dependents ((heap s)[n := node] ! i) = dependents (heap s ! i)"
    "inDegree ((heap s)[n := node] ! i) = inDegree (heap s ! i)"
    "done_closed ((heap s)[n := node] ! i) = done_closed (heap s ! i)" for i
    using ex n len by (auto simp: nth_list_update)
  have owed: "set (dependents node) \<subseteq> {..<length h0}"
    using dag_okD(4) [OF dag n] by (auto simp: deps)
  have "\<not> done_closed (heap s ! n)" using sched_invD(10) [OF inv n] fresh by blast
  have "card (set (n # executed s)) \<le> card {..<length h0}"
    using n tick_parts(2) [OF inv] by (intro card_mono) auto
  then have room: "length (executed s) < length h0"
    using fresh distinct_card [OF tick_parts(1) [OF inv]] by simp
  note facts = sched_invD [OF inv]
  show ?thesis
  proof (rule sched_invI, goal_cases)
    case (9 i)
    show ?case
      using facts(9) [of i] fresh \<open>\<not> done_closed (heap s ! n)\<close> by (auto simp: upd(1) node)
  next
    case 11
    show ?case using sched_owed_update [OF inv, of "Releasing n (dependents node) []" w] owed by simp
  qed (use facts room in \<open>auto simp: node tick pend upd(1)\<close>)
qed

lemma sched_inv_release:
  assumes inv: "sched_inv h0 s" and dag: "dag_ok h0"
    and w: "w < length (workers s)" "workers s ! w = Releasing n (d # ds) runnable"
    and dec: "decInDegree (heap s) d = (h, zero)"
  shows "sched_inv h0 (goto w (Releasing n ds (if zero then runnable @ [d] else runnable)) (s\<lparr>heap := h\<rparr>))"
    (is "sched_inv h0 (goto w ?p' _)")
proof -
  define s' where "s' = goto w ?p' (s\<lparr>heap := h\<rparr>)"
  have s': "workers s' = (workers s)[w := ?p']" "heap s' = h" "executed s' = executed s" "workCh s' = workCh s"
    "workCh_closed s' = workCh_closed s" "workCh_cap s' = workCh_cap s" "remaining s' = remaining s"
    "panicked s' = panicked s"
    by (simp_all add: s'_def)
  note upd = wsum_update [OF w] and facts = sched_invD [OF inv]
  have "workers s ! w \<in> set (workers s)" using w(1) by simp
  then have owed: "set (d # ds) \<subseteq> {..<length h0}" using facts(11) w(2) by force
  then have d: "d < length h0" "d < length (heap s)" by (simp_all add: facts(1))
  have pos: "0 < pend h0 s d" using upd(2) [of "\<lambda>p. count_list (owed p) d"] by (simp add: pend_def)
  have "pend h0 s d < 2 ^ 64" using facts(4) [OF d(1)] dag_okD(1) [OF dag] by simp
  with pos facts(4) [OF d(1)] have zero: "zero \<longleftrightarrow> pend h0 s d = 1"
    using decInDegree_counter(2) [OF dec d(2) d(2)] by blast
  have pend: "pend h0 s' j = pend h0 s j - (if j = d then 1 else 0)" for j
    using upd(2) [of "\<lambda>p. count_list (owed p) j"] by (simp add: pend_def s' upd(1))
  have tick: "tick s' j = tick s j + (if zero \<and> j = d then 1 else 0)" for j
    using upd(2) [of "\<lambda>p. count_list (held p) j"] by (auto simp: tick_def s' upd(1))
  have node: "length h = length h0" "dependents (h ! i) = dependents (heap s ! i)"
    "done_closed (h ! i) = done_closed (heap s ! i)"
    "inDegree (h ! i) = inDegree (heap s ! i) - (if i = d then 1 else 0)" if "i < length h0" for i
    using decInDegree_nth [OF dec d(2), of i] that facts(1) by simp_all
  have len: "length h = length h0" using node(1) [OF d(1)] .
  have busy: "wsum busy (workers s') = wsum busy (workers s)"
    unfolding s' by (rule wsum_same [OF w]) simp
  show ?thesis unfolding s'_def [symmetric]
  proof (rule sched_invI, goal_cases)
    case (3 j)
    show ?case using facts(3) [of j] pos zero d(1) by (auto simp: tick pend)
  next
    case (4 j)
    then show ?case
      using facts(4) [OF 4] node(4) [OF 4] pos of_nat_64_dec [OF pos] by (auto simp: pend s')
  next
    case (9 i)
    have "i < length h0" if "i \<in> set (executed s)" using tick_parts(2) [OF inv] that by auto
    moreover have "wsum (\<lambda>p. count_list (releasing p) i) (workers s')
        = wsum (\<lambda>p. count_list (releasing p) i) (workers s)"
      unfolding s' by (rule wsum_same [OF w]) simp
    ultimately show ?case using facts(9) [of i] node(3) [of i] by (auto simp: s'(2,3))
  next
    case 11
    show ?case
      using sched_owed_update [OF inv, of "Releasing n ds (if zero then runnable @ [d] else runnable)" w] owed
      by (simp add: s')
  qed (use facts node len in \<open>simp_all add: busy s'(2-8)\<close>)
qed

lemma sched_inv_close_done:
  assumes inv: "sched_inv h0 s"
    and w: "w < length (workers s)" "workers s ! w = Releasing n [] runnable"
  shows "\<exists>h. closeDone (heap s) n = Some h
    \<and> sched_inv h0 (goto w (Committing n runnable) (s\<lparr>heap := h\<rparr>))"
proof -
  note upd = wsum_update [OF w] and facts = sched_invD [OF inv]
  have "0 < wsum (\<lambda>p. count_list (releasing p) n) (workers s)"
    using upd(2) [of "\<lambda>p. count_list (releasing p) n"] by simp
  with facts(9) [of n] have "n \<in> set (executed s) \<and> \<not> done_closed (heap s ! n)"
    by (metis less_numeral_extra(3))
  then have n: "n \<in> set (executed s)" "\<not> done_closed (heap s ! n)" by blast+
  then have n_lt: "n < length h0" "n < length (heap s)" using subsetD [OF tick_parts(2) [OF inv] n(1)] facts(1) by simp_all
  obtain h where h: "closeDone (heap s) n = Some h" using n(2) by (simp add: closeDone_def)
  define s' where "s' = goto w (Committing n runnable) (s\<lparr>heap := h\<rparr>)"
  have s': "workers s' = (workers s)[w := Committing n runnable]" "heap s' = h" "executed s' = executed s"
    "workCh s' = workCh s" "workCh_closed s' = workCh_closed s" "workCh_cap s' = workCh_cap s"
    "remaining s' = remaining s" "panicked s' = panicked s"
    by (simp_all add: s'_def)
  have same: "pend h0 s' j = pend h0 s j" "tick s' j = tick s j" for j
    using upd(2) [of "\<lambda>p. count_list (held p) j"] by (simp_all add: pend_def tick_def s' upd(1))
  have node: "length h = length h0" "dependents (h ! i) = dependents (heap s ! i)"
    "done_closed (h ! i) \<longleftrightarrow> done_closed (heap s ! i) \<or> i = n"
    "inDegree (h ! i) = inDegree (heap s ! i)" if "i < length h0" for i
    using closeDone_nth [OF h n_lt(2), of i] that facts(1) by simp_all
  have len: "length h = length h0" using node(1) [OF n_lt(1)] .
  have busy: "wsum busy (workers s') = wsum busy (workers s)"
    unfolding s' by (rule wsum_same [OF w]) simp
  have "sched_inv h0 s'"
  proof (rule sched_invI, goal_cases)
    case (9 i)
    have "i < length h0" if "i \<in> set (executed s)" using tick_parts(2) [OF inv] that by auto
    then show ?case using facts(9) [of i] node(3) [of i] n by (auto simp: upd(1) s')
  next
    case 11
    show ?case using sched_owed_update [OF inv, of "Committing n runnable" w] by (simp add: s')
  qed (use facts node len same n in \<open>auto simp: busy s'(2-8)\<close>)
  with h show ?thesis unfolding s'_def by blast
qed

text \<open>A newly runnable node always finds room in the open queue.\<close>

lemma dispatch_room:
  assumes inv: "sched_inv h0 s" and w: "w < length (workers s)" "workers s ! w = Dispatch (r # rs)"
  shows "\<not> workCh_closed s" and "length (workCh s) < workCh_cap s"
proof -
  note upd = wsum_update [OF w] and facts = sched_invD [OF inv]
  show "\<not> workCh_closed s" using upd(2) [of busy] facts(6) by simp
  have held: "0 < wsum (\<lambda>p. count_list (held p) r) (workers s)"
    using upd(2) [of "\<lambda>p. count_list (held p) r"] by simp
  then have tick: "0 < tick s r" by (simp add: tick_def)
  have "tick s r \<le> 1" "r < length h0" using facts(3) [of r] tick by (metis le_refl less_not_refl zero_le)+
  then have "count_list (workCh s) r = 0" using held unfolding tick_def by linarith
  then have "card (insert r (set (workCh s))) = Suc (length (workCh s))"
    using distinct_card [OF tick_parts(4) [OF inv]] by (simp add: count_list_0_iff)
  moreover have "card (insert r (set (workCh s))) \<le> card {..<length h0}"
    using tick_parts(5) [OF inv] \<open>r < length h0\<close> by (intro card_mono) auto
  ultimately show "length (workCh s) < workCh_cap s" using facts(5) by simp
qed

lemma sched_inv_dispatch:
  assumes inv: "sched_inv h0 s" and w: "w < length (workers s)" "workers s ! w = Dispatch (r # rs)"
  shows "sched_inv h0 (goto w (Dispatch rs) (s\<lparr>workCh := workCh s @ [r]\<rparr>))" (is "sched_inv h0 ?s")
proof -
  note upd = wsum_update [OF w]
  have same: "wsum f ((workers s)[w := Dispatch rs]) = wsum f (workers s)"
    if "f (Dispatch rs) = f (Dispatch (r # rs))" for f
    using that by (rule wsum_same [OF w])
  have "tick ?s j = tick s j" for j
    using upd(2) [of "\<lambda>p. count_list (held p) j"] by (simp add: tick_def upd(1))
  moreover have "pend h0 ?s j = pend h0 s j" for j by (simp add: pend_def same)
  moreover have "\<forall>p \<in> set (workers ?s). set (owed p) \<subseteq> {..<length h0}"
    using sched_owed_update [OF inv, of "Dispatch rs" w] by simp
  ultimately show ?thesis using inv by (simp add: sched_inv_def same)
qed

lemma sched_inv_decrement:
  assumes inv: "sched_inv h0 s" and dag: "dag_ok h0"
    and w: "w < length (workers s)" "workers s ! w = Dispatch []"
  shows "\<not> workCh_closed s"
    and "sched_inv h0 (goto w Select
      (s\<lparr>remaining := remaining s - 1, workCh_closed := (remaining s - 1 = 0)\<rparr>))" (is "sched_inv h0 ?s")
proof -
  note upd = wsum_update [OF w] and facts = sched_invD [OF inv]
  have busy: "1 \<le> wsum busy (workers s)" using upd(2) [of busy] by simp
  then show open_ch: "\<not> workCh_closed s" using facts(6) by simp
  let ?k = "length h0 + wsum busy (workers s) - length (executed s)"
  have k: "0 < ?k" "?k - 1 < 2 ^ 64"
    using busy tick_parts(3) [OF inv] facts(8) dag_okD(1) [OF dag] by simp_all
  have rem: "remaining s - 1 = of_nat (?k - 1)" using of_nat_64_dec [OF k(1)] facts(7) by simp
  have zero: "remaining s - 1 = 0 \<longleftrightarrow> ?k - 1 = 0" unfolding rem using k(2) by (rule of_nat_64_eq_0)
  define s' where "s' = ?s"
  have s': "workers s' = (workers s)[w := Select]" "heap s' = heap s" "executed s' = executed s"
    "workCh_closed s' = (remaining s - 1 = 0)" "workCh_cap s' = workCh_cap s"
    "remaining s' = remaining s - 1" "panicked s' = panicked s"
    by (simp_all add: s'_def)
  have same: "tick s' j = tick s j" "pend h0 s' j = pend h0 s j"
    "wsum (\<lambda>p. count_list (releasing p) j) (workers s') = wsum (\<lambda>p. count_list (releasing p) j) (workers s)" for j
    by (simp_all add: s'_def tick_def pend_def upd(1))
  have nb: "wsum busy (workers s') = wsum busy (workers s) - 1" by (simp add: s' upd(1))
  have owed: "\<forall>p \<in> set (workers s'). set (owed p) \<subseteq> {..<length h0}"
    using sched_owed_update [OF inv, of Select w] by (simp add: s')
  show "sched_inv h0 ?s" unfolding s'_def [symmetric]
  proof (rule sched_invI, goal_cases)
    case 6
    show ?case using zero nb busy facts(8) tick_parts(3) [OF inv] by (auto simp: s')
  next
    case 7
    show ?case using rem nb busy by (simp add: s'(3,6))
  qed (use facts owed nb in \<open>simp_all add: same s'(2-7)\<close>)
qed

section \<open>All steps\<close>

text \<open>
  The only panic that the schedule alone does not exclude is a send on the closed output
  channel; the reorder buffer's own invariant excludes it.
\<close>

definition send_safe :: "('s, 'v) pool \<Rightarrow> bool" where
  "send_safe s \<longleftrightarrow> (\<forall>op runnable rb. Sending op runnable \<in> set (workers s) \<longrightarrow> rob s = Some rb \<longrightarrow> \<not> closed rb)"

lemma sched_inv_worker:
  assumes inv: "sched_inv h0 s" and dag: "dag_ok h0" and safe: "send_safe s"
    and w: "w < length (workers s)" and step: "worker_step storage w b (workers s ! w) s = Some s'"
  shows "sched_inv h0 s'"
proof (cases "workers s ! w")
  case Select
  then show ?thesis
    using step sched_inv_recv [OF inv w Select]
    by (cases b) (auto split: list.splits if_splits intro: sched_inv_move [OF inv w Select, where p' = Exited])
next
  case (Execute n)
  then show ?thesis
    using step sched_inv_exec [OF inv dag w Execute] by (cases b) (auto split: prod.splits)
next
  case (Releasing n ds runnable)
  show ?thesis
  proof (cases ds)
    case Nil
    with Releasing step sched_inv_close_done [OF inv w] show ?thesis
      by (cases b) auto
  next
    case (Cons d ds')
    with Releasing step sched_inv_release [OF inv dag w] show ?thesis
      by (cases b) (auto split: prod.splits)
  qed
next
  case (Committing n runnable)
  with step show ?thesis
    by (cases b) (auto split: option.splits if_splits
        intro: sched_inv_move [OF inv w Committing, where p' = "Dispatch runnable"]
          sched_inv_move [OF inv w Committing, where p' = "Flushing runnable"])
next
  case (Flushing runnable)
  with step show ?thesis
    by (cases b) (auto split: option.splits prod.splits
        intro: sched_inv_move [OF inv w Flushing, where p' = "Dispatch runnable"]
          sched_inv_move [OF inv w Flushing, where p' = "Sending op runnable" for op])
next
  case (Sending op runnable)
  then have "Sending op runnable \<in> set (workers s)" using w by (metis nth_mem)
  with Sending step safe show ?thesis
    by (cases b) (auto simp: send_safe_def split: option.splits if_splits
        intro: sched_inv_move [OF inv w Sending, where p' = "Dispatch runnable"]
          sched_inv_move [OF inv w Sending, where p' = "Flushing runnable"])
next
  case (Dispatch rs)
  show ?thesis
  proof (cases rs)
    case Nil
    note dec = sched_inv_decrement [OF inv dag w Dispatch [unfolded Nil]]
    from Nil Dispatch step dec(1) show ?thesis
      by (cases b) (auto simp: Let_def split: if_splits intro: sched_inv_frame [OF dec(2)])
  next
    case (Cons r rs')
    with Dispatch step sched_inv_dispatch [OF inv w] dispatch_room [OF inv w] show ?thesis
      by (cases b) auto
  qed
next
  case Exited
  with step show ?thesis by (cases b) auto
qed

lemma sched_inv_step:
  assumes "sched_inv h0 s" "dag_ok h0" "send_safe s" "pool_step storage e s = Some s'"
  shows "sched_inv h0 s'"
proof (cases e)
  case (Worker w b)
  then show ?thesis
    using assms sched_inv_worker [OF assms(1-3), of w storage b s'] by (simp split: if_splits)
next
  case (Consumer b)
  then show ?thesis using assms
    by (auto simp: consumer_step_def split: if_splits branch.splits option.splits
        intro: sched_inv_frame [OF assms(1)])
next
  case (Cancel c)
  then show ?thesis using assms by (auto split: if_splits intro: sched_inv_frame [OF assms(1)])
qed

section \<open>The start of a run\<close>

text \<open>What a freshly built graph provides.\<close>

definition fresh_dag :: "'v heap \<Rightarrow> ptr list \<Rightarrow> bool" where
  "fresh_dag h0 initial \<longleftrightarrow> dag_ok h0
     \<and> (\<forall>j < length h0. inDegree (h0 ! j) = of_nat (\<Sum>i < length h0. count_list (dependents (h0 ! i)) j)
          \<and> \<not> done_closed (h0 ! j))
     \<and> initial = filter (\<lambda>j. inDegree (h0 ! j) = 0) [0..<length h0]
     \<and> length (reachableNodes h0 initial) = length h0"

lemma wsum_replicate: "f p = 0 \<Longrightarrow> wsum f (replicate n p) = 0"
  by (induction n) (auto simp: wsum_def)

lemma Run_start_simps [simp]:
  "heap (Run_start nw h initial st rb c) = h" "store (Run_start nw h initial st rb c) = st"
  "workCh (Run_start nw h initial st rb c) = initial" "\<not> workCh_closed (Run_start nw h initial st rb c)"
  "workCh_cap (Run_start nw h initial st rb c) = length (reachableNodes h initial)"
  "remaining (Run_start nw h initial st rb c) = of_nat (length (reachableNodes h initial))"
  "workers (Run_start nw h initial st rb c) =
     (if length (reachableNodes h initial) = 0 then [] else replicate nw Select)"
  "rob (Run_start nw h initial st rb c) = rb" "\<not> mu (Run_start nw h initial st rb c)"
  "ctx (Run_start nw h initial st rb c) = c" "drain (Run_start nw h initial st rb c) = Draining"
  "received (Run_start nw h initial st rb c) = []" "\<not> panicked (Run_start nw h initial st rb c)"
  "executed (Run_start nw h initial st rb c) = []"
  by (simp_all add: Run_start_def Let_def)

lemma wsum_start:
  "f Select = 0 \<Longrightarrow> wsum f (workers (Run_start nw h initial st rb c)) = 0"
  using wsum_replicate [of f Select nw] by (simp add: wsum_def)

lemma sched_inv_start:
  assumes fresh: "fresh_dag h0 initial"
  shows "sched_inv h0 (Run_start nw h0 initial st rb c)" (is "sched_inv h0 ?s")
proof -
  define s where "s = ?s"
  have dag: "dag_ok h0" and n: "length (reachableNodes h0 initial) = length h0"
    and init: "initial = filter (\<lambda>j. inDegree (h0 ! j) = 0) [0..<length h0]"
    and deg: "\<And>j. j < length h0 \<Longrightarrow> inDegree (h0 ! j) = of_nat (\<Sum>i < length h0. count_list (dependents (h0 ! i)) j)"
    and not_done: "\<And>j. j < length h0 \<Longrightarrow> \<not> done_closed (h0 ! j)"
    using fresh unfolding fresh_dag_def by blast+
  have w0: "wsum f (workers s) = 0" if "f Select = 0" for f
    using that unfolding s_def by (rule wsum_start)
  have pend: "pend h0 s j = (\<Sum>i < length h0. count_list (dependents (h0 ! i)) j)" for j
    by (simp add: pend_def w0) (simp add: s_def)
  have le: "pend h0 s j \<le> length h0" for j unfolding pend by (rule dag_okD(3) [OF dag])
  then have "pend h0 s j < 2 ^ 64" for j
    using dag_okD(1) [OF dag] by (rule order.strict_trans1 [OF order.trans]) simp
  then have zero: "inDegree (h0 ! j) = 0 \<longleftrightarrow> pend h0 s j = 0" if "j < length h0" for j
    using of_nat_64_eq_0 deg [OF that] unfolding pend by metis
  have "tick s j = (if j < length h0 \<and> pend h0 s j = 0 then 1 else 0)" for j
    using zero [of j] by (simp add: tick_def w0) (auto simp: s_def init count_list_filter_upt)
  moreover have "\<forall>p \<in> set (workers s). set (owed p) \<subseteq> {..<length h0}" by (auto simp: s_def)
  ultimately show ?thesis unfolding s_def [symmetric]
    using deg le not_done
    by (intro sched_invI) (simp_all add: w0 pend, auto simp: s_def n)
qed

context hazard_resolver
begin

lemma build_dag_ok:
  assumes b: "build ops = Inr (h, all_nodes, runnable)"
  shows "dag_ok h"
  using build_nodes [OF b] build_forward [OF b] inDegree_bound [OF b] by (simp add: dag_ok_def)

lemma build_fresh_dag:
  assumes b: "build ops = Inr (h, all_nodes, runnable)"
  shows "fresh_dag h runnable"
  using build_dag_ok [OF b] build_nodes [OF b] build_inDegree [OF b] build_fresh [OF b]
    build_runnable [OF b] reachable_all(2) [OF b]
  unfolding fresh_dag_def by simp

end

end
