(* ===== verification/Pool_Order.thy ===== *)
theory Pool_Order
  imports Pool_Sched
begin

text \<open>
  The reorder buffer inside a run: at most one worker is in \<^verbatim>\<open>Commit\<close>, the results
  received so far are the operations \<open>0, \<dots>, m - 1\<close> in order, and without cancellation
  the buffer never holds back an operation that could be released.  Together with the
  scheduling invariant this excludes every panic.
\<close>

section \<open>The lock of the reorder buffer\<close>

fun holder :: "'v pc \<Rightarrow> bool" where
  "holder (Flushing runnable) = True"
| "holder (Sending op runnable) = True"
| "holder _ = False"

definition lock_inv :: "'v pc list \<Rightarrow> bool \<Rightarrow> bool" where
  "lock_inv ws locked \<longleftrightarrow> (locked \<longleftrightarrow> (\<exists>w < length ws. holder (ws ! w)))
     \<and> (\<forall>v < length ws. \<forall>w < length ws. holder (ws ! v) \<longrightarrow> holder (ws ! w) \<longrightarrow> v = w)"

lemma lock_inv_same:
  assumes "lock_inv ws l" "w < length ws" "holder p' = holder (ws ! w)"
  shows "lock_inv (ws[w := p']) l"
proof -
  have "holder (ws[w := p'] ! v) = holder (ws ! v)" if "v < length ws" for v
    using assms(2,3) that by (cases "v = w") simp_all
  then show ?thesis using assms(1) by (auto simp: lock_inv_def)
qed

lemma lock_inv_acquire:
  assumes "lock_inv ws False" "w < length ws" "holder p'"
  shows "lock_inv (ws[w := p']) True"
proof -
  have "holder (ws[w := p'] ! v) \<longleftrightarrow> v = w" if "v < length ws" for v
    using assms that by (auto simp: lock_inv_def nth_list_update)
  then show ?thesis using assms(2) by (auto simp: lock_inv_def)
qed

lemma lock_inv_release:
  assumes "lock_inv ws l" "w < length ws" "holder (ws ! w)" "\<not> holder p'"
  shows "lock_inv (ws[w := p']) False"
proof -
  have "\<not> holder (ws[w := p'] ! v)" if "v < length ws" for v
    using assms that by (auto simp: lock_inv_def nth_list_update)
  then show ?thesis by (auto simp: lock_inv_def)
qed

section \<open>Committed nodes\<close>

fun unpublished :: "'v pc \<Rightarrow> ptr list" where
  "unpublished (Releasing n ds runnable) = [n]"
| "unpublished (Committing n runnable) = [n]"
| "unpublished _ = []"

definition unpub :: "('s, 'v) pool \<Rightarrow> ptr \<Rightarrow> nat" where
  "unpub s i = wsum (\<lambda>p. count_list (unpublished p) i) (workers s)"

definition committed :: "('s, 'v) pool \<Rightarrow> ptr set" where
  "committed s = {i \<in> set (executed s). unpub s i = 0}"

definition sending :: "'v pc list \<Rightarrow> bool" where
  "sending ws \<longleftrightarrow> (\<exists>w < length ws. \<exists>op runnable. ws ! w = Sending op runnable)"

definition rob_rel ::
  "(nat \<Rightarrow> 'v Operation) \<Rightarrow> nat \<Rightarrow> nat set \<Rightarrow> nat \<Rightarrow> nat set \<Rightarrow> ('s, 'v) pool \<Rightarrow> bool" where
  "rob_rel f N C m P s \<longleftrightarrow>
     (\<exists>rb. rob s = Some rb \<and> rob_inv f N P m rb)
     \<and> received s = map f [0..<m] \<and> {..<m} \<subseteq> C \<and> P \<subseteq> C \<and> C \<subseteq> {..<N} \<and> (\<forall>i \<in> C. m < i \<longrightarrow> i \<in> P)
     \<and> (\<forall>w < length (workers s). \<forall>op runnable.
          workers s ! w = Sending op runnable \<longrightarrow> op = f m \<and> m \<in> C \<and> m \<notin> P)
     \<and> (ctx s = None \<longrightarrow> (m \<in> C - P \<longrightarrow> sending (workers s)) \<and> (\<not> mu s \<longrightarrow> m \<notin> P))
     \<and> (drain s = DrainClosed \<longrightarrow> m = N) \<and> (drain s = DrainAborted \<longrightarrow> ctx s \<noteq> None)"

abbreviation ops_of :: "('s, 'v) pool \<Rightarrow> nat \<Rightarrow> 'v Operation" where
  "ops_of s \<equiv> (\<lambda>i. operation_of (heap s ! i))"

definition order_inv :: "'v heap \<Rightarrow> ('s, 'v) pool \<Rightarrow> bool" where
  "order_inv h0 s \<longleftrightarrow> lock_inv (workers s) (mu s)
     \<and> (\<forall>i. unpub s i \<le> 1 \<and> (0 < unpub s i \<longrightarrow> i \<in> set (executed s)))
     \<and> (\<forall>i < length h0. SeqID (heap s ! i) = of_nat i)
     \<and> (\<exists>m P. rob_rel (ops_of s) (length h0) (committed s) m P s)"

lemma order_invD:
  assumes "order_inv h0 s"
  shows "lock_inv (workers s) (mu s)" "\<And>i. unpub s i \<le> 1" "\<And>i. 0 < unpub s i \<Longrightarrow> i \<in> set (executed s)"
    "\<And>i. i < length h0 \<Longrightarrow> SeqID (heap s ! i) = of_nat i"
    "\<exists>m P. rob_rel (ops_of s) (length h0) (committed s) m P s"
  using assms unfolding order_inv_def by blast+

lemma rob_inv_cong: "(\<And>i. i \<in> P \<Longrightarrow> f i = g i) \<Longrightarrow> rob_inv f N P m rb = rob_inv g N P m rb"
  by (auto simp: rob_inv_def fun_eq_iff)

text \<open>The closed channel is never sent on.\<close>

lemma order_inv_send_safe:
  assumes "order_inv h0 s"
  shows "send_safe s"
proof -
  from order_invD(5) [OF assms] obtain m P where
    rel: "rob_rel (ops_of s) (length h0) (committed s) m P s" by blast
  have "\<not> closed rb" if w: "Sending op runnable \<in> set (workers s)" and rb: "rob s = Some rb" for op runnable rb
  proof -
    from w obtain v where "v < length (workers s)" "workers s ! v = Sending op runnable"
      by (auto simp: in_set_conv_nth)
    with rel have "m \<in> committed s" "committed s \<subseteq> {..<length h0}" by (auto simp: rob_rel_def)
    then have "m < length h0" by auto
    with rel rb show ?thesis by (auto simp: rob_rel_def rob_inv_def)
  qed
  then show ?thesis by (auto simp: send_safe_def)
qed

section \<open>Steps outside Commit\<close>

lemma unpub_update:
  assumes "w < length (workers s)" "workers s ! w = p" "workers s' = (workers s)[w := p']"
  shows "unpub s' i = unpub s i - count_list (unpublished p) i + count_list (unpublished p') i"
    and "count_list (unpublished p) i \<le> unpub s i"
  using wsum_update [OF assms(1,2), where f = "\<lambda>p. count_list (unpublished p) i"]
  by (simp_all add: unpub_def assms(3))

text \<open>
  A step that leaves the buffer, the lock and the results alone, and publishes nothing,
  keeps the invariant if it does not touch a committed operation.
\<close>

lemma order_inv_outside:
  assumes inv: "order_inv h0 s" and w: "w < length (workers s)" "workers s ! w = p"
    and upd: "workers s' = (workers s)[w := p']"
    and p: "\<not> holder p" "\<not> holder p'"
    and same: "rob s' = rob s" "mu s' = mu s" "ctx s' = ctx s" "drain s' = drain s" "received s' = received s"
    and seq: "\<And>i. i < length h0 \<Longrightarrow> SeqID (heap s' ! i) = SeqID (heap s ! i)"
    and pub: "\<And>i. unpub s' i \<le> 1 \<and> (0 < unpub s' i \<longrightarrow> i \<in> set (executed s'))"
    and com: "committed s' = committed s"
    and ops: "\<And>i. i \<in> committed s \<Longrightarrow> operation_of (heap s' ! i) = operation_of (heap s ! i)"
  shows "order_inv h0 s'"
proof -
  from order_invD(5) [OF inv] obtain m P where
    rel: "rob_rel (ops_of s) (length h0) (committed s) m P s" by blast
  then have sub: "P \<subseteq> committed s" "{..<m} \<subseteq> committed s" by (auto simp: rob_rel_def)
  have nth: "workers s' ! v = (if v = w then p' else workers s ! v)" "length (workers s') = length (workers s)"
    if "v < length (workers s)" for v
    using that by (simp_all add: upd nth_list_update)
  have len: "length (workers s') = length (workers s)" by (simp add: upd)
  have send: "workers s' ! v = Sending op r \<longleftrightarrow> workers s ! v = Sending op r" if "v < length (workers s)" for v op r
    using nth(1) [OF that] p w by auto
  then have sending: "sending (workers s') = sending (workers s)" by (auto simp: sending_def len)
  have "rob_inv (ops_of s') (length h0) P m rb = rob_inv (ops_of s) (length h0) P m rb" for rb
    using ops sub by (intro rob_inv_cong) auto
  moreover have "map (ops_of s') [0..<m] = map (ops_of s) [0..<m]" using ops sub(2) by auto
  moreover have "m \<in> committed s \<Longrightarrow> ops_of s' m = ops_of s m" by (rule ops)
  ultimately have "rob_rel (ops_of s') (length h0) (committed s') m P s'"
    using rel send len unfolding rob_rel_def com same sending by simp
  moreover have "lock_inv (workers s') (mu s')"
    using order_invD(1) [OF inv] w p unfolding upd same by (intro lock_inv_same) auto
  ultimately show ?thesis using order_invD(4) [OF inv] seq pub unfolding order_inv_def by auto
qed

lemma order_inv_quiet:
  assumes inv: "order_inv h0 s" and w: "w < length (workers s)" "workers s ! w = p"
    and upd: "workers s' = (workers s)[w := p']"
    and p: "\<not> holder p" "\<not> holder p'" "unpublished p' = unpublished p"
    and same: "rob s' = rob s" "mu s' = mu s" "ctx s' = ctx s" "drain s' = drain s" "received s' = received s"
      "executed s' = executed s"
    and ops: "\<And>i. i < length h0 \<Longrightarrow> operation_of (heap s' ! i) = operation_of (heap s ! i)"
    and dom: "set (executed s) \<subseteq> {..<length h0}"
  shows "order_inv h0 s'"
proof -
  have unpub: "unpub s' i = unpub s i" for i
    using unpub_update [OF w upd, of i] p(3) by simp
  then have com: "committed s' = committed s" by (simp add: committed_def same)
  have "SeqID (heap s' ! i) = SeqID (heap s ! i)" if "i < length h0" for i
    using ops [OF that] by (metis operation_of_simps(1))
  moreover have "operation_of (heap s' ! i) = operation_of (heap s ! i)" if "i \<in> committed s" for i
    using that dom by (intro ops) (auto simp: committed_def)
  moreover have "unpub s' i \<le> 1 \<and> (0 < unpub s' i \<longrightarrow> i \<in> set (executed s'))" for i
    using order_invD(2,3) [OF inv] by (simp add: unpub same)
  ultimately show ?thesis using com by (intro order_inv_outside [OF inv w upd p(1,2) same(1-5)]) auto
qed

lemma order_inv_exec:
  assumes inv: "order_inv h0 s" and sched: "sched_inv h0 s"
    and w: "w < length (workers s)" "workers s ! w = Execute n"
    and ex: "executeNode storage (ctx s) (store s) (heap s ! n) = (st, node)"
  shows "order_inv h0 (goto w (Releasing n (dependents node) [])
    (s\<lparr>heap := (heap s)[n := node], store := st, executed := executed s @ [n]\<rparr>))"
    (is "order_inv h0 (goto w ?p' _)")
proof -
  define s' where "s' = goto w ?p' (s\<lparr>heap := (heap s)[n := node], store := st, executed := executed s @ [n]\<rparr>)"
  have upd: "workers s' = (workers s)[w := ?p']" and heap: "heap s' = (heap s)[n := node]"
    and ex': "executed s' = executed s @ [n]" by (simp_all add: s'_def)
  note fresh = execute_ready(2) [OF sched w]
  have len: "n < length (heap s)" using execute_ready(1) [OF sched w] sched_invD(1) [OF sched] by simp
  have un0: "unpub s n = 0" using order_invD(3) [OF inv, of n] fresh by (meson gr0I)
  have un: "unpub s' i = unpub s i + (if i = n then 1 else 0)" for i
    using unpub_update [OF w upd, of i] by simp
  have com: "committed s' = committed s"
    using fresh un0 by (auto simp: committed_def un ex')
  show ?thesis unfolding s'_def [symmetric]
  proof (rule order_inv_outside [OF inv w upd])
    show "SeqID (heap s' ! i) = SeqID (heap s ! i)" for i
      using executeNode_frame(2) [OF ex] len by (cases "i = n") (simp_all add: heap)
    show "unpub s' i \<le> 1 \<and> (0 < unpub s' i \<longrightarrow> i \<in> set (executed s'))" for i
      using order_invD(2,3) [OF inv, of i] un0 by (auto simp: un ex')
    show "committed s' = committed s" by (rule com)
    show "operation_of (heap s' ! i) = operation_of (heap s ! i)" if "i \<in> committed s" for i
      using that fresh by (cases "i = n") (auto simp: heap committed_def)
  qed (simp_all add: s'_def)
qed

section \<open>Steps of Commit\<close>

lemma sending_update:
  assumes "w < length ws"
  shows "sending (ws[w := p']) \<longleftrightarrow>
    (\<exists>op r. p' = Sending op r) \<or> (\<exists>v < length ws. v \<noteq> w \<and> (\<exists>op r. ws ! v = Sending op r))"
  using assms by (auto simp: sending_def nth_list_update)

lemma lock_inv_only:
  assumes "lock_inv ws l" "w < length ws" "holder (ws ! w)" "v < length ws" "v \<noteq> w"
  shows "\<not> holder (ws ! v)"
  using assms by (auto simp: lock_inv_def)

lemma order_inv_lock:
  assumes inv: "order_inv h0 s" and dom: "set (executed s) \<subseteq> {..<length h0}"
    and w: "w < length (workers s)" "workers s ! w = Committing n runnable"
    and rb: "rob s = Some rb" and free: "\<not> mu s"
  shows "order_inv h0 (goto w (Flushing runnable)
    (s\<lparr>mu := True, rob := Some (rob_insert rb (operation_of (heap s ! n)))\<rparr>))"
    (is "order_inv h0 ?s")
proof -
  define s' where "s' = ?s"
  have upd: "workers s' = (workers s)[w := Flushing runnable]" and [simp]: "executed s' = executed s"
    "heap s' = heap s" "mu s' = True" "ctx s' = ctx s" "drain s' = drain s" "received s' = received s"
    and rob': "rob s' = Some (rob_insert rb (operation_of (heap s ! n)))"
    by (simp_all add: s'_def)
  note un = unpub_update [OF w upd]
  have "0 < unpub s n" using un(2) [of n] by simp
  then have one: "unpub s n = 1" and n: "n \<in> set (executed s)"
    using order_invD(2,3) [OF inv, of n] by auto
  have com: "committed s' = insert n (committed s)" "n \<notin> committed s"
    using n one by (auto simp: committed_def un(1) split: if_splits)
  from order_invD(5) [OF inv] obtain m P where
    rel: "rob_rel (ops_of s) (length h0) (committed s) m P s" by blast
  have no_holder: "\<not> holder (workers s ! v)" if "v < length (workers s)" for v
    using order_invD(1) [OF inv] free that by (auto simp: lock_inv_def)
  then have "workers s ! v \<noteq> Sending op r" if "v < length (workers s)" for v op r
    using that by (metis holder.simps(2))
  then have no_send: "\<not> sending (workers s)" "\<not> sending (workers s')"
    using w(1) unfolding upd by (auto simp: sending_update) (auto simp: sending_def)
  have m: "m \<le> n" using rel com(2) by (auto simp: rob_rel_def not_less [symmetric])
  have n_lt: "n < length h0" using n dom by auto
  then have "SeqID (operation_of (heap s ! n)) = of_nat n" using order_invD(4) [OF inv] by simp
  with rel rb m n_lt have "rob_inv (ops_of s) (length h0) (insert n P) m (rob_insert rb (operation_of (heap s ! n)))"
    by (intro rob_inv_insert [of "ops_of s"]) (auto simp: rob_rel_def)
  moreover have "m \<notin> insert n (committed s) - insert n P" if "ctx s = None"
    using rel that no_send(1) by (auto simp: rob_rel_def)
  ultimately have "rob_rel (ops_of s') (length h0) (committed s') m (insert n P) s'"
    using rel n_lt no_send(2) unfolding rob_rel_def com rob' by (auto simp: sending_def)
  moreover have "lock_inv (workers s') (mu s')"
    using lock_inv_acquire [of "workers s" w "Flushing runnable"] order_invD(1) [OF inv] free w(1)
    by (simp add: upd)
  moreover have "unpub s' i \<le> 1 \<and> (0 < unpub s' i \<longrightarrow> i \<in> set (executed s))" for i
    using order_invD(2,3) [OF inv, of i] un(1) [of i] by auto
  ultimately show ?thesis using order_invD(4) [OF inv] unfolding s'_def [symmetric] order_inv_def by auto
qed

text \<open>The remaining steps of \<^verbatim>\<open>Commit\<close> change neither the nodes nor the committed set.\<close>

lemma order_inv_inside:
  assumes inv: "order_inv h0 s" and w: "w < length (workers s)" "workers s ! w = p"
    and upd: "workers s' = (workers s)[w := p']"
    and p: "holder p" "unpublished p = []" "unpublished p' = []" "mu s' = holder p'"
    and same: "heap s' = heap s" "executed s' = executed s"
    and rel: "\<And>m P. rob_rel (ops_of s) (length h0) (committed s) m P s \<Longrightarrow>
      \<exists>m' P'. rob_rel (ops_of s) (length h0) (committed s) m' P' s'"
  shows "order_inv h0 s'"
proof -
  have un: "unpub s' i = unpub s i" for i using unpub_update [OF w upd, of i] p by simp
  then have com: "committed s' = committed s" by (simp add: committed_def same)
  have lock: "lock_inv (workers s') (mu s')"
  proof (cases "holder p'")
    case True
    have "mu s" using order_invD(1) [OF inv] w p(1) by (auto simp: lock_inv_def)
    then show ?thesis
      using lock_inv_same [OF order_invD(1) [OF inv] w(1), of p'] w(2) p True by (simp add: upd)
  next
    case False
    then show ?thesis
      using lock_inv_release [OF order_invD(1) [OF inv] w(1), of p'] w(2) p by (simp add: upd)
  qed
  from order_invD(5) [OF inv] rel obtain m P where
    "rob_rel (ops_of s) (length h0) (committed s) m P s'" by blast
  then show ?thesis using lock order_invD(2-4) [OF inv] un com same unfolding order_inv_def by auto
qed

lemma others_not_sending:
  assumes "order_inv h0 s" "w < length (workers s)" "holder (workers s ! w)"
    and "v < length (workers s)" "v \<noteq> w"
  shows "workers s ! v \<noteq> Sending op r"
  using lock_inv_only [OF order_invD(1) [OF assms(1)] assms(2-5)] by auto

lemma order_inv_flushed:
  assumes inv: "order_inv h0 s" and w: "w < length (workers s)" "workers s ! w = Flushing runnable"
    and rb: "rob s = Some rb" "rob_take rb = None"
  shows "order_inv h0 (goto w (Dispatch runnable) (s\<lparr>mu := False\<rparr>))" (is "order_inv h0 ?s")
proof (rule order_inv_inside [OF inv w, where p' = "Dispatch runnable"])
  have others: "workers s ! v \<noteq> Sending op r" if "v < length (workers s)" for v op r
    using others_not_sending [OF inv w(1) _ that] w(2) by (cases "v = w") simp_all
  then have ns: "\<not> sending (workers ?s)" "\<not> sending (workers s)"
    using w(1) by (auto simp: sending_update) (auto simp: sending_def)
  fix m P
  assume rel: "rob_rel (ops_of s) (length h0) (committed s) m P s"
  then have "m \<notin> P" using rob_inv_take rb by (force simp: rob_rel_def)
  with rel ns have "rob_rel (ops_of s) (length h0) (committed s) m P ?s"
    by (auto simp: rob_rel_def sending_def)
  then show "\<exists>m' P'. rob_rel (ops_of s) (length h0) (committed s) m' P' ?s" by blast
qed simp_all

lemma order_inv_take:
  assumes inv: "order_inv h0 s" and w: "w < length (workers s)" "workers s ! w = Flushing runnable"
    and rb: "rob s = Some rb" "rob_take rb = Some (op, rb')"
  shows "order_inv h0 (goto w (Sending op runnable) (s\<lparr>rob := Some rb'\<rparr>))" (is "order_inv h0 ?s")
proof (rule order_inv_inside [OF inv w])
  have others: "workers s ! v \<noteq> Sending op r" if "v < length (workers s)" for v op r
    using others_not_sending [OF inv w(1) _ that] w(2) by (cases "v = w") simp_all
  have send: "sending (workers ?s)" using w(1) by (simp add: sending_update)
  show "mu ?s = holder (Sending op runnable)"
    using order_invD(1) [OF inv] w by (auto simp: lock_inv_def)
  fix m P
  assume rel: "rob_rel (ops_of s) (length h0) (committed s) m P s"
  then have inv0: "rob_inv (ops_of s) (length h0) P m rb" using rb by (auto simp: rob_rel_def)
  with rb(2) have m: "m \<in> P" "op = ops_of s m" "rob_inv (ops_of s) (length h0) (P - {m}) m rb'"
    using rob_inv_take [OF inv0] rob_inv_taken [OF inv0] by (auto split: if_splits)
  with rel send others w(1) have "rob_rel (ops_of s) (length h0) (committed s) m (P - {m}) ?s"
    by (auto simp: rob_rel_def nth_list_update)
  then show "\<exists>m' P'. rob_rel (ops_of s) (length h0) (committed s) m' P' ?s" by blast
qed simp_all

lemma order_inv_send:
  assumes inv: "order_inv h0 s" and w: "w < length (workers s)" "workers s ! w = Sending op runnable"
    and rb: "rob s = Some rb" and dr: "drain s = Draining"
  shows "order_inv h0 (goto w (Flushing runnable)
    (s\<lparr>received := received s @ [op], rob := Some (rob_sent rb)\<rparr>))" (is "order_inv h0 ?s")
proof (rule order_inv_inside [OF inv w])
  have others: "workers s ! v \<noteq> Sending op' r" if "v < length (workers s)" "v \<noteq> w" for v op' r
    using others_not_sending [OF inv w(1) _ that] w(2) by simp
  have mu: "mu s" using order_invD(1) [OF inv] w by (auto simp: lock_inv_def)
  then show "mu ?s = holder (Flushing runnable)" by simp
  fix m P
  assume rel: "rob_rel (ops_of s) (length h0) (committed s) m P s"
  then have m: "op = ops_of s m" "m \<in> committed s" "m \<notin> P"
    using w unfolding rob_rel_def by blast+
  have "committed s \<subseteq> {..<length h0}" using rel unfolding rob_rel_def by blast
  then have "m < length h0" using m(2) by auto
  then have "rob_inv (ops_of s) (length h0) P (Suc m) (rob_sent rb)"
    using rel rb m(3) by (intro rob_inv_sent) (auto simp: rob_rel_def)
  moreover have "{..<Suc m} \<subseteq> committed s" "\<forall>i \<in> committed s. Suc m < i \<longrightarrow> i \<in> P"
    "Suc m \<notin> committed s - P" "P \<subseteq> committed s" "committed s \<subseteq> {..<length h0}"
    using rel m(2) unfolding rob_rel_def lessThan_Suc by auto
  moreover have "received s @ [op] = map (ops_of s) [0..<Suc m]" using rel m(1) by (simp add: rob_rel_def)
  moreover have "workers ?s ! v \<noteq> Sending op' r" if "v < length (workers s)" for v op' r
    using others [OF that] w(1) by (cases "v = w") simp_all
  ultimately have "rob_rel (ops_of s) (length h0) (committed s) (Suc m) P ?s"
    using dr mu unfolding rob_rel_def by simp blast
  then show "\<exists>m' P'. rob_rel (ops_of s) (length h0) (committed s) m' P' ?s" by blast
qed simp_all

lemma order_inv_abort:
  assumes inv: "order_inv h0 s" and w: "w < length (workers s)" "workers s ! w = Sending op runnable"
    and c: "ctx s \<noteq> None"
  shows "order_inv h0 (goto w (Dispatch runnable) (s\<lparr>mu := False\<rparr>))" (is "order_inv h0 ?s")
proof (rule order_inv_inside [OF inv w, where p' = "Dispatch runnable"])
  have others: "workers s ! v \<noteq> Sending op' r" if "v < length (workers s)" "v \<noteq> w" for v op' r
    using others_not_sending [OF inv w(1) _ that] w(2) by simp
  fix m P
  assume "rob_rel (ops_of s) (length h0) (committed s) m P s"
  with c w(1) others have "rob_rel (ops_of s) (length h0) (committed s) m P ?s"
    by (auto simp: rob_rel_def nth_list_update)
  then show "\<exists>m' P'. rob_rel (ops_of s) (length h0) (committed s) m' P' ?s" by blast
qed simp_all

lemma order_inv_env:
  assumes inv: "order_inv h0 s"
    and same: "workers s' = workers s" "heap s' = heap s" "executed s' = executed s" "mu s' = mu s"
      "rob s' = rob s" "received s' = received s"
    and env: "ctx s' = None \<longrightarrow> ctx s = None" "drain s' = DrainAborted \<longrightarrow> ctx s' \<noteq> None"
      "drain s' = DrainClosed \<longrightarrow> drain s = DrainClosed \<or> (\<exists>rb. rob s = Some rb \<and> closed rb)"
  shows "order_inv h0 s'"
proof -
  from order_invD(5) [OF inv] obtain m P where
    rel: "rob_rel (ops_of s) (length h0) (committed s) m P s" by blast
  have un: "unpub s' = unpub s" by (simp add: fun_eq_iff unpub_def same)
  then have com: "committed s' = committed s" by (simp add: committed_def same)
  obtain rb where rb: "rob s = Some rb" "rob_inv (ops_of s) (length h0) P m rb"
    and "drain s = DrainClosed \<longrightarrow> m = length h0" using rel unfolding rob_rel_def by blast
  moreover have "closed rb \<longleftrightarrow> m = length h0" using rb(2) unfolding rob_inv_def by blast
  ultimately have "m = length h0" if "drain s' = DrainClosed" using env(3) that by auto
  then have "rob_rel (ops_of s') (length h0) (committed s') m P s'"
    using rel env(1,2) unfolding rob_rel_def com same by (elim conjE, intro conjI) simp_all
  with order_invD(1-4) [OF inv] show ?thesis unfolding order_inv_def un same by blast
qed

section \<open>All steps\<close>

lemma order_inv_worker:
  assumes inv: "order_inv h0 s" and sched: "sched_inv h0 s"
    and w: "w < length (workers s)" and step: "worker_step storage w b (workers s ! w) s = Some s'"
  shows "order_inv h0 s' \<or> panicked s'"
proof -
  note dom = tick_parts(2) [OF sched] and len = sched_invD(1) [OF sched]
  note quiet = order_inv_quiet [OF inv w _ _ _ _ _ _ _ _ _ _ _ _ dom]
  show ?thesis
  proof (cases "workers s ! w")
    case Select
    then show ?thesis using step
      by (cases b) (auto split: list.splits if_splits intro!: quiet [OF Select])
  next
    case (Execute n)
    then show ?thesis using step order_inv_exec [OF inv sched w Execute]
      by (cases b) (auto split: prod.splits)
  next
    case (Releasing n ds runnable)
    show ?thesis
    proof (cases ds)
      case Nil
      with Releasing step obtain h where h: "closeDone (heap s) n = Some h"
        "s' = goto w (Committing n runnable) (s\<lparr>heap := h\<rparr>)" and b: "b = Proceed"
        using sched_inv_close_done [OF sched w Releasing [unfolded Nil]] by (cases b) auto
      have "n < length h0"
        using dom sched_invD(9) [OF sched, of n] wsum_update(2) [OF w Releasing, of "\<lambda>p. count_list (releasing p) n"]
        by (auto split: if_splits)
      then have "operation_of (h ! i) = operation_of (heap s ! i)" if "i < length h0" for i
        using closeDone_nth(4) [OF h(1), of i] that len by simp
      then show ?thesis using h(2) by (auto intro!: quiet [OF Releasing])
    next
      case (Cons d ds')
      with Releasing step obtain h zero where h: "decInDegree (heap s) d = (h, zero)"
        "s' = goto w (Releasing n ds' (if zero then runnable @ [d] else runnable)) (s\<lparr>heap := h\<rparr>)"
        by (cases b) (auto split: prod.splits)
      have "workers s ! w \<in> set (workers s)" using w by simp
      then have "d < length h0" using sched_invD(11) [OF sched] Releasing Cons by force
      then have "operation_of (h ! i) = operation_of (heap s ! i)" if "i < length h0" for i
        using decInDegree_nth(4) [OF h(1), of i] that len by simp
      then show ?thesis using h(2) by (auto intro!: quiet [OF Releasing])
    qed
  next
    case (Committing n runnable)
    have "rob s \<noteq> None" using order_invD(5) [OF inv] by (auto simp: rob_rel_def)
    with Committing step order_inv_lock [OF inv dom w Committing] show ?thesis
      by (cases b) (auto split: option.splits if_splits)
  next
    case (Flushing runnable)
    with step order_inv_flushed [OF inv w Flushing] order_inv_take [OF inv w Flushing] show ?thesis
      by (cases b) (auto split: option.splits prod.splits)
  next
    case (Sending op runnable)
    with step order_inv_send [OF inv w Sending] order_inv_abort [OF inv w Sending] show ?thesis
      by (cases b) (auto split: option.splits if_splits)
  next
    case (Dispatch rs)
    then show ?thesis using step
      by (cases rs; cases b) (auto simp: Let_def split: if_splits intro!: quiet [OF Dispatch])
  next
    case Exited
    with step show ?thesis by (cases b) auto
  qed
qed

lemma order_inv_step:
  assumes "order_inv h0 s" "sched_inv h0 s" "pool_step storage e s = Some s'"
  shows "order_inv h0 s' \<or> panicked s'"
proof (cases e)
  case (Worker w b)
  then show ?thesis
    using assms order_inv_worker [OF assms(1,2), of w storage b s'] by (simp split: if_splits)
next
  case (Consumer b)
  then show ?thesis using assms(3)
    by (auto simp: consumer_step_def split: if_splits branch.splits option.splits
        intro!: order_inv_env [OF assms(1)])
next
  case (Cancel c)
  have "drain s \<noteq> DrainAborted" if "ctx s = None"
    using order_invD(5) [OF assms(1)] that unfolding rob_rel_def by blast
  with Cancel show ?thesis using assms(3)
    by (auto split: if_splits intro!: order_inv_env [OF assms(1)])
qed

lemma order_inv_start:
  assumes "fresh_dag h0 initial" "\<And>i. i < length h0 \<Longrightarrow> SeqID (h0 ! i) = of_nat i"
  shows "order_inv h0 (Run_start nw h0 initial st (Some (Drain NewInOrderReorderBuffer (int (length h0)))) c)"
    (is "order_inv h0 ?s")
proof -
  have "length h0 \<le> 2 ^ 63" using assms(1) dag_okD(1) unfolding fresh_dag_def by blast
  then have "rob_rel (ops_of ?s) (length h0) (committed ?s) 0 {} ?s"
    using rob_inv_init [of "length h0"] by (auto simp: rob_rel_def committed_def)
  moreover have "unpub ?s i = 0" for i unfolding unpub_def by (rule wsum_start) simp
  moreover have "lock_inv (workers ?s) (mu ?s)" by (auto simp: lock_inv_def)
  ultimately show ?thesis using assms(2) unfolding order_inv_def by auto
qed

section \<open>Reachable states\<close>

definition pool_inv :: "'v heap \<Rightarrow> ('s, 'v) pool \<Rightarrow> bool" where
  "pool_inv h0 s \<longleftrightarrow> dag_ok h0 \<and> sched_inv h0 s \<and> order_inv h0 s"

lemma pool_inv_step:
  assumes "pool_inv h0 s" "pool_step storage e s = Some s'"
  shows "pool_inv h0 s'"
proof -
  have inv: "dag_ok h0" "sched_inv h0 s" "order_inv h0 s" using assms(1) by (simp_all add: pool_inv_def)
  have "sched_inv h0 s'"
    using sched_inv_step [OF inv(2,1) order_inv_send_safe [OF inv(3)] assms(2)] .
  moreover then have "\<not> panicked s'" by (rule sched_invD(12))
  then have "order_inv h0 s'" using order_inv_step [OF inv(3,2) assms(2)] by blast
  ultimately show ?thesis using inv(1) by (simp add: pool_inv_def)
qed

lemma pool_inv_reach: "pool_reach storage s0 s \<Longrightarrow> pool_inv h0 s0 \<Longrightarrow> pool_inv h0 s"
  by (induction rule: pool_reach.induct) (auto intro: pool_inv_step)

end
