(* ===== verification/Pool_Serial.thy ===== *)
theory Pool_Serial
  imports Pool_Order
begin

text \<open>
  Out-of-order execution is invisible: as long as the context is live, every executed
  operation has the result it has when the batch runs sequentially, and for every key the
  store holds what the sequential run would have left there.  The argument needs the
  ordering law of the resolver (conflicting operations are connected by a path) and the
  locality laws of the storage engine, so it is done once, in the locale \<open>khaos_engine\<close>
  that combines the two interfaces.
\<close>

section \<open>The sequential reference\<close>

text \<open>The batch in sequence order against one store, as the reference of the integration test.\<close>

fun runSequential ::
  "('s, 'v) StorageEngine \<Rightarrow> 's \<Rightarrow> 'v Operation list \<Rightarrow> 's \<times> 'v Operation list" where
  "runSequential eng s [] = (s, [])"
| "runSequential eng s (op # ops) =
     (case executeNode eng None s op of (s', op') \<Rightarrow>
        (case runSequential eng s' ops of (s'', ops') \<Rightarrow> (s'', op' # ops')))"

fun seq_state :: "('s, 'v) StorageEngine \<Rightarrow> 's \<Rightarrow> 'v Operation list \<Rightarrow> nat \<Rightarrow> 's" where
  "seq_state eng s ops 0 = s"
| "seq_state eng s ops (Suc i) = fst (executeNode eng None (seq_state eng s ops i) (ops ! i))"

definition seq_op :: "('s, 'v) StorageEngine \<Rightarrow> 's \<Rightarrow> 'v Operation list \<Rightarrow> nat \<Rightarrow> 'v Operation" where
  "seq_op eng s ops i = snd (executeNode eng None (seq_state eng s ops i) (ops ! i))"

lemma seq_state_Cons:
  "seq_state eng s (op # ops) (Suc i) = seq_state eng (fst (executeNode eng None s op)) ops i"
  by (induction i) simp_all

lemma runSequential_eq:
  "runSequential eng s ops = (seq_state eng s ops (length ops), map (seq_op eng s ops) [0..<length ops])"
proof (induction ops arbitrary: s)
  case (Cons op ops)
  obtain s' op' where ex: "executeNode eng None s op = (s', op')" by (cases "executeNode eng None s op")
  have "seq_op eng s (op # ops) (Suc i) = seq_op eng s' ops i" for i
    unfolding seq_op_def seq_state_Cons ex by simp
  then have "map (seq_op eng s (op # ops)) [0..<length (op # ops)] = op' # map (seq_op eng s' ops) [0..<length ops]"
    using ex by (simp add: upt_conv_Cons seq_op_def map_Suc_upt [symmetric] comp_def del: upt_Suc)
  then show ?case using Cons.IH [of s'] ex seq_state_Cons [of eng s op ops "length ops"] by simp
qed simp

lemma operation_of_result [simp]:
  "operation_of (node\<lparr>Err := e\<rparr>) = (operation_of node)\<lparr>Err := e\<rparr>"
  "operation_of (node\<lparr>Result := v\<rparr>) = (operation_of node)\<lparr>Result := v\<rparr>"
  by (simp_all add: operation_of_def Operation.truncate_def)

lemma executeNode_operation_of:
  "executeNode eng c s (operation_of node) =
     (fst (executeNode eng c s node), operation_of (snd (executeNode eng c s node)))"
  unfolding executeNode_def operation_of_simps
  by (auto split: prod.split option.split)

section \<open>Sequential and concurrent state\<close>

definition preds_executed :: "'v heap \<Rightarrow> ptr set \<Rightarrow> bool" where
  "preds_executed h0 E \<longleftrightarrow> (\<forall>i \<in> E. \<forall>p. dag_edge h0 p i \<longrightarrow> p \<in> E)"

lemma preds_executed_trancl:
  assumes "preds_executed h0 E" "(dag_edge h0)\<^sup>+\<^sup>+ p i" "i \<in> E"
  shows "p \<in> E"
  using assms(2,3) by (induction rule: converse_tranclp_induct)
    (use assms(1) in \<open>auto simp: preds_executed_def\<close>)

lemma pend_zero_preds:
  assumes "pend h0 s n = 0" "dag_edge h0 p n"
  shows "p \<in> set (executed s)"
proof (rule ccontr)
  assume p: "p \<notin> set (executed s)"
  have lt: "p < length h0" and cnt: "0 < count_list (dependents (h0 ! p)) n"
    using assms(2) by (auto simp: dag_edge_def Dependents_def count_list_pos_iff split: if_splits)
  have "(\<Sum>i < length h0. if i \<in> set (executed s) then 0 else count_list (dependents (h0 ! i)) n) = 0"
    using assms(1) unfolding pend_def by linarith
  then have "(if p \<in> set (executed s) then 0 else count_list (dependents (h0 ! p)) n) = 0"
    unfolding sum_eq_0_iff [OF finite_lessThan] using lt by (auto dest: bspec [of _ _ p])
  with p cnt show False by simp
qed

text \<open>
  \<open>views_agree\<close>: a key whose writers before \<open>m\<close>, and no others, have been executed holds
  what it holds after \<open>m\<close> operations of the sequential run.
\<close>

definition norm_op :: "('v any \<Rightarrow> 'v any) \<Rightarrow> 'v Operation \<Rightarrow> 'v Operation" where
  "norm_op norm op = op\<lparr>Result := norm (Result op)\<rparr>"

lemma norm_op_id [simp]: "norm_op id = id"
  by (simp add: fun_eq_iff norm_op_def)

lemma norm_op_simps [simp]:
  "SeqID (norm_op norm op) = SeqID op" "Key (norm_op norm op) = Key op" "Type (norm_op norm op) = Type op"
  "Err (norm_op norm op) = Err op"
  by (simp_all add: norm_op_def)

definition views_agree ::
  "('s, 'v) StorageEngine \<Rightarrow> ('s \<Rightarrow> string \<Rightarrow> 'c) \<Rightarrow> string set \<Rightarrow> 's \<Rightarrow> 'v Operation list \<Rightarrow> ptr set \<Rightarrow> 's \<Rightarrow> bool" where
  "views_agree eng view keys s0 ops E st \<longleftrightarrow>
     (\<forall>m. \<forall>k \<in> keys. m \<le> length ops \<longrightarrow> (\<forall>i < m. writer ops k i \<longrightarrow> i \<in> E) \<longrightarrow>
        (\<forall>i. m \<le> i \<and> i < length ops \<and> writer ops k i \<longrightarrow> i \<notin> E) \<longrightarrow>
        view st k = view (seq_state eng s0 ops m) k)"

definition serial_inv ::
  "('s, 'v) StorageEngine \<Rightarrow> ('s \<Rightarrow> bool) \<Rightarrow> ('s \<Rightarrow> string \<Rightarrow> 'c) \<Rightarrow> string set \<Rightarrow> ('v any \<Rightarrow> 'v any)
     \<Rightarrow> 's \<Rightarrow> 'v Operation list \<Rightarrow> 'v heap \<Rightarrow> ('s, 'v) pool \<Rightarrow> bool" where
  "serial_inv eng invar view keys norm s0 ops h0 s \<longleftrightarrow>
     invar (store s) \<and> preds_executed h0 (set (executed s))
     \<and> (\<forall>i < length ops. if i \<in> set (executed s)
          then norm_op norm (operation_of (heap s ! i)) = norm_op norm (seq_op eng s0 ops i)
          else operation_of (heap s ! i) = ops ! i)
     \<and> views_agree eng view keys s0 ops (set (executed s)) (store s)"

text \<open>Only an \<open>Execute\<close> step touches the store, the results or the history.\<close>

lemma pool_step_quiet:
  assumes inv: "pool_inv h0 s" and step: "pool_step eng e s = Some s'"
    and quiet: "\<And>w n. e = Worker w Proceed \<Longrightarrow> w < length (workers s) \<Longrightarrow> workers s ! w \<noteq> Execute n"
  shows "store s' = store s \<and> executed s' = executed s
    \<and> (\<forall>i < length h0. operation_of (heap s' ! i) = operation_of (heap s ! i) \<and> state (heap s' ! i) = state (heap s ! i))"
proof (cases e)
  case (Consumer b)
  then show ?thesis using step
    by (auto simp: consumer_step_def split: if_splits branch.splits option.splits)
next
  case (Cancel c)
  then show ?thesis using step by (auto split: if_splits)
next
  case (Worker w b)
  then have w: "w < length (workers s)" and ws: "worker_step eng w b (workers s ! w) s = Some s'"
    using step by (simp_all split: if_splits)
  have sched: "sched_inv h0 s" using inv by (simp add: pool_inv_def)
  note len = sched_invD(1) [OF sched]
  show ?thesis
  proof (cases "workers s ! w")
    case (Execute n)
    then show ?thesis using quiet [of w n] ws w Worker by (cases b) simp_all
  next
    case (Releasing n ds runnable)
    have dom: "set ds \<subseteq> {..<length h0}"
      using sched_invD(11) [OF sched nth_mem [OF w]] Releasing by simp
    show ?thesis
    proof (cases ds)
      case Nil
      have "1 \<le> wsum (\<lambda>p. count_list (releasing p) n) (workers s)"
        using wsum_update(2) [OF w Releasing, of "\<lambda>p. count_list (releasing p) n"] by simp
      then have "n \<in> set (executed s)"
        unfolding sched_invD(9) [OF sched, of n] by (rule contrapos_pp) simp
      then have n: "n < length (heap s)" using tick_parts(2) [OF sched] len by (auto dest: subsetD)
      obtain h where h: "closeDone (heap s) n = Some h"
        using sched_inv_close_done [OF sched w Releasing [unfolded Nil]] by blast
      have "b = Proceed" using ws Releasing Nil by (cases b) simp_all
      then have "s' = goto w (Committing n runnable) (s\<lparr>heap := h\<rparr>)" using ws Releasing Nil h by simp
      then show ?thesis using closeDone_nth(4,6) [OF h n] len by simp
    next
      case (Cons d ds')
      obtain h z where h: "decInDegree (heap s) d = (h, z)" by (cases "decInDegree (heap s) d")
      have "b = Proceed" using ws Releasing Cons by (cases b) simp_all
      then have "s' = goto w (Releasing n ds' (if z then runnable @ [d] else runnable)) (s\<lparr>heap := h\<rparr>)"
        using ws Releasing Cons h by simp
      then show ?thesis using decInDegree_nth(4,6) [OF h] dom Cons len by simp
    qed
  next
    case (Dispatch rs)
    then show ?thesis using ws by (cases rs; cases b) (auto simp: Let_def split: if_splits)
  qed (use ws in \<open>cases b; auto split: list.splits option.splits prod.splits if_splits\<close>)+
qed

lemma pool_step_exec:
  assumes step: "pool_step eng (Worker w Proceed) s = Some s'"
    and w: "w < length (workers s)" "workers s ! w = Execute n"
  obtains st node where "executeNode eng (ctx s) (store s) (heap s ! n) = (st, node)"
    "store s' = st" "heap s' = (heap s)[n := node]" "executed s' = executed s @ [n]" "ctx s' = ctx s"
  using step w by (auto split: if_splits prod.splits)

lemma worker_step_ctx:
  assumes "worker_step eng w b p s = Some s'"
  shows "ctx s' = ctx s" "drain s' = drain s" "length (workers s') = length (workers s)"
    "workCh_cap s' = workCh_cap s"
  using assms
  by (cases "(eng, w, b, p, s)" rule: worker_step.cases;
      auto simp: Let_def split: list.splits option.splits prod.splits if_splits)+

lemma pool_step_workers: "pool_step eng e s = Some s' \<Longrightarrow> length (workers s') = length (workers s)"
  by (cases e) (auto simp: consumer_step_def worker_step_ctx(3) split: if_splits branch.splits option.splits)

lemma pool_step_ctx: "pool_step eng e s = Some s' \<Longrightarrow> ctx s' = None \<Longrightarrow> ctx s = None"
  by (cases e) (auto simp: consumer_step_def worker_step_ctx
      split: if_splits branch.splits option.splits)

context hazard_resolver
begin

lemma build_pool_inv:
  assumes b: "build ops = Inr (h0, all_nodes, runnable)"
  shows "pool_inv h0 (Run_start nw h0 runnable st (Some (Drain NewInOrderReorderBuffer (int (length ops)))) c)"
proof -
  note fresh = build_fresh_dag [OF b]
  have "SeqID (h0 ! i) = of_nat i" if "i < length h0" for i
    using build_fresh [OF b, of i] build_nodes [OF b] that by (metis operation_of_simps(1))
  from order_inv_start [OF fresh this, of nw st c] build_nodes [OF b]
  show ?thesis using sched_inv_start [OF fresh] build_dag_ok [OF b] unfolding pool_inv_def by simp
qed

end

definition batch_keys :: "string set \<Rightarrow> 'v Operation list \<Rightarrow> bool" where
  "batch_keys keys ops \<longleftrightarrow> (\<forall>i < length ops. Key (ops ! i) \<in> keys)"

lemma batch_keys_UNIV [simp]: "batch_keys UNIV ops"
  by (simp add: batch_keys_def)

locale khaos_engine = hazard_resolver build + keyed_storage eng invar view keys norm
  for build :: "'v Operation list \<Rightarrow> error + ('v heap \<times> ptr list \<times> ptr list)"
    and eng :: "('s, 'v) StorageEngine"
    and invar :: "'s \<Rightarrow> bool"
    and view :: "'s \<Rightarrow> string \<Rightarrow> 'c"
    and keys :: "string set"
    and norm :: "'v any \<Rightarrow> 'v any"
begin

lemma exec_frame:
  assumes inv: "invar s" and key: "Key op \<in> keys"
  shows "invar (fst (executeNode eng None s op))
    \<and> (\<forall>k \<in> keys. k \<noteq> Key op \<or> \<not> writes (Type op) \<longrightarrow> view (fst (executeNode eng None s op)) k = view s k)"
proof -
  obtain sg v f eg where get: "se_Get eng None (Key op) s = (sg, v, f, eg)" by (metis surj_pair)
  obtain ss es where set: "se_Set eng None (Key op) (Value op) s = (ss, es)" by (metis surj_pair)
  obtain sd ed where del: "se_Delete eng None (Key op) s = (sd, ed)" by (metis surj_pair)
  note frames = get_frame [OF inv key get] set_frame [OF inv key set] delete_frame [OF inv key del]
  consider "Type op = OpRead" | "Type op = OpWrite" | "Type op = OpDelete"
    | "Type op \<noteq> OpRead" "Type op \<noteq> OpWrite" "Type op \<noteq> OpDelete" by blast
  then show ?thesis
  proof cases
    case 1
    then show ?thesis using frames by (simp add: executeNode_def get split: option.split)
  next
    case 2
    then show ?thesis using frames by (simp add: executeNode_def set split: option.split)
  next
    case 3
    then show ?thesis using frames by (simp add: executeNode_def del split: option.split)
  next
    case 4
    then show ?thesis using inv by (simp add: executeNode_def)
  qed
qed

lemma exec_local:
  assumes inv: "invar s" "invar t" and key: "Key op \<in> keys" and view: "view s (Key op) = view t (Key op)"
  shows "norm_op norm (snd (executeNode eng None s op)) = norm_op norm (snd (executeNode eng None t op))
    \<and> view (fst (executeNode eng None s op)) (Key op) = view (fst (executeNode eng None t op)) (Key op)"
proof -
  obtain sg vs f e where get: "se_Get eng None (Key op) s = (sg, vs, f, e)" by (metis surj_pair)
  obtain tg vt where getT: "se_Get eng None (Key op) t = (tg, vt, f, e)" "norm vs = norm vt"
    using get_local [OF inv key view] get by (cases "se_Get eng None (Key op) t") auto
  have views: "view sg (Key op) = view tg (Key op)"
    using get_frame [OF inv(1) key get] get_frame [OF inv(2) key getT(1)] view key by simp
  obtain ss es where set: "se_Set eng None (Key op) (Value op) s = (ss, es)" by (metis surj_pair)
  obtain ts where setT: "se_Set eng None (Key op) (Value op) t = (ts, es)" "view ss (Key op) = view ts (Key op)"
    using set_local [OF inv key view, of "Value op"] set by (metis prod.collapse fst_conv snd_conv)
  obtain sd ed where del: "se_Delete eng None (Key op) s = (sd, ed)" by (metis surj_pair)
  obtain td where delT: "se_Delete eng None (Key op) t = (td, ed)" "view sd (Key op) = view td (Key op)"
    using delete_local [OF inv key view] del by (metis prod.collapse fst_conv snd_conv)
  show ?thesis
    by (simp add: executeNode_def norm_op_def get getT set setT del delT views view split: option.split)
qed

lemma seq_state_invar:
  assumes "invar s0" "batch_keys keys ops" "i \<le> length ops"
  shows "invar (seq_state eng s0 ops i)"
  using assms(3) by (induction i) (use assms(1,2) in \<open>simp_all add: exec_frame batch_keys_def\<close>)

text \<open>Operations that do not write the key leave its view along the sequential run.\<close>

lemma seq_state_skip:
  assumes "invar s0" "batch_keys keys ops" "k \<in> keys" "m' \<le> length ops" "m \<le> m'"
    and "\<And>i. m \<le> i \<Longrightarrow> i < m' \<Longrightarrow> \<not> writer ops k i"
  shows "view (seq_state eng s0 ops m') k = view (seq_state eng s0 ops m) k"
  using assms(5,4,6)
proof (induction m' rule: dec_induct)
  case (step i)
  have "\<not> writer ops k i" using step by simp
  then have "view (seq_state eng s0 ops (Suc i)) k = view (seq_state eng s0 ops i) k"
    using exec_frame [OF seq_state_invar [OF assms(1,2)], of i "ops ! i"] step.prems(1) assms(2,3)
    by (auto simp: writer_def batch_keys_def)
  with step show ?case by simp
qed simp

text \<open>
  A node executes after every operation it conflicts with and that precedes it, and
  before every one that follows it, so it sees the value of the sequential run.
\<close>

lemma views_agree_exec:
  assumes inv: "invar s0" "invar st" and bk: "batch_keys keys ops" and n: "n < length ops" "n \<notin> E"
    and agree: "views_agree eng view keys s0 ops E st"
    and before: "\<And>i. i < n \<Longrightarrow> conflict (ops ! i) (ops ! n) \<Longrightarrow> i \<in> E"
    and after: "\<And>i. n < i \<Longrightarrow> i < length ops \<Longrightarrow> conflict (ops ! n) (ops ! i) \<Longrightarrow> i \<notin> E"
  shows "norm_op norm (snd (executeNode eng None st (ops ! n))) = norm_op norm (seq_op eng s0 ops n)"
    and "views_agree eng view keys s0 ops (insert n E) (fst (executeNode eng None st (ops ! n)))"
proof -
  let ?k = "Key (ops ! n)" and ?st = "fst (executeNode eng None st (ops ! n))"
  have key: "?k \<in> keys" using bk n(1) by (simp add: batch_keys_def)
  have same: "view st ?k = view (seq_state eng s0 ops n) ?k"
  proof -
    have "\<forall>i < n. writer ops ?k i \<longrightarrow> i \<in> E"
      using before by (auto simp: writer_def conflict_def)
    moreover have "i \<notin> E" if "n \<le> i" "i < length ops" "writer ops ?k i" for i
      using after [of i] n(2) that by (cases "i = n") (auto simp: writer_def conflict_def)
    ultimately show ?thesis using agree n(1) key unfolding views_agree_def by auto
  qed
  have "invar (seq_state eng s0 ops n)" using seq_state_invar [OF inv(1) bk] n(1) by simp
  note loc = exec_local [OF inv(2) this key same]
  then show "norm_op norm (snd (executeNode eng None st (ops ! n))) = norm_op norm (seq_op eng s0 ops n)"
    by (simp add: seq_op_def)
  have "view ?st k = view (seq_state eng s0 ops m) k"
    if k: "k \<in> keys" and m: "m \<le> length ops" "\<forall>i < m. writer ops k i \<longrightarrow> i \<in> insert n E"
      "\<forall>i. m \<le> i \<and> i < length ops \<and> writer ops k i \<longrightarrow> i \<notin> insert n E" for m k
  proof (cases "writer ops k n")
    case False
    then have "view ?st k = view st k" using exec_frame [OF inv(2) key] k by (auto simp: writer_def)
    moreover have "\<forall>i < m. writer ops k i \<longrightarrow> i \<in> E" using m(2) False by auto
    ultimately show ?thesis using agree m(1,3) k unfolding views_agree_def by auto
  next
    case True
    then have eq: "k = ?k" "writes (Type (ops ! n))" by (auto simp: writer_def)
    have "n < m" using True m(3) n(1) by (meson insertI1 not_less)
    moreover have "\<not> writer ops k i" if "Suc n \<le> i" "i < m" for i
      using after [of i] m(1,2) that eq by (auto simp: writer_def conflict_def)
    ultimately have "view (seq_state eng s0 ops m) k = view (seq_state eng s0 ops (Suc n)) k"
      using m(1) k by (intro seq_state_skip [OF inv(1) bk]) simp_all
    with loc eq show ?thesis by simp
  qed
  then show "views_agree eng view keys s0 ops (insert n E) ?st" unfolding views_agree_def by blast
qed

lemma serial_inv_exec:
  assumes b: "build ops = Inr (h0, all_nodes, runnable)" and s0: "invar s0" and bk: "batch_keys keys ops"
    and sched: "sched_inv h0 s" and ser: "serial_inv eng invar view keys norm s0 ops h0 s"
    and w: "w < length (workers s)" "workers s ! w = Execute n" and live: "ctx s = None"
    and step: "pool_step eng (Worker w Proceed) s = Some s'"
  shows "serial_inv eng invar view keys norm s0 ops h0 s'"
proof -
  obtain st node where ex: "executeNode eng None (store s) (heap s ! n) = (st, node)"
    and s': "store s' = st" "heap s' = (heap s)[n := node]" "executed s' = executed s @ [n]"
    using pool_step_exec [OF step w] live by metis
  have len: "length h0 = length ops" "length (heap s) = length ops"
    using build_nodes [OF b] sched_invD(1) [OF sched] by simp_all
  note ready = execute_ready [OF sched w, unfolded len]
  let ?E = "set (executed s)"
  have inv: "invar (store s)" "preds_executed h0 ?E" "views_agree eng view keys s0 ops ?E (store s)"
    and res: "\<And>i. i < length ops \<Longrightarrow> if i \<in> ?E
        then norm_op norm (operation_of (heap s ! i)) = norm_op norm (seq_op eng s0 ops i)
        else operation_of (heap s ! i) = ops ! i"
    using ser unfolding serial_inv_def by blast+
  have op: "executeNode eng None (store s) (ops ! n) = (st, operation_of node)"
    using executeNode_operation_of [of eng None "store s" "heap s ! n"] ex res [OF ready(1)] ready(2) by simp
  have preds: "preds_executed h0 (insert n ?E)"
    using inv(2) pend_zero_preds [OF ready(3)] unfolding preds_executed_def by blast
  have before: "i \<in> ?E" if "i < n" "conflict (ops ! i) (ops ! n)" for i
    using preds_executed_trancl [OF preds build_orders [OF b that(1) ready(1) that(2)]] that(1) by simp
  have after: "i \<notin> ?E" if "n < i" "i < length ops" "conflict (ops ! n) (ops ! i)" for i
    using preds_executed_trancl [OF inv(2) build_orders [OF b that]] ready(2) by blast
  note exec = views_agree_exec [OF s0 inv(1) bk ready(1,2) inv(3) before after, unfolded op fst_conv snd_conv]
  have "invar st" using exec_frame [OF inv(1), of "ops ! n"] op bk ready(1) by (simp add: batch_keys_def)
  moreover have "if i \<in> insert n ?E
      then norm_op norm (operation_of (heap s' ! i)) = norm_op norm (seq_op eng s0 ops i)
      else operation_of (heap s' ! i) = ops ! i" if "i < length ops" for i
    using res [OF that] exec(1) len that by (cases "i = n") (simp_all add: s'(2))
  moreover have "set (executed s') = insert n ?E" by (simp add: s'(3))
  ultimately show ?thesis using exec(2) preds unfolding serial_inv_def s'(1) by presburger
qed

lemma serial_inv_step:
  assumes b: "build ops = Inr (h0, all_nodes, runnable)" and s0: "invar s0" and bk: "batch_keys keys ops"
    and inv: "pool_inv h0 s" and ser: "serial_inv eng invar view keys norm s0 ops h0 s" and live: "ctx s = None"
    and step: "pool_step eng e s = Some s'"
  shows "serial_inv eng invar view keys norm s0 ops h0 s'"
proof (cases "\<exists>w n. e = Worker w Proceed \<and> w < length (workers s) \<and> workers s ! w = Execute n")
  case True
  then show ?thesis using serial_inv_exec [OF b s0 bk _ ser _ _ live] inv step by (auto simp: pool_inv_def)
next
  case False
  with pool_step_quiet [OF inv step] ser build_nodes [OF b] show ?thesis by (simp add: serial_inv_def)
qed

lemma serial_inv_start:
  assumes b: "build ops = Inr (h0, all_nodes, runnable)" and s0: "invar s0" and bk: "batch_keys keys ops"
  shows "serial_inv eng invar view keys norm s0 ops h0 (Run_start nw h0 runnable s0 rb c)"
proof -
  have "view s0 k = view (seq_state eng s0 ops m) k"
    if "\<forall>i < m. \<not> writer ops k i" "k \<in> keys" "m \<le> length ops" for m k
    using seq_state_skip [OF s0 bk that(2,3), of 0] that(1) by simp
  then show ?thesis
    using s0 build_fresh [OF b] by (auto simp: serial_inv_def views_agree_def preds_executed_def)
qed

lemma serial_inv_reach:
  assumes b: "build ops = Inr (h0, all_nodes, runnable)" and s0: "invar s0" and bk: "batch_keys keys ops"
    and reach: "pool_reach eng (Run_start nw h0 runnable s0 rb None) s"
    and rb: "rb = Some (Drain NewInOrderReorderBuffer (int (length ops)))"
  shows "pool_inv h0 s \<and> (ctx s = None \<longrightarrow> serial_inv eng invar view keys norm s0 ops h0 s)"
  using reach
proof (induction rule: pool_reach.induct)
  case start
  show ?case
    using build_pool_inv [OF b] serial_inv_start [OF b s0 bk] rb by simp
next
  case (step s e s')
  then have inv: "pool_inv h0 s" by blast
  show ?case
  proof (intro conjI impI)
    show "pool_inv h0 s'" using pool_inv_step [OF inv step.hyps(2)] .
    assume "ctx s' = None"
    then have live: "ctx s = None" using pool_step_ctx [OF step.hyps(2)] by simp
    then have ser: "serial_inv eng invar view keys norm s0 ops h0 s" using step.IH by simp
    show "serial_inv eng invar view keys norm s0 ops h0 s'"
      by (rule serial_inv_step [OF b s0 bk inv ser live step.hyps(2)])
  qed
qed

lemma serial_results:
  assumes "serial_inv eng invar view keys norm s0 ops h0 s" "pool_inv h0 s" "length h0 = length ops"
  shows "\<exists>m \<le> length ops.
      map (norm_op norm) (received s) = map (norm_op norm) (take m (snd (runSequential eng s0 ops)))
      \<and> (drain s = DrainClosed \<longrightarrow> m = length ops)"
    and "length (executed s) = length ops \<Longrightarrow> k \<in> keys \<Longrightarrow> view (store s) k = view (fst (runSequential eng s0 ops)) k"
proof -
  have res: "norm_op norm (ops_of s i) = norm_op norm (seq_op eng s0 ops i)"
    if "i \<in> set (executed s)" "i < length ops" for i
    using assms(1) that unfolding serial_inv_def by metis
  from assms(2) obtain m P where rel: "rob_rel (ops_of s) (length h0) (committed s) m P s"
    unfolding pool_inv_def order_inv_def by blast
  then have m: "{..<m} \<subseteq> committed s" "committed s \<subseteq> {..<length ops}"
    "received s = map (ops_of s) [0..<m]" "drain s = DrainClosed \<longrightarrow> m = length ops"
    using assms(3) unfolding rob_rel_def by auto
  then have le: "m \<le> length ops" by (metis lessThan_subset_iff order.trans)
  have "i \<in> set (executed s)" if "i < m" for i using m(1) that unfolding committed_def by blast
  then have "map (norm_op norm) (received s) = map (\<lambda>i. norm_op norm (seq_op eng s0 ops i)) [0..<m]"
    using res le m(3) by simp
  then have "map (norm_op norm) (received s) = map (norm_op norm) (take m (snd (runSequential eng s0 ops)))"
    using le by (simp add: runSequential_eq take_map take_upt)
  with le m(4) show "\<exists>m \<le> length ops.
      map (norm_op norm) (received s) = map (norm_op norm) (take m (snd (runSequential eng s0 ops)))
      \<and> (drain s = DrainClosed \<longrightarrow> m = length ops)" by blast
  assume full: "length (executed s) = length ops" and k: "k \<in> keys"
  have sched: "sched_inv h0 s" using assms(2) by (simp add: pool_inv_def)
  have "set (executed s) = {..<length ops}"
    using tick_parts(1,2) [OF sched] full assms(3) by (intro card_subset_eq) (simp_all add: distinct_card)
  moreover have "views_agree eng view keys s0 ops (set (executed s)) (store s)"
    using assms(1) by (simp add: serial_inv_def)
  ultimately show "view (store s) k = view (fst (runSequential eng s0 ops)) k"
    using k unfolding views_agree_def runSequential_eq by simp
qed

text \<open>
  What an uncancelled run of a whole batch ends with: the results and the store of the
  sequential run, up to \<open>norm\<close> and for the keys of the batch.
\<close>

lemma serial_final:
  assumes b: "build ops = Inr (h0, all_nodes, runnable)" and s0: "invar s0" and bk: "batch_keys keys ops"
    and reach: "pool_reach eng (Run_start nw h0 runnable s0 (Some (Drain NewInOrderReorderBuffer (int (length ops)))) None) s"
    and live: "ctx s = None"
  shows "drain s = DrainClosed \<Longrightarrow>
      map (norm_op norm) (received s) = map (norm_op norm) (snd (runSequential eng s0 ops))"
    and "length (executed s) = length ops \<Longrightarrow> k \<in> keys \<Longrightarrow> view (store s) k = view (fst (runSequential eng s0 ops)) k"
    and "\<exists>m \<le> length ops. map (norm_op norm) (received s) = map (norm_op norm) (take m (snd (runSequential eng s0 ops)))"
proof -
  have inv: "pool_inv h0 s" "serial_inv eng invar view keys norm s0 ops h0 s"
    using serial_inv_reach [OF b s0 bk reach refl] live by blast+
  have len: "length h0 = length ops" using build_nodes [OF b] by simp
  note res = serial_results [OF inv(2,1) len]
  obtain m where m: "m \<le> length ops" "drain s = DrainClosed \<longrightarrow> m = length ops"
    "map (norm_op norm) (received s) = map (norm_op norm) (take m (snd (runSequential eng s0 ops)))"
    using res(1) by blast
  have "length (snd (runSequential eng s0 ops)) = length ops" by (simp add: runSequential_eq)
  with m show "drain s = DrainClosed \<Longrightarrow>
      map (norm_op norm) (received s) = map (norm_op norm) (snd (runSequential eng s0 ops))" by simp
  show "length (executed s) = length ops \<Longrightarrow> k \<in> keys \<Longrightarrow> view (store s) k = view (fst (runSequential eng s0 ops)) k"
    by (rule res(2))
  show "\<exists>m \<le> length ops. map (norm_op norm) (received s) = map (norm_op norm) (take m (snd (runSequential eng s0 ops)))"
    using m by blast
qed

end

section \<open>The program's own resolver and store\<close>

interpretation khaos: khaos_engine Build ShardedMap_engine sm_invar sm_view UNIV id
  by unfold_locales

end
