(* ===== verification/Pool_Live.thy ===== *)
theory Pool_Live
  imports Pool_Serial
begin

text \<open>
  Progress and termination of \<^verbatim>\<open>Run\<close>: every step of every schedule lowers a measure, and
  a state in which nothing is enabled is one in which every worker has returned and the
  consumer has left its loop.  Without cancellation all nodes have then been executed and
  the output channel is closed.
\<close>

section \<open>The measure\<close>

fun work :: "'v pc \<Rightarrow> nat" where
  "work Exited = 0"
| "work (Execute n) = 1"
| "work Select = 2"
| "work (Dispatch rs) = 3 + length rs"
| "work (Flushing rs) = 4 + length rs"
| "work (Sending op rs) = 5 + length rs"
| "work (Committing n rs) = 7 + length rs"
| "work (Releasing n ds rs) = 8 + 2 * length ds + length rs"

definition rob_work :: "'v InOrderReorderBuffer option \<Rightarrow> nat" where
  "rob_work r = (case r of None \<Rightarrow> 0 | Some rb \<Rightarrow> 2 * card (dom (pending rb)))"

definition node_work :: "'v heap \<Rightarrow> ptr set \<Rightarrow> nat" where
  "node_work h0 E = (\<Sum>i < length h0. if i \<in> E then 0 else 8 + 2 * length (dependents (h0 ! i)))"

definition fuel :: "'v heap \<Rightarrow> ('s, 'v) pool \<Rightarrow> nat" where
  "fuel h0 s = node_work h0 (set (executed s)) + wsum work (workers s) + rob_work (rob s)
     + (if drain s = Draining then 1 else 0) + (if ctx s = None then 1 else 0)"

lemma node_work_insert:
  assumes "n < length h0" "n \<notin> E"
  shows "node_work h0 E = node_work h0 (insert n E) + 8 + 2 * length (dependents (h0 ! n))"
proof -
  let ?c = "\<lambda>i. 8 + 2 * length (dependents (h0 ! i))"
  have "(if i \<in> E then 0 else ?c i) = (if i \<in> insert n E then 0 else ?c i) + (if i = n then ?c n else 0)" for i
    using assms(2) by auto
  then show ?thesis using assms(1) by (simp add: node_work_def sum.distrib)
qed

lemma card_dom_insert: "card (dom (m(k \<mapsto> v))) \<le> Suc (card (dom (m :: uint64 \<rightharpoonup> 'b)))"
  by (simp add: card_insert_if)

lemma rob_work_insert: "rob_work (Some (rob_insert rb op)) < 3 + rob_work (Some rb)"
  using card_dom_insert [of "pending rb" "SeqID op" op] by (simp add: rob_work_def rob_insert_def)

lemma rob_work_take:
  assumes "rob_take rb = Some (op, rb')"
  shows "rob_work (Some rb') + 2 \<le> rob_work (Some rb)"
  using rob_take_dom [OF assms] by (simp add: rob_work_def)

lemma rob_work_sent [simp]: "rob_work (Some (rob_sent rb)) = rob_work (Some rb)"
  by (simp add: rob_work_def)

lemma fuel_move:
  assumes "w < length (workers s)" "workers s ! w = p"
    and "workers s' = (workers s)[w := p']" "drain s' = drain s" "ctx s' = ctx s"
    and "node_work h0 (set (executed s')) + rob_work (rob s') + work p' <
      node_work h0 (set (executed s)) + rob_work (rob s) + work p"
  shows "fuel h0 s' < fuel h0 s"
  using wsum_update(1) [OF assms(1,2), of work p'] wsum_update(2) [OF assms(1,2), of work] assms(3-6)
  by (simp add: fuel_def)

lemma fuel_worker:
  assumes inv: "sched_inv h0 s" and w: "w < length (workers s)"
    and step: "worker_step eng w b (workers s ! w) s = Some s'" and ok: "\<not> panicked s'" "\<not> panicked s"
  shows "fuel h0 s' < fuel h0 s"
proof -
  note move = fuel_move [OF w refl]
  show ?thesis
  proof (cases "workers s ! w")
    case Select
    then show ?thesis using step
      by (cases b) (auto split: list.splits if_splits intro!: move)
  next
    case (Execute n)
    obtain st node where ex: "executeNode eng (ctx s) (store s) (heap s ! n) = (st, node)"
      by (cases "executeNode eng (ctx s) (store s) (heap s ! n)")
    note ready = execute_ready [OF inv w Execute]
    have "dependents node = dependents (h0 ! n)" using ex sched_invD(2) [OF inv ready(1)] by simp
    then show ?thesis using step ex node_work_insert [OF ready(1,2)] Execute
      by (cases b) (auto intro!: move)
  next
    case (Releasing n ds rs)
    then show ?thesis using step ok
      by (cases ds; cases b) (auto split: prod.splits option.splits intro!: move)
  next
    case (Committing n rs)
    then show ?thesis using step
      by (cases b) (auto simp: rob_work_insert split: option.splits if_splits intro!: move)
  next
    case (Flushing rs)
    then show ?thesis using step
      by (cases b) (auto split: option.splits prod.splits intro!: move dest!: rob_work_take)
  next
    case (Sending op rs)
    then show ?thesis using step ok
      by (cases b) (auto split: option.splits if_splits intro!: move)
  next
    case (Dispatch rs)
    then show ?thesis using step ok
      by (cases rs; cases b) (auto simp: Let_def split: if_splits intro!: move)
  qed (use step in \<open>cases b; simp\<close>)
qed

lemma fuel_step:
  assumes inv: "pool_inv h0 s" and step: "pool_step eng e s = Some s'"
  shows "fuel h0 s' < fuel h0 s"
proof (cases e)
  case (Worker w b)
  have "\<not> panicked s'" "\<not> panicked s" "sched_inv h0 s"
    using pool_inv_step [OF inv step] inv sched_invD(12) by (auto simp: pool_inv_def)
  with Worker step fuel_worker [of h0 s w eng b s'] show ?thesis by (simp split: if_splits)
next
  case (Consumer b)
  with step show ?thesis
    by (auto simp: consumer_step_def fuel_def split: if_splits branch.splits option.splits)
next
  case (Cancel c)
  with step show ?thesis by (auto simp: fuel_def split: if_splits)
qed

lemma fuel_run:
  "pool_run eng es s = Some s' \<Longrightarrow> pool_inv h0 s \<Longrightarrow> length es + fuel h0 s' \<le> fuel h0 s"
proof (induction es arbitrary: s)
  case (Cons e es)
  then obtain s1 where s1: "pool_step eng e s = Some s1" "pool_run eng es s1 = Some s'"
    by (auto split: option.splits)
  from Cons.IH [OF s1(2) pool_inv_step [OF Cons.prems(2) s1(1)]] fuel_step [OF Cons.prems(2) s1(1)]
  show ?case by simp
qed simp

lemma pool_run_reach:
  "pool_run eng es s = Some s' \<Longrightarrow> pool_reach eng s0 s \<Longrightarrow> pool_reach eng s0 s'"
  by (induction es arbitrary: s) (auto split: option.splits intro: pool_reach.step)

lemma pool_reach_run: "pool_reach eng s s' \<Longrightarrow> \<exists>es. pool_run eng es s = Some s'"
proof (induction rule: pool_reach.induct)
  case start
  show ?case by (rule exI [of _ "[]"]) simp
next
  case (step s1 e s2)
  then obtain es where "pool_run eng es s = Some s1" by blast
  moreover have "pool_run eng (es @ [e]) a = Some s2" if "pool_run eng es a = Some s1" for a
    using that step.hyps(2) by (induction es arbitrary: a) (auto split: option.splits)
  ultimately show ?case by blast
qed

section \<open>Progress\<close>

text \<open>
  A worker leaves its loop only because the queue is closed or the context ended; an
  empty batch starts no worker.
\<close>

definition exit_inv :: "('s, 'v) pool \<Rightarrow> bool" where
  "exit_inv s \<longleftrightarrow> (ctx s = None \<and> Exited \<in> set (workers s) \<longrightarrow> workCh_closed s)
     \<and> (workCh_cap s = 0 \<longrightarrow> workers s = [])"

lemma worker_step_open:
  assumes "worker_step eng w b p s = Some s'"
  shows "(workCh_closed s \<longrightarrow> workCh_closed s')
    \<and> (Exited \<in> set (workers s') \<longrightarrow> Exited \<in> set (workers s) \<or> workCh_closed s \<or> ctx s \<noteq> None)"
  using assms
  by (cases "(eng, w, b, p, s)" rule: worker_step.cases;
      auto simp: Let_def split: list.splits option.splits prod.splits if_splits
        dest!: set_update_subset_insert [THEN subsetD])

lemma exit_inv_step: "exit_inv s \<Longrightarrow> pool_step eng e s = Some s' \<Longrightarrow> exit_inv s'"
proof (cases e)
  case (Worker w b)
  assume inv: "exit_inv s" and "pool_step eng e s = Some s'"
  with Worker have step: "worker_step eng w b (workers s ! w) s = Some s'" by (simp split: if_splits)
  then show ?thesis using inv worker_step_open [OF step] worker_step_ctx [OF step] by (auto simp: exit_inv_def)
qed (auto simp: exit_inv_def consumer_step_def split: if_splits branch.splits option.splits)

lemma exit_inv_reach:
  "pool_reach eng (Run_start nw h0 initial st rb c) s \<Longrightarrow> exit_inv s"
  by (induction rule: pool_reach.induct) (auto simp: exit_inv_def [of "Run_start _ _ _ _ _ _"] intro: exit_inv_step)

text \<open>Where the workers can be when none of them has a step.\<close>

lemma quiescentD:
  assumes "quiescent eng s" "\<not> panicked s"
  shows "w < length (workers s) \<Longrightarrow> worker_step eng w b (workers s ! w) s = None"
    and "consumer_step b s = None"
proof -
  have "pool_step eng (Worker w b) s = None" "pool_step eng (Consumer b) s = None"
    using assms(1) unfolding quiescent_def by blast+
  then show "w < length (workers s) \<Longrightarrow> worker_step eng w b (workers s ! w) s = None"
    "consumer_step b s = None" using assms(2) by (simp_all split: if_splits)
qed

lemma quiescent_workers:
  assumes inv: "pool_inv h0 s" and quiet: "quiescent eng s" and w: "w < length (workers s)"
  shows "workers s ! w = Exited \<or> workers s ! w = Select \<and> workCh s = [] \<and> \<not> workCh_closed s \<and> ctx s = None"
proof -
  have sched: "sched_inv h0 s" and ord: "order_inv h0 s" and ok: "\<not> panicked s"
    using inv sched_invD(12) by (auto simp: pool_inv_def)
  note stuck = quiescentD(1) [OF quiet ok]
  obtain m P where rel: "rob_rel (ops_of s) (length h0) (committed s) m P s"
    using order_invD(5) [OF ord] by blast
  then obtain rb where rb: "rob s = Some rb" "rob_inv (ops_of s) (length h0) P m rb"
    unfolding rob_rel_def by blast
  have no_send: "workers s ! v \<noteq> Sending op rs" if v: "v < length (workers s)" for v op rs
  proof
    assume pc: "workers s ! v = Sending op rs"
    then have "m \<in> committed s" "committed s \<subseteq> {..<length h0}" using rel v unfolding rob_rel_def by blast+
    then have "m < length h0" by blast
    then have dr: "drain s \<noteq> DrainClosed" using rel unfolding rob_rel_def by blast
    have "drain s \<noteq> Draining"
      using stuck [OF v, of Proceed] pc rb(1) by (auto split: if_splits)
    then have "drain s = DrainAborted" using dr by (cases "drain s") simp_all
    then have "ctx s \<noteq> None" using rel unfolding rob_rel_def by blast
    moreover have "has_ctx rb" using rb(2) by (simp add: rob_inv_def)
    ultimately show False using stuck [OF v, of CtxDone] pc rb(1) by simp
  qed
  have no_flush: "workers s ! v \<noteq> Flushing rs" if v: "v < length (workers s)" for v rs
    using stuck [OF v, of Proceed] rb(1) by (auto split: option.splits prod.splits)
  have "\<not> holder (workers s ! v)" if "v < length (workers s)" for v
    using no_send [OF that] no_flush [OF that] by (metis holder.elims(2))
  then have free: "\<not> mu s" using order_invD(1) [OF ord] unfolding lock_inv_def by blast
  show ?thesis
  proof (cases "workers s ! w")
    case Select
    then show ?thesis
      using stuck [OF w, of Proceed] stuck [OF w, of ChanClosed] stuck [OF w, of CtxDone]
      by (simp split: list.splits if_splits)
  next
    case (Releasing n ds rs)
    then show ?thesis using stuck [OF w, of Proceed]
      by (cases ds) (auto split: prod.splits option.splits)
  next
    case (Committing n rs)
    then show ?thesis using stuck [OF w, of Proceed] rb(1) free by simp
  next
    case (Dispatch rs)
    then show ?thesis
      using stuck [OF w, of Proceed] dispatch_room [OF sched w]
      by (cases rs) (auto simp: Let_def split: if_splits)
  qed (use stuck [OF w, of Proceed] no_send [OF w] no_flush [OF w] in \<open>auto split: prod.splits\<close>)
qed

text \<open>If nothing is queued and no worker holds anything, everything has been executed.\<close>

lemma idle_all_executed:
  assumes sched: "sched_inv h0 s" and dag: "dag_ok h0"
    and idle: "workCh s = []" "\<And>p. p \<in> set (workers s) \<Longrightarrow> p = Select \<or> p = Exited"
  shows "length (executed s) = length h0" "set (executed s) = {..<length h0}"
proof -
  have w0: "wsum f (workers s) = 0" if "f Select = 0" "f Exited = 0" for f
    using idle(2) that by (auto simp: wsum_def sum_list_eq_0_iff)
  have "j \<in> set (executed s)" if "j < length h0" for j
    using that
  proof (induction j rule: less_induct)
    case (less j)
    have "(if i \<in> set (executed s) then 0 else count_list (dependents (h0 ! i)) j) = 0"
      if "i < length h0" for i
      using dag_okD(4) [OF dag that, of j] less that by (auto simp: count_list_0_iff)
    then have "pend h0 s j = 0" by (simp add: pend_def w0)
    then have "tick s j = 1" using sched_invD(3) [OF sched, of j] less.prems by simp
    then show ?case using idle(1) by (simp add: tick_def w0 count_list_pos_iff [symmetric])
  qed
  then show eq: "set (executed s) = {..<length h0}" using tick_parts(2) [OF sched] by blast
  then show "length (executed s) = length h0"
    using distinct_card [OF tick_parts(1) [OF sched]] by simp
qed

lemma quiescent_exited:
  assumes inv: "pool_inv h0 s" and exit: "exit_inv s" and quiet: "quiescent eng s"
  shows "\<forall>p \<in> set (workers s). p = Exited"
proof (rule ccontr)
  assume "\<not> ?thesis"
  then obtain w where w: "w < length (workers s)" "workers s ! w \<noteq> Exited" by (metis in_set_conv_nth)
  note pcs = quiescent_workers [OF inv quiet]
  have sched: "sched_inv h0 s" and dag: "dag_ok h0" using inv by (simp_all add: pool_inv_def)
  have idle: "p = Select \<or> p = Exited" if "p \<in> set (workers s)" for p
    using pcs that by (metis in_set_conv_nth)
  then have "wsum busy (workers s) = 0" by (force simp: wsum_def sum_list_eq_0_iff)
  moreover have "length (executed s) = length h0"
    using idle_all_executed(1) [OF sched dag _ idle] pcs [OF w(1)] w(2) by blast
  moreover have "length h0 \<noteq> 0"
    using exit w(1) sched_invD(5) [OF sched] by (auto simp: exit_inv_def)
  ultimately have "workCh_closed s" using sched_invD(6) [OF sched] by simp
  with pcs [OF w(1)] w(2) show False by blast
qed

text \<open>
  Nothing enabled: every worker has returned, the consumer has left its loop, and with a
  live context everything is executed and delivered.
\<close>

lemma quiescent_final:
  assumes inv: "pool_inv h0 s" and exit: "exit_inv s" and quiet: "quiescent eng s"
    and nw: "0 < length h0 \<Longrightarrow> workers s \<noteq> []"
  shows "Run_return s = Some (ctx s) \<or> length h0 = 0 \<and> Run_return s = Some None" and "drain s \<noteq> Draining"
    and "ctx s = None \<Longrightarrow> length (executed s) = length h0 \<and> drain s = DrainClosed"
proof -
  have sched: "sched_inv h0 s" and ord: "order_inv h0 s" and ok: "\<not> panicked s"
    using inv sched_invD(12) by (auto simp: pool_inv_def)
  note ex = quiescent_exited [OF inv exit quiet]
  then show "Run_return s = Some (ctx s) \<or> length h0 = 0 \<and> Run_return s = Some None"
    using sched_invD(5) [OF sched] by (auto simp: Run_return_def list_all_iff)
  note consumer = quiescentD(2) [OF quiet ok]
  obtain m P where rel: "rob_rel (ops_of s) (length h0) (committed s) m P s"
    using order_invD(5) [OF ord] by blast
  then obtain rb where rb: "rob s = Some rb" "rob_inv (ops_of s) (length h0) P m rb"
    unfolding rob_rel_def by blast
  have w0: "wsum f (workers s) = 0" if "f Exited = 0" for f
    using ex that by (auto simp: wsum_def sum_list_eq_0_iff)
  have done_all: "length (executed s) = length h0 \<and> drain s \<noteq> Draining" if live: "ctx s = None"
  proof
    show all: "length (executed s) = length h0"
    proof (cases "length h0 = 0")
      case False
      then have "Exited \<in> set (workers s)" using ex nw by (metis gr0I last_in_set)
      then have "workCh_closed s" using exit live unfolding exit_inv_def by blast
      then show ?thesis using sched_invD(6) [OF sched] by blast
    qed (use tick_parts(3) [OF sched] in simp)
    then have "set (executed s) = {..<length h0}"
      using tick_parts(1,2) [OF sched] by (intro card_subset_eq) (simp_all add: distinct_card)
    then have com: "committed s = {..<length h0}" by (auto simp: committed_def unpub_def w0)
    have "\<not> holder p" if "p \<in> set (workers s)" for p using ex that by auto
    then have "\<not> mu s" "\<not> sending (workers s)"
      using order_invD(1) [OF ord] ex by (auto simp: lock_inv_def sending_def in_set_conv_nth)
    then have "m \<notin> committed s" using rel live unfolding rob_rel_def by blast
    then have "m = length h0" using com rb(2) by (simp add: rob_inv_def)
    then have "closed rb" using rb(2) by (simp add: rob_inv_def)
    then show "drain s \<noteq> Draining"
      using consumer [of ChanClosed] rb(1) by (auto simp: consumer_step_def)
  qed
  show nd: "drain s \<noteq> Draining"
    using done_all consumer [of CtxDone] by (cases "ctx s") (auto simp: consumer_step_def)
  show "length (executed s) = length h0 \<and> drain s = DrainClosed" if live: "ctx s = None"
  proof -
    have "drain s \<noteq> DrainAborted" using rel live unfolding rob_rel_def by blast
    then show ?thesis using done_all [OF live] by (cases "drain s") simp_all
  qed
qed

end
