(* ===== verification/Postgres.thy ===== *)
theory Postgres
  imports Storage
begin

text \<open>
  Model of \<^verbatim>\<open>src/postgres_storage.go\<close>: the payload types, the validation that precedes a
  write, and the storage engine over three prepared statements.  The statements run in
  PostgreSQL through \<^verbatim>\<open>database/sql\<close> and \<^verbatim>\<open>lib/pq\<close>; they are the parameter \<open>stmts\<close>, a
  record of functions over a database state.  Latitude and longitude are carried as the
  bits of a \<^verbatim>\<open>float64\<close>, since nothing in the engine computes with them.
\<close>

section \<open>Payloads\<close>

type_synonym float64 = "64 word"

record RiderUpdate =
  OrderID :: string
  Latitude :: float64
  Longitude :: float64
  CurrentStatus :: string
  ETAMinutes :: int64

record RiderRecord = RiderUpdate +
  UpdatedAt :: int

text \<open>The dynamic types that reach the engine as \<^verbatim>\<open>any\<close>; a pointer may be \<^verbatim>\<open>nil\<close>.\<close>

datatype go_value =
    GoRiderUpdate RiderUpdate
  | GoRiderUpdatePtr "RiderUpdate option"
  | GoRiderRecord RiderRecord
  | GoOther string

definition validRiderStatuses :: "string list" where
  "validRiderStatuses = [''AT_VENDOR'', ''EN_ROUTE'', ''ARRIVED'', ''DELIVERED'']"

fun asRiderUpdate :: "go_value any \<Rightarrow> error + RiderUpdate" where
  "asRiderUpdate (Some (GoRiderUpdate v)) = Inr v"
| "asRiderUpdate (Some (GoRiderUpdatePtr None)) = Inl NilRiderUpdate"
| "asRiderUpdate (Some (GoRiderUpdatePtr (Some v))) = Inr v"
| "asRiderUpdate _ = Inl NotRiderUpdate"

section \<open>The engine\<close>

text \<open>Outcome of \<^verbatim>\<open>QueryRowContext(...).Scan(...)\<close>.\<close>

datatype query_result = Row RiderRecord | NoRows | QueryError error

record 'd prepared =
  getStmt :: "ctx_err \<Rightarrow> string \<Rightarrow> 'd \<Rightarrow> 'd \<times> query_result"
  setStmt :: "ctx_err \<Rightarrow> string \<Rightarrow> string \<Rightarrow> float64 \<Rightarrow> float64 \<Rightarrow> string \<Rightarrow> int64 \<Rightarrow> 'd \<Rightarrow> 'd \<times> error option"
  deleteStmt :: "ctx_err \<Rightarrow> string \<Rightarrow> 'd \<Rightarrow> 'd \<times> error option"

definition pg_Get :: "'d prepared \<Rightarrow> ctx_err \<Rightarrow> string \<Rightarrow> 'd \<Rightarrow> 'd \<times> go_value any \<times> bool \<times> error option" where
  "pg_Get p ctx key d =
     (case getStmt p ctx key d of (d', r) \<Rightarrow>
        (case r of
           NoRows \<Rightarrow> (d', None, False, None)
         | QueryError e \<Rightarrow> (d', None, False, Some (Wrap (''khaos: get rider '' @ key) e))
         | Row rec \<Rightarrow> (d', Some (GoRiderRecord rec), True, None)))"

definition pg_Set :: "'d prepared \<Rightarrow> ctx_err \<Rightarrow> string \<Rightarrow> go_value any \<Rightarrow> 'd \<Rightarrow> 'd \<times> error option" where
  "pg_Set p ctx key val d =
     (case asRiderUpdate val of
        Inl e \<Rightarrow> (d, Some (Wrap (''khaos: set rider '' @ key) e))
      | Inr update \<Rightarrow>
          if CurrentStatus update \<notin> set validRiderStatuses then
            (d, Some (Wrap (''khaos: set rider '' @ key) (InvalidStatus (CurrentStatus update))))
          else if sint (ETAMinutes update) < 0 then
            (d, Some (Wrap (''khaos: set rider '' @ key) (NegativeEta (ETAMinutes update))))
          else
            (case setStmt p ctx key (OrderID update) (Latitude update) (Longitude update)
                    (CurrentStatus update) (ETAMinutes update) d of (d', err) \<Rightarrow>
               (d', map_option (Wrap (''khaos: set rider '' @ key)) err)))"

definition pg_Delete :: "'d prepared \<Rightarrow> ctx_err \<Rightarrow> string \<Rightarrow> 'd \<Rightarrow> 'd \<times> error option" where
  "pg_Delete p ctx key d =
     (case deleteStmt p ctx key d of (d', err) \<Rightarrow>
        (d', map_option (Wrap (''khaos: delete rider '' @ key)) err))"

definition PostgresStorageEngine :: "'d prepared \<Rightarrow> ('d, go_value) StorageEngine" where
  "PostgresStorageEngine p = \<lparr>se_Get = pg_Get p, se_Set = pg_Set p, se_Delete = pg_Delete p\<rparr>"

text \<open>
  \<^verbatim>\<open>NewPostgresStorageEngine\<close>: the outcomes of the three \<^verbatim>\<open>PrepareContext\<close> calls are the
  arguments; the second component lists the statements closed on the way out.
\<close>

datatype stmt = GetStmt | SetStmt | DeleteStmt

definition NewPostgresStorageEngine ::
  "error option \<Rightarrow> error option \<Rightarrow> error option \<Rightarrow> (error + stmt list) \<times> stmt list" where
  "NewPostgresStorageEngine prepGet prepSet prepDelete =
     (case prepGet of Some e \<Rightarrow> (Inl (Wrap ''khaos: preparing get statement'' e), [])
      | None \<Rightarrow>
          (case prepSet of Some e \<Rightarrow> (Inl (Wrap ''khaos: preparing set statement'' e), [GetStmt])
           | None \<Rightarrow>
               (case prepDelete of
                  Some e \<Rightarrow> (Inl (Wrap ''khaos: preparing delete statement'' e), [GetStmt, SetStmt])
                | None \<Rightarrow> (Inr [GetStmt, SetStmt, DeleteStmt], []))))"

text \<open>\<^verbatim>\<open>Close\<close> closes all three whatever the first ones answer; \<^verbatim>\<open>errors.Join()\<close> of nothing is \<^verbatim>\<open>nil\<close>.\<close>

definition pg_Close :: "(stmt \<Rightarrow> error option) \<Rightarrow> error option \<times> stmt list" where
  "pg_Close close =
     (let errs = (case close GetStmt of Some e \<Rightarrow> [e] | None \<Rightarrow> []);
          errs = errs @ (case close SetStmt of Some e \<Rightarrow> [e] | None \<Rightarrow> []);
          errs = errs @ (case close DeleteStmt of Some e \<Rightarrow> [e] | None \<Rightarrow> [])
      in (if errs = [] then None else Some (Joined errs), [GetStmt, SetStmt, DeleteStmt]))"

section \<open>Validation\<close>

text \<open>
  The statement is reached exactly by the values that hold a rider update with a known
  status and a non-negative ETA; every other value is refused without touching the database.
\<close>

definition accepted :: "go_value any \<Rightarrow> RiderUpdate \<Rightarrow> bool" where
  "accepted val u \<longleftrightarrow> (val = Some (GoRiderUpdate u) \<or> val = Some (GoRiderUpdatePtr (Some u)))
     \<and> CurrentStatus u \<in> set validRiderStatuses \<and> 0 \<le> sint (ETAMinutes u)"

lemma asRiderUpdate_Inr:
  "asRiderUpdate val = Inr u \<longleftrightarrow> val = Some (GoRiderUpdate u) \<or> val = Some (GoRiderUpdatePtr (Some u))"
  by (cases val rule: asRiderUpdate.cases) auto

lemma pg_Set_accepted:
  "accepted val u \<Longrightarrow> pg_Set p ctx key val d =
     (case setStmt p ctx key (OrderID u) (Latitude u) (Longitude u) (CurrentStatus u) (ETAMinutes u) d of
        (d', err) \<Rightarrow> (d', map_option (Wrap (''khaos: set rider '' @ key)) err))"
  by (auto simp: pg_Set_def accepted_def)

lemma pg_Set_refused:
  assumes "\<And>u. \<not> accepted val u"
  shows "\<exists>e. pg_Set p ctx key val d = (d, Some (Wrap (''khaos: set rider '' @ key) e))"
proof (cases "asRiderUpdate val")
  case (Inr u)
  then have "CurrentStatus u \<notin> set validRiderStatuses \<or> sint (ETAMinutes u) < 0"
    using assms [of u] unfolding accepted_def asRiderUpdate_Inr by (auto simp: not_le)
  then show ?thesis using Inr by (auto simp: pg_Set_def)
qed (simp add: pg_Set_def)

section \<open>Properties\<close>

text \<open>
  C38: validation of a write.  A value that is a rider update, or a non-nil pointer to one,
  with a known status and a non-negative ETA is passed to the statement field by field, and
  the statement's error comes back wrapped; any other value is refused with an error and
  the database is not touched.
\<close>

theorem Set_validates:
  "(\<forall>u. accepted val u \<longrightarrow> pg_Set p ctx key val d =
      (case setStmt p ctx key (OrderID u) (Latitude u) (Longitude u) (CurrentStatus u) (ETAMinutes u) d of
         (d', err) \<Rightarrow> (d', map_option (Wrap (''khaos: set rider '' @ key)) err)))
    \<and> ((\<nexists>u. accepted val u) \<longrightarrow> (\<exists>e. pg_Set p ctx key val d = (d, Some (Wrap (''khaos: set rider '' @ key) e))))"
  by (intro conjI allI impI pg_Set_accepted pg_Set_refused) blast+

definition example_statements :: "(string \<rightharpoonup> RiderRecord) prepared" where
  "example_statements = \<lparr>
     getStmt = (\<lambda>c k d. (d, case c of Some e \<Rightarrow> QueryError e
        | None \<Rightarrow> (case d k of None \<Rightarrow> NoRows | Some r \<Rightarrow> Row r))),
     setStmt = (\<lambda>c k o_id lat lng st eta d. case c of Some e \<Rightarrow> (d, Some e)
        | None \<Rightarrow> (d(k \<mapsto> \<lparr>OrderID = o_id, Latitude = lat, Longitude = lng, CurrentStatus = st, ETAMinutes = eta, UpdatedAt = 0\<rparr>), None)),
     deleteStmt = (\<lambda>c k d. case c of Some e \<Rightarrow> (d, Some e) | None \<Rightarrow> (d(k := None), None))\<rparr>"

definition example_update :: "string \<Rightarrow> int64 \<Rightarrow> RiderUpdate" where
  "example_update st eta = \<lparr>OrderID = ''o'', Latitude = 0, Longitude = 0, CurrentStatus = st, ETAMinutes = eta\<rparr>"

theorem Set_validates_witness:
  "snd (pg_Set example_statements None ''r'' (Some (GoRiderUpdate (example_update ''EN_ROUTE'' 5))) Map.empty) = None
    \<and> (\<exists>e. pg_Set example_statements None ''r'' (Some (GoRiderUpdate (example_update ''LOST'' 5))) Map.empty
          = (Map.empty, Some (Wrap ''khaos: set rider r'' e)))"
proof -
  have "accepted (Some (GoRiderUpdate (example_update ''EN_ROUTE'' 5))) (example_update ''EN_ROUTE'' 5)"
    by (simp add: accepted_def example_update_def validRiderStatuses_def)
  moreover have "\<nexists>u. accepted (Some (GoRiderUpdate (example_update ''LOST'' 5))) u"
    by (simp add: accepted_def example_update_def validRiderStatuses_def)
  ultimately show ?thesis
    using Set_validates [of "Some (GoRiderUpdate (example_update ''EN_ROUTE'' 5))" example_statements None "''r''" Map.empty]
      Set_validates [of "Some (GoRiderUpdate (example_update ''LOST'' 5))" example_statements None "''r''" Map.empty]
    by (auto simp: example_statements_def)
qed

definition prepared_before :: "error option \<Rightarrow> error option \<Rightarrow> error option \<Rightarrow> stmt list" where
  "prepared_before pg ps pd =
     map fst (takeWhile (\<lambda>(s, e). e = None) [(GetStmt, pg), (SetStmt, ps), (DeleteStmt, pd)])"

text \<open>
  No prepared statement is leaked.  Whichever of the three preparations fails, the
  constructor closes exactly the statements prepared before; if none fails it keeps all
  three, and \<^verbatim>\<open>Close\<close> closes them whatever errors it meets, and joins those errors.
\<close>

theorem statements_not_leaked:
  "case NewPostgresStorageEngine pg ps pd of
     (Inr kept, closed) \<Rightarrow> kept = prepared_before pg ps pd \<and> closed = []
       \<and> snd (pg_Close close) = kept
       \<and> (fst (pg_Close close) = None \<longleftrightarrow> list_all (\<lambda>s. close s = None) kept)
   | (Inl e, closed) \<Rightarrow> closed = prepared_before pg ps pd \<and> length closed < 3"
  by (auto simp: NewPostgresStorageEngine_def prepared_before_def pg_Close_def Let_def split: option.split)

end
