(* ===== verification/Utf8.thy ===== *)
theory Utf8
  imports Khaos_Prelude
begin

text \<open>
  Go strings are byte sequences that hold text in UTF-8.  This theory has the decoding that a
  \<^verbatim>\<open>range\<close> loop does, the encoding of \<^verbatim>\<open>utf8.AppendRune\<close>, and that they are inverse to each other
  on valid text.
\<close>

section \<open>Decoding\<close>

text \<open>
  The runes of a byte sequence; an invalid byte is \<^verbatim>\<open>U+FFFD\<close> of width one.
\<close>

definition cont :: "nat \<Rightarrow> bool" where
  "cont b \<longleftrightarrow> 128 \<le> b \<and> b < 192"

fun utf8_decode :: "nat list \<Rightarrow> nat list" where
  "utf8_decode [] = []"
| "utf8_decode (a # bs) =
     (if a < 128 then a # utf8_decode bs
      else (case bs of
        b # cs \<Rightarrow>
          if 194 \<le> a \<and> a < 224 \<and> cont b then ((a - 192) * 64 + (b - 128)) # utf8_decode cs
          else (case cs of
            c # ds \<Rightarrow>
              if 224 \<le> a \<and> a < 240 \<and> cont b \<and> cont c \<and> (a = 224 \<longrightarrow> 160 \<le> b) \<and> (a = 237 \<longrightarrow> b < 160)
              then ((a - 224) * 4096 + (b - 128) * 64 + (c - 128)) # utf8_decode ds
              else (case ds of
                d # es \<Rightarrow>
                  if 240 \<le> a \<and> a < 245 \<and> cont b \<and> cont c \<and> cont d \<and> (a = 240 \<longrightarrow> 144 \<le> b) \<and> (a = 244 \<longrightarrow> b < 144)
                  then ((a - 240) * 262144 + (b - 128) * 4096 + (c - 128) * 64 + (d - 128)) # utf8_decode es
                  else 65533 # utf8_decode bs
              | [] \<Rightarrow> 65533 # utf8_decode bs)
          | [] \<Rightarrow> 65533 # utf8_decode bs)
      | [] \<Rightarrow> 65533 # utf8_decode bs))"

definition runes :: "string \<Rightarrow> nat list" where
  "runes s = utf8_decode (map of_char s)"

lemma utf8_decode_ascii: "\<forall>b \<in> set bs. b < 128 \<Longrightarrow> utf8_decode bs = bs"
  by (induction bs) auto

text \<open>The same with invalid bytes told apart from an encoded \<^verbatim>\<open>U+FFFD\<close>.\<close>

fun utf8_units :: "nat list \<Rightarrow> nat option list" where
  "utf8_units [] = []"
| "utf8_units (a # bs) =
     (if a < 128 then Some a # utf8_units bs
      else (case bs of
        b # cs \<Rightarrow>
          if 194 \<le> a \<and> a < 224 \<and> cont b then Some ((a - 192) * 64 + (b - 128)) # utf8_units cs
          else (case cs of
            c # ds \<Rightarrow>
              if 224 \<le> a \<and> a < 240 \<and> cont b \<and> cont c \<and> (a = 224 \<longrightarrow> 160 \<le> b) \<and> (a = 237 \<longrightarrow> b < 160)
              then Some ((a - 224) * 4096 + (b - 128) * 64 + (c - 128)) # utf8_units ds
              else (case ds of
                d # es \<Rightarrow>
                  if 240 \<le> a \<and> a < 245 \<and> cont b \<and> cont c \<and> cont d \<and> (a = 240 \<longrightarrow> 144 \<le> b) \<and> (a = 244 \<longrightarrow> b < 144)
                  then Some ((a - 240) * 262144 + (b - 128) * 4096 + (c - 128) * 64 + (d - 128)) # utf8_units es
                  else None # utf8_units bs
              | [] \<Rightarrow> None # utf8_units bs)
          | [] \<Rightarrow> None # utf8_units bs)
      | [] \<Rightarrow> None # utf8_units bs))"

definition unit_rune :: "nat option \<Rightarrow> nat" where
  "unit_rune u = (case u of None \<Rightarrow> 65533 | Some r \<Rightarrow> r)"

lemma unit_rune_simps [simp]: "unit_rune None = 65533" "unit_rune (Some r) = r"
  by (simp_all add: unit_rune_def)

lemma utf8_decode_units: "utf8_decode bs = map unit_rune (utf8_units bs)"
proof (induction bs rule: length_induct)
  case (1 xs)
  then have IH: "utf8_decode ys = map unit_rune (utf8_units ys)" if "length ys < length xs" for ys using that by blast
  show ?case
  proof (cases xs)
    case (Cons a bs)
    note step = utf8_decode.simps(2) [of a bs] utf8_units.simps(2) [of a bs]
    note [simp del] = utf8_decode.simps(2) utf8_units.simps(2)
    have bs: "utf8_decode bs = map unit_rune (utf8_units bs)" by (rule IH) (simp add: Cons)
    consider "bs = []" | b where "bs = [b]" | b c where "bs = [b, c]" | b c d es where "bs = b # c # d # es"
      by (metis list.exhaust)
    then show ?thesis
    proof cases
      case (2 b)
      then show ?thesis unfolding Cons step using bs IH [of "[]"] by (simp add: Cons)
    next
      case (3 b c)
      then show ?thesis unfolding Cons step using bs IH [of "[]"] IH [of "[c]"] by (auto simp: Cons)
    next
      case (4 b c d es)
      then show ?thesis unfolding Cons step using bs IH [of es] IH [of "d # es"] IH [of "c # d # es"] by (auto simp: Cons)
    qed (unfold Cons step, simp)
  qed simp
qed

section \<open>Encoding\<close>

text \<open>Unicode scalar values: no surrogates.\<close>

definition scalar :: "nat \<Rightarrow> bool" where
  "scalar r \<longleftrightarrow> r < 55296 \<or> 57344 \<le> r \<and> r < 1114112"

definition encode_rune :: "nat \<Rightarrow> nat list" where
  "encode_rune r =
     (if r < 128 then [r]
      else if r < 2048 then [192 + r div 64, 128 + r mod 64]
      else if r < 65536 then [224 + r div 4096, 128 + r div 64 mod 64, 128 + r mod 64]
      else [240 + r div 262144, 128 + r div 4096 mod 64, 128 + r div 64 mod 64, 128 + r mod 64])"

definition utf8_encode :: "nat list \<Rightarrow> string" where
  "utf8_encode rs = map char_of (concat (map encode_rune rs))"

lemma encode_rune_bytes: "scalar r \<Longrightarrow> b \<in> set (encode_rune r) \<Longrightarrow> b < 256"
  by (auto simp: encode_rune_def scalar_def split: if_splits)

lemma utf8_units_encode:
  assumes "scalar r"
  shows "utf8_units (encode_rune r @ bs) = Some r # utf8_units bs"
proof -
  have d: "r div 64 div 64 = r div 4096" "r div 4096 div 64 = r div 262144"
    by (simp_all add: div_mult2_eq [symmetric])
  have e: "64 * (r div 64) + r mod 64 = r" "4096 * (r div 4096) + 64 * (r div 64 mod 64) + r mod 64 = r"
    "262144 * (r div 262144) + 4096 * (r div 4096 mod 64) + 64 * (r div 64 mod 64) + r mod 64 = r"
    using div_mult_mod_eq [of r 64] div_mult_mod_eq [of "r div 64" 64] div_mult_mod_eq [of "r div 4096" 64]
    unfolding d by linarith+
  consider "r < 128" | "128 \<le> r" "r < 2048" | "2048 \<le> r" "r < 65536" | "65536 \<le> r" "r < 1114112"
    using assms unfolding scalar_def by linarith
  then show ?thesis
  proof cases
    case 2
    define q m where "q = r div 64" and "m = r mod 64"
    have "encode_rune r = [192 + q, 128 + m]" using 2 by (simp add: encode_rune_def q_def m_def)
    moreover have "2 \<le> q" "q < 32" "m < 64" "q * 64 + m = r" using 2 e(1) unfolding q_def m_def by auto
    ultimately show ?thesis by (simp add: cont_def)
  next
    case 3
    define q p m where "q = r div 4096" and "p = r div 64 mod 64" and "m = r mod 64"
    have "encode_rune r = [224 + q, 128 + p, 128 + m]" using 3 by (simp add: encode_rune_def q_def p_def m_def)
    moreover have pm: "p < 64" "m < 64" "q * 4096 + p * 64 + m = r" using e(2) unfolding q_def p_def m_def by auto
    moreover have "q < 16" using pm(3) 3(2) by linarith
    moreover have "32 \<le> p" if "q = 0" using pm(2,3) 3(1) that by arith
    moreover have "p < 32" if "q = 13"
    proof -
      have "r < 55296" using assms pm that unfolding scalar_def by arith
      then show ?thesis using pm(3) that by arith
    qed
    ultimately show ?thesis by (simp add: cont_def)
  next
    case 4
    define q n p m where "q = r div 262144" and "n = r div 4096 mod 64" and "p = r div 64 mod 64" and "m = r mod 64"
    have "encode_rune r = [240 + q, 128 + n, 128 + p, 128 + m]" using 4 by (simp add: encode_rune_def q_def n_def p_def m_def)
    moreover have pm: "n < 64" "p < 64" "m < 64" "q * 262144 + n * 4096 + p * 64 + m = r"
      using e(3) unfolding q_def n_def p_def m_def by auto
    moreover have "q < 5" using pm(4) 4(2) by linarith
    moreover have "16 \<le> n" if "q = 0" using pm(2-4) 4(1) that by arith
    moreover have "n < 16" if "q = 4" using pm(4) 4(2) that by arith
    ultimately show ?thesis by (simp add: cont_def)
  qed (simp add: encode_rune_def)
qed

lemma bytes_encode: "list_all scalar rs \<Longrightarrow> map of_char (utf8_encode rs) = concat (map encode_rune rs)"
  by (auto simp: utf8_encode_def list_all_iff intro!: map_idI mod_less) (blast intro: encode_rune_bytes)

lemma utf8_units_encodes: "list_all scalar rs \<Longrightarrow> utf8_units (concat (map encode_rune rs)) = map Some rs"
  by (induction rs) (simp_all add: utf8_units_encode)

theorem runes_encode: "list_all scalar rs \<Longrightarrow> runes (utf8_encode rs) = rs"
  by (simp add: runes_def bytes_encode utf8_decode_units utf8_units_encodes comp_def)

section \<open>Valid text\<close>

definition bytes :: "string \<Rightarrow> nat list" where
  "bytes s = map of_char s"

definition utf8_valid :: "string \<Rightarrow> bool" where
  "utf8_valid s \<longleftrightarrow> None \<notin> set (utf8_units (bytes s))"

text \<open>What a decoder makes of a string: each invalid byte becomes an encoded \<^verbatim>\<open>U+FFFD\<close>.\<close>

definition ToValidUTF8 :: "string \<Rightarrow> string" where
  "ToValidUTF8 s = utf8_encode (runes s)"

lemma div_mod_64: "y < 64 \<Longrightarrow> (x * 64 + y) div 64 = x" "y < 64 \<Longrightarrow> (x * 64 + y) mod 64 = (y :: nat)"
  by simp_all

lemma encode_rune_2:
  assumes "194 \<le> a" "a < 224" "cont b"
  shows "encode_rune ((a - 192) * 64 + (b - 128)) = [a, b]"
proof -
  define x y where "x = a - 192" and "y = b - 128"
  have xy: "a = 192 + x" "b = 128 + y" "2 \<le> x" "x < 32" "y < 64" using assms by (auto simp: x_def y_def cont_def)
  have "128 \<le> x * 64 + y" "x * 64 + y < 2048" using xy by linarith+
  then show ?thesis unfolding x_def [symmetric] y_def [symmetric]
    using xy div_mod_64 [of y x] by (simp add: encode_rune_def)
qed

lemma encode_rune_3:
  assumes "224 \<le> a" "a < 240" "cont b" "cont c" "a = 224 \<longrightarrow> 160 \<le> b"
  shows "encode_rune ((a - 224) * 4096 + (b - 128) * 64 + (c - 128)) = [a, b, c]"
proof -
  define x y z where "x = a - 224" and "y = b - 128" and "z = c - 128"
  have xyz: "a = 224 + x" "b = 128 + y" "c = 128 + z" "x < 16" "y < 64" "z < 64" "x = 0 \<longrightarrow> 32 \<le> y"
    using assms by (auto simp: x_def y_def z_def cont_def)
  define r where "r = x * 4096 + y * 64 + z"
  have "r = (x * 64 + y) * 64 + z" by (simp add: r_def)
  then have d: "r div 64 = x * 64 + y" "r mod 64 = z" by (simp_all only: div_mod_64 [OF xyz(6)])
  have "r div 4096 = r div 64 div 64" by (simp add: div_mult2_eq [symmetric])
  then have "r div 4096 = x" "r div 64 mod 64 = y" by (simp_all only: d div_mod_64 [OF xyz(5)])
  moreover have "2048 \<le> r" using xyz(7) by (cases x) (simp_all add: r_def)
  moreover have "r < 65536" using xyz(4-6) unfolding r_def by linarith
  ultimately show ?thesis unfolding x_def [symmetric] y_def [symmetric] z_def [symmetric] r_def [symmetric]
    using xyz(1-3) d(2) by (simp add: encode_rune_def)
qed

lemma encode_rune_4:
  assumes "240 \<le> a" "a < 245" "cont b" "cont c" "cont d" "a = 240 \<longrightarrow> 144 \<le> b"
  shows "encode_rune ((a - 240) * 262144 + (b - 128) * 4096 + (c - 128) * 64 + (d - 128)) = [a, b, c, d]"
proof -
  define x y z w where "x = a - 240" and "y = b - 128" and "z = c - 128" and "w = d - 128"
  have xyz: "a = 240 + x" "b = 128 + y" "c = 128 + z" "d = 128 + w" "x < 5" "y < 64" "z < 64" "w < 64" "x = 0 \<longrightarrow> 16 \<le> y"
    using assms by (auto simp: x_def y_def z_def w_def cont_def)
  define r where "r = x * 262144 + y * 4096 + z * 64 + w"
  have "r = ((x * 64 + y) * 64 + z) * 64 + w" by (simp add: r_def)
  then have d1: "r div 64 = (x * 64 + y) * 64 + z" "r mod 64 = w" by (simp_all only: div_mod_64 [OF xyz(8)])
  have "r div 4096 = r div 64 div 64" "r div 262144 = r div 64 div 64 div 64" by (simp_all add: div_mult2_eq [symmetric])
  then have d2: "r div 4096 = x * 64 + y" "r div 64 mod 64 = z" "r div 262144 = x"
    by (simp_all only: d1 div_mod_64 [OF xyz(7)] div_mod_64 [OF xyz(6)])
  moreover have "r div 4096 mod 64 = y" by (simp only: d2 div_mod_64 [OF xyz(6)])
  moreover have "65536 \<le> r" using xyz(9) by (cases x) (simp_all add: r_def)
  ultimately show ?thesis
    unfolding x_def [symmetric] y_def [symmetric] z_def [symmetric] w_def [symmetric] r_def [symmetric]
    using xyz(1-4) d1(2) by (simp add: encode_rune_def)
qed

lemma encode_units: "None \<notin> set (utf8_units bs) \<Longrightarrow> concat (map encode_rune (utf8_decode bs)) = bs"
proof (induction bs rule: length_induct)
  case (1 xs)
  then have IH: "None \<notin> set (utf8_units ys) \<Longrightarrow> concat (map encode_rune (utf8_decode ys)) = ys" if "length ys < length xs" for ys
    using that by blast
  show ?case
  proof (cases xs)
    case (Cons a bs)
    note step = utf8_decode.simps(2) [of a bs] utf8_units.simps(2) [of a bs]
    note [simp del] = utf8_decode.simps(2) utf8_units.simps(2)
    note prem = 1(2) [unfolded Cons step]
    have bs: "None \<notin> set (utf8_units bs) \<Longrightarrow> concat (map encode_rune (utf8_decode bs)) = bs" by (rule IH) (simp_all add: Cons)
    consider "bs = []" | b where "bs = [b]" | b c where "bs = [b, c]" | b c d es where "bs = b # c # d # es"
      by (metis list.exhaust)
    then show ?thesis
    proof cases
      case 1
      then show ?thesis unfolding Cons step using prem by (auto simp: encode_rune_def split: if_splits)
    next
      case (2 b)
      then show ?thesis unfolding Cons step using bs prem IH [of "[]"] encode_rune_2 [of a b]
        by (auto simp: Cons encode_rune_def [of a] split: if_splits)
    next
      case (3 b c)
      then show ?thesis unfolding Cons step using bs prem IH [of "[]"] IH [of "[c]"] encode_rune_2 [of a b] encode_rune_3 [of a b c]
        by (auto simp: Cons encode_rune_def [of a] split: if_splits)
    next
      case (4 b c d es)
      then show ?thesis
        unfolding Cons step using bs prem IH [of es] IH [of "d # es"] IH [of "c # d # es"] encode_rune_2 [of a b]
          encode_rune_3 [of a b c] encode_rune_4 [of a b c d]
        by (auto simp: Cons encode_rune_def [of a] split: if_splits)
    qed
  qed simp
qed

lemma ToValidUTF8_id: "utf8_valid s \<Longrightarrow> ToValidUTF8 s = s"
  by (simp add: ToValidUTF8_def utf8_valid_def runes_def bytes_def utf8_encode_def encode_units comp_def)

lemma scalar_2: "194 \<le> a \<Longrightarrow> a < 224 \<Longrightarrow> cont b \<Longrightarrow> scalar ((a - 192) * 64 + (b - 128))"
  unfolding scalar_def cont_def by linarith

lemma scalar_3:
  assumes "224 \<le> a" "a < 240" "cont b" "cont c" "a = 237 \<longrightarrow> b < 160"
  shows "scalar ((a - 224) * 4096 + (b - 128) * 64 + (c - 128))"
proof -
  consider "a < 237" | "a = 237" "b < 160" | "237 < a" using assms(5) by linarith
  then show ?thesis using assms(1-4) unfolding scalar_def cont_def by cases linarith+
qed

lemma scalar_4:
  assumes "240 \<le> a" "a < 245" "cont b" "cont c" "cont d" "a = 240 \<longrightarrow> 144 \<le> b" "a = 244 \<longrightarrow> b < 144"
  shows "scalar ((a - 240) * 262144 + (b - 128) * 4096 + (c - 128) * 64 + (d - 128))"
proof -
  consider "a = 240" "144 \<le> b" | "240 < a" "a < 244" | "a = 244" "b < 144" using assms(1,2,6,7) by linarith
  then show ?thesis using assms(1-5) unfolding scalar_def cont_def by cases linarith+
qed

lemmas scalar_decoded = scalar_2 scalar_3 scalar_4

lemma utf8_units_scalar: "Some r \<in> set (utf8_units bs) \<Longrightarrow> scalar r"
proof (induction bs rule: length_induct)
  case (1 xs)
  then have IH: "Some r \<in> set (utf8_units ys) \<Longrightarrow> scalar r" if "length ys < length xs" for ys using that by blast
  show ?case
  proof (cases xs)
    case (Cons a bs)
    note step = utf8_units.simps(2) [of a bs]
    note [simp del] = utf8_units.simps(2)
    note prem = 1(2) [unfolded Cons step]
    have bs: "Some r \<in> set (utf8_units bs) \<Longrightarrow> scalar r" by (rule IH) (simp_all add: Cons)
    consider "bs = []" | b where "bs = [b]" | b c where "bs = [b, c]" | b c d es where "bs = b # c # d # es"
      by (metis list.exhaust)
    then show ?thesis
    proof cases
      case 1
      then show ?thesis using prem by (auto simp: scalar_def split: if_splits)
    next
      case (2 b)
      then show ?thesis using bs prem IH [of "[]"] scalar_decoded by (auto simp: Cons scalar_def [of a] split: if_splits)
    next
      case (3 b c)
      then show ?thesis using bs prem IH [of "[]"] IH [of "[c]"] scalar_decoded
        by (auto simp: Cons scalar_def [of a] split: if_splits)
    next
      case (4 b c d es)
      then show ?thesis using bs prem IH [of es] IH [of "d # es"] IH [of "c # d # es"] scalar_decoded
        by (auto simp: Cons scalar_def [of a] split: if_splits)
    qed
  qed (use 1 in simp)
qed

lemma runes_scalar: "list_all scalar (runes s)"
proof -
  have "scalar (unit_rune u)" if "u \<in> set (utf8_units bs)" for u bs
  proof (cases u)
    case (Some r)
    then show ?thesis using that utf8_units_scalar [of r bs] by simp
  qed (simp add: scalar_def)
  then show ?thesis by (auto simp: runes_def utf8_decode_units list_all_iff)
qed

end
