(* ===== verification/Server.thy ===== *)
theory Server
  imports Pool_Live Postgres Utf8
begin

text \<open>
  Model of \<^verbatim>\<open>src/server.go\<close>: the wire types, the translation of a request into a dense
  batch, the configuration defaults and the batch handler.  The outcome of the JSON
  decoder is an argument of the handler here and defined in \<open>Wire\<close>; the run it starts is the transition system of
  \<open>WorkerPool\<close>, and its answer is a function of the state in which the handler's loop ends.
\<close>

section \<open>Decoding of operation names\<close>

text \<open>
  \<^verbatim>\<open>strings.TrimSpace\<close> and \<^verbatim>\<open>strings.ToUpper\<close> work on runes, so the bytes are decoded first.
\<close>

text \<open>\<^verbatim>\<open>unicode.IsSpace\<close>.\<close>

definition IsSpace :: "nat \<Rightarrow> bool" where
  "IsSpace r \<longleftrightarrow> 9 \<le> r \<and> r \<le> 13 \<or> r = 32 \<or> r = 133 \<or> r = 160 \<or> r = 5760
     \<or> 8192 \<le> r \<and> r \<le> 8202 \<or> r = 8232 \<or> r = 8233 \<or> r = 8239 \<or> r = 8287 \<or> r = 12288"

definition TrimSpace :: "nat list \<Rightarrow> nat list" where
  "TrimSpace rs = rev (dropWhile IsSpace (rev (dropWhile IsSpace rs)))"

text \<open>
  The upper case of a rune when it is ASCII: the letters, and the two runes outside ASCII
  whose upper case is inside (\<^verbatim>\<open>U+0131\<close> and \<^verbatim>\<open>U+017F\<close>).  \<open>None\<close> stands for every upper case
  outside ASCII, which no case of the \<^verbatim>\<open>switch\<close> contains.
\<close>

definition ToUpper :: "nat \<Rightarrow> nat option" where
  "ToUpper r = (if 97 \<le> r \<and> r \<le> 122 then Some (r - 32) else if r < 128 then Some r
     else if r = 305 then Some 73 else if r = 383 then Some 83 else None)"

definition ascii :: "string \<Rightarrow> nat option list" where
  "ascii s = map (\<lambda>c. Some (of_char c)) s"

definition parseOperationType :: "string \<Rightarrow> error + OperationType" where
  "parseOperationType raw =
     (let u = map ToUpper (TrimSpace (runes raw))
      in if u = ascii ''READ'' then Inr OpRead
         else if u = ascii ''WRITE'' then Inr OpWrite
         else if u = ascii ''DELETE'' then Inr OpDelete
         else Inl (UnknownOperationName raw))"

section \<open>Translation of a request\<close>

record BatchRequestItem =
  req_SeqID :: uint64
  req_OperationType :: string
  req_RiderID :: string
  req_Payload :: "RiderUpdate option"

record 'v BatchResponseItem =
  resp_SeqID :: uint64
  resp_Result :: "'v any"
  resp_Error :: "error option"

text \<open>The zero value of \<^verbatim>\<open>Operation\<close>, which fills the slice before the loop.\<close>

definition zeroOperation :: "go_value Operation" where
  "zeroOperation = \<lparr>SeqID = 0, Key = [], Type = 0, Value = None, Result = None, Err = None\<rparr>"

definition translate_item :: "BatchRequestItem \<Rightarrow> error + go_value Operation" where
  "translate_item item =
     (case parseOperationType (req_OperationType item) of
        Inl e \<Rightarrow> Inl (AtSeq (req_SeqID item) e)
      | Inr opType \<Rightarrow>
          if req_RiderID item = [] then Inl (RiderIdRequired (req_SeqID item))
          else
            let op = zeroOperation\<lparr>SeqID := req_SeqID item, Key := req_RiderID item, Type := opType\<rparr>
            in if opType = OpWrite then
                 (case req_Payload item of
                    None \<Rightarrow> Inl (PayloadRequired (req_SeqID item))
                  | Some p \<Rightarrow> Inr (op\<lparr>Value := Some (GoRiderUpdate p)\<rparr>))
               else Inr op)"

fun translate_loop ::
  "nat \<Rightarrow> BatchRequestItem list \<Rightarrow> go_value Operation list \<Rightarrow> bool list
     \<Rightarrow> error + (go_value Operation list \<times> bool list)" where
  "translate_loop n [] ops seen = Inr (ops, seen)"
| "translate_loop n (item # items) ops seen =
     (if of_nat n \<le> req_SeqID item then Inl (SeqOutOfRange (req_SeqID item) n)
      else let i = unat (req_SeqID item)
           in if seen ! i then Inl (DuplicateSeq (req_SeqID item))
              else (case translate_item item of
                      Inl e \<Rightarrow> Inl e
                    | Inr op \<Rightarrow> translate_loop n items (ops[i := op]) (seen[i := True])))"

fun first_missing :: "nat \<Rightarrow> bool list \<Rightarrow> nat option" where
  "first_missing i [] = None"
| "first_missing i (wasSeen # seen) = (if wasSeen then first_missing (Suc i) seen else Some i)"

definition translateRequest :: "BatchRequestItem list \<Rightarrow> error + go_value Operation list" where
  "translateRequest items =
     (let n = length items
      in case translate_loop n items (replicate n zeroOperation) (replicate n False) of
           Inl e \<Rightarrow> Inl e
         | Inr (ops, seen) \<Rightarrow>
             (case first_missing 0 seen of Some i \<Rightarrow> Inl (MissingSeq i) | None \<Rightarrow> Inr ops))"

section \<open>Configuration\<close>

text \<open>Durations are nanoseconds.\<close>

record ServerConfig =
  Addr :: string
  WorkerCount :: int
  BatchTimeout :: int
  ReadTimeout :: int
  WriteTimeout :: int
  IdleTimeout :: int
  MaxBodyBytes :: int

definition second :: int where "second = 1000000000"

definition orDefault :: "int \<Rightarrow> int \<Rightarrow> int" where
  "orDefault v dflt = (if v \<le> 0 then dflt else v)"

text \<open>The configuration the server, its handler and the \<^verbatim>\<open>http.Server\<close> are built from.\<close>

definition NewServer :: "ServerConfig \<Rightarrow> ServerConfig" where
  "NewServer cfg = cfg\<lparr>
     WorkerCount := orDefault (WorkerCount cfg) 8,
     BatchTimeout := orDefault (BatchTimeout cfg) (5 * second),
     ReadTimeout := orDefault (ReadTimeout cfg) (10 * second),
     WriteTimeout := orDefault (WriteTimeout cfg) (15 * second),
     IdleTimeout := orDefault (IdleTimeout cfg) (60 * second),
     MaxBodyBytes := orDefault (MaxBodyBytes cfg) (2 * 2 ^ 20)\<rparr>"

section \<open>The batch handler\<close>

datatype 'v response =
    WriteJSON nat "'v BatchResponseItem list"
  | WriteError nat error
  | NoResponse

definition response_item :: "'v Operation \<Rightarrow> 'v BatchResponseItem" where
  "response_item op = \<lparr>resp_SeqID = SeqID op, resp_Result = Result op, resp_Error = Err op\<rparr>"

text \<open>
  Up to the start of the run: either an immediate answer, or the state in which the pool
  has been started and the handler enters its loop.  \<open>c\<close> is the state of the request
  context at that moment.
\<close>

definition handleBatch_start ::
  "nat \<Rightarrow> ServerConfig \<Rightarrow> 's \<Rightarrow> ctx_err \<Rightarrow> error + BatchRequestItem list
     \<Rightarrow> go_value response + ('s, go_value) pool" where
  "handleBatch_start numCPU cfg st c body =
     (case body of
        Inl e \<Rightarrow> Inl (WriteError 400 (Wrap ''invalid JSON body'' e))
      | Inr items \<Rightarrow>
          if items = [] then Inl (WriteJSON 200 [])
          else (case translateRequest items of
            Inl e \<Rightarrow> Inl (WriteError 400 e)
          | Inr ops \<Rightarrow>
              (case Build ops of
                 Inl e \<Rightarrow> Inl (WriteError 400 (Wrap ''failed to build dependency graph'' e))
               | Inr (h, all_nodes, runnable) \<Rightarrow>
                   Inr (Run_start (NewConcurrentWorkerPool numCPU (WorkerCount cfg)) h runnable st
                          (Some (Drain NewInOrderReorderBuffer (int (length all_nodes)))) c))))"

text \<open>
  The answer once the loop has ended: by the closed channel, after which the handler
  waits for \<^verbatim>\<open>Run\<close>, or by the context.
\<close>

definition handleBatch_finish :: "('s, 'v) pool \<Rightarrow> 'v response option" where
  "handleBatch_finish s =
     (case drain s of
        Draining \<Rightarrow> None
      | DrainClosed \<Rightarrow>
          (case Run_return s of
             None \<Rightarrow> None
           | Some (Some e) \<Rightarrow> Some (WriteError 500 (Wrap ''worker pool error'' e))
           | Some None \<Rightarrow> Some (WriteJSON 200 (map response_item (received s))))
      | DrainAborted \<Rightarrow>
          if ctx s = Some DeadlineExceeded
          then Some (WriteError 504 (Wrap ''batch execution exceeded timeout'' DeadlineExceeded))
          else Some NoResponse)"

section \<open>What a translated request is\<close>

abbreviation req_index :: "BatchRequestItem \<Rightarrow> nat" where
  "req_index item \<equiv> unat (req_SeqID item)"

lemma seq_in_range: "n < 2 ^ 64 \<Longrightarrow> \<not> of_nat n \<le> (w :: uint64) \<longleftrightarrow> unat w < n"
  by (simp add: word_less_nat_alt unat_of_nat_64 not_le)

lemma translate_item_Inr:
  assumes "translate_item item = Inr op"
  shows "SeqID op = req_SeqID item" "Key op = req_RiderID item" "Key op \<noteq> []" "known_type (Type op)"
    "parseOperationType (req_OperationType item) = Inr (Type op)"
    "Value op = (if Type op = OpWrite then map_option GoRiderUpdate (req_Payload item) else None)"
    "Result op = None" "Err op = None"
  using assms
  by (auto simp: translate_item_def zeroOperation_def known_type_def parseOperationType_def Let_def
      split: sum.splits if_splits option.splits)

lemma translate_loop_Inr:
  assumes "translate_loop n items ops seen = Inr (ops', seen')"
    and "length ops = n" "length seen = n" "n < 2 ^ 64"
  shows "length ops' = n \<and> length seen' = n \<and> distinct (map req_index items)
    \<and> (\<forall>item \<in> set items. req_index item < n \<and> \<not> seen ! req_index item
          \<and> translate_item item = Inr (ops' ! req_index item))
    \<and> (\<forall>i < n. seen' ! i \<longleftrightarrow> seen ! i \<or> i \<in> req_index ` set items)
    \<and> (\<forall>i < n. i \<notin> req_index ` set items \<longrightarrow> ops' ! i = ops ! i)"
  using assms
proof (induction items arbitrary: ops seen)
  case (Cons item items)
  let ?i = "req_index item"
  from Cons.prems(1) obtain op where op: "\<not> of_nat n \<le> req_SeqID item" "\<not> seen ! ?i" "translate_item item = Inr op"
    and rest: "translate_loop n items (ops[?i := op]) (seen[?i := True]) = Inr (ops', seen')"
    by (auto simp: Let_def split: if_splits sum.splits)
  have i: "?i < n" using op(1) seq_in_range [OF Cons.prems(4)] by simp
  note IH = Cons.IH [OF rest]
  then have new: "?i \<notin> req_index ` set items" using Cons.prems i by fastforce
  with IH Cons.prems i have "ops' ! ?i = op" by simp
  moreover have "\<not> seen ! req_index it" if "it \<in> set items" for it
    using IH Cons.prems i that new by (cases "req_index it = ?i") (force, fastforce)
  ultimately show ?case using IH Cons.prems i op new by (auto simp: nth_list_update)
qed simp

lemma translate_loop_complete:
  assumes "distinct (map req_index items)"
    and "\<forall>item \<in> set items. req_index item < n \<and> \<not> seen ! req_index item \<and> (\<exists>op. translate_item item = Inr op)"
    and "length seen = n" "n < 2 ^ 64"
  shows "\<exists>r. translate_loop n items ops seen = Inr r"
  using assms
proof (induction items arbitrary: ops seen)
  case (Cons item items)
  let ?i = "req_index item"
  obtain op where op: "translate_item item = Inr op" using Cons.prems(2) by auto
  have i: "?i < n" "\<not> seen ! ?i" using Cons.prems(2) by auto
  have "\<forall>it \<in> set items. req_index it < n \<and> \<not> seen[?i := True] ! req_index it \<and> (\<exists>op. translate_item it = Inr op)"
    using Cons.prems(1,2) by (simp add: image_iff)
  from Cons.IH [OF _ this, of "ops[?i := op]"] Cons.prems i op show ?case
    by (simp add: Let_def seq_in_range)
qed simp

lemma translate_loop_length:
  "translate_loop n items ops seen = Inr (ops', seen') \<Longrightarrow> length ops' = length ops"
  by (induction n items ops seen rule: translate_loop.induct) (auto simp: Let_def split: if_splits sum.splits)

lemma translateRequest_length: "translateRequest items = Inr ops \<Longrightarrow> length ops = length items"
  by (auto simp: translateRequest_def Let_def split: sum.splits prod.splits option.splits
      dest: translate_loop_length)

lemma first_missing_None: "first_missing i seen = None \<longleftrightarrow> (\<forall>j < length seen. seen ! j)"
  by (induction seen arbitrary: i) (auto simp: less_Suc_eq_0_disj)

text \<open>
  With \<open>n\<close> items, indices below \<open>n\<close> and no duplicate, every index occurs, so the last loop of
  \<^verbatim>\<open>translateRequest\<close> never finds a missing one.
\<close>

lemma indices_all:
  assumes "distinct (map req_index items)" "\<forall>item \<in> set items. req_index item < length items"
  shows "req_index ` set items = {..<length items}"
proof (rule card_subset_eq)
  show "card (req_index ` set items) = card {..<length items}"
    using distinct_card [OF assms(1)] by simp
qed (use assms(2) in auto)

lemma translate_loop_full:
  assumes "translate_loop (length items) items (replicate (length items) zeroOperation)
      (replicate (length items) False) = Inr (ops, seen)"
    and "length items < 2 ^ 64"
  shows "first_missing 0 seen = None" "length ops = length items"
    "distinct (map req_index items)"
    "\<forall>item \<in> set items. req_index item < length items \<and> translate_item item = Inr (ops ! req_index item)"
proof -
  note loop = translate_loop_Inr [OF assms(1) _ _ assms(2), simplified]
  then have "req_index ` set items = {..<length items}" by (intro indices_all) simp_all
  with loop show "first_missing 0 seen = None" unfolding first_missing_None by auto
  show "length ops = length items" "distinct (map req_index items)"
    "\<forall>item \<in> set items. req_index item < length items \<and> translate_item item = Inr (ops ! req_index item)"
    using loop by auto
qed

definition translates :: "BatchRequestItem list \<Rightarrow> go_value Operation list \<Rightarrow> bool" where
  "translates items ops \<longleftrightarrow> length ops = length items \<and> distinct (map req_index items)
     \<and> (\<forall>item \<in> set items. req_index item < length items \<and> translate_item item = Inr (ops ! req_index item))"

lemma translates_nth:
  assumes "translates items ops" "i < length ops"
  shows "\<exists>item \<in> set items. req_index item = i \<and> translate_item item = Inr (ops ! i)"
proof -
  have "req_index ` set items = {..<length items}"
    using assms(1) by (intro indices_all) (simp_all add: translates_def)
  then have "i \<in> req_index ` set items" using assms unfolding translates_def by simp
  then show ?thesis using assms(1) unfolding translates_def by blast
qed

lemma translateRequest_Inr:
  assumes "length items < 2 ^ 64"
  shows "translateRequest items = Inr ops \<longleftrightarrow> translates items ops"
proof
  assume "translateRequest items = Inr ops"
  then show "translates items ops"
    using translate_loop_full [OF _ assms, of ops]
    by (auto simp: translateRequest_def Let_def translates_def split: sum.splits prod.splits option.splits)
next
  assume tr: "translates items ops"
  let ?n = "length items"
  have "\<exists>r. translate_loop ?n items (replicate ?n zeroOperation) (replicate ?n False) = Inr r"
    using tr assms by (intro translate_loop_complete) (auto simp: translates_def)
  then obtain ops' seen where loop:
    "translate_loop ?n items (replicate ?n zeroOperation) (replicate ?n False) = Inr (ops', seen)" by auto
  note full = translate_loop_full [OF loop assms]
  have "ops' ! i = ops ! i" if "i < length ops" for i
    using translates_nth [OF tr that] full(4) by auto
  then have "ops' = ops" using full(2) tr by (intro nth_equalityI) (simp_all add: translates_def)
  with loop full(1) show "translateRequest items = Inr ops" by (simp add: translateRequest_def)
qed

lemma translates_valid_batch:
  assumes "translates items ops" "length items \<le> 2 ^ 63"
  shows "valid_batch ops"
proof -
  have "valid_op i (ops ! i)" if i: "i < length ops" for i
  proof -
    obtain item where item: "req_index item = i" "translate_item item = Inr (ops ! i)"
      using translates_nth [OF assms(1) i] by blast
    have "i < 2 ^ 63" using i assms unfolding translates_def by linarith
    moreover have "SeqID (ops ! i) = of_nat i"
      using translate_item_Inr(1) [OF item(2)] item(1) by auto
    ultimately show ?thesis
      using translate_item_Inr(4) [OF item(2)] by (simp add: valid_op_def sint_of_nat_64)
  qed
  then show ?thesis by (simp add: valid_batch_def)
qed

section \<open>Operation names\<close>

lemma TrimSpace_pad:
  assumes "\<forall>r \<in> set pre. IsSpace r" "\<forall>r \<in> set post. IsSpace r" "body \<noteq> []" "\<not> IsSpace (hd body)" "\<not> IsSpace (last body)"
  shows "TrimSpace (pre @ body @ post) = body"
proof -
  have "dropWhile IsSpace (pre @ body @ post) = body @ post"
    using assms(1,3,4) by (cases body) (simp_all add: dropWhile_append2)
  moreover have "dropWhile IsSpace (rev post @ rev body) = rev body"
    using dropWhile_append2 [of "rev post" IsSpace "rev body"] assms(2,3,5)
    by (cases body rule: rev_cases) simp_all
  ultimately show ?thesis by (simp add: TrimSpace_def)
qed

text \<open>The upper case of an ASCII character, as \<^verbatim>\<open>strings.ToUpper\<close> computes it on bytes.\<close>

definition upper_char :: "char \<Rightarrow> nat" where
  "upper_char c = (if 97 \<le> (of_char c :: nat) \<and> (of_char c :: nat) \<le> 122 then of_char c - 32 else of_char c)"

lemma parse_padded:
  assumes known: "known_type t"
    and body: "map upper_char body = map of_char (OperationType_String t)"
    and pads: "\<forall>c \<in> set (pre @ post). c \<in> set [CHR '' '', CHR 0x09, CHR 0x0A, CHR 0x0D]"
  shows "parseOperationType (pre @ body @ post) = Inr t"
proof -
  let ?b = "\<lambda>s. map of_char s :: nat list"
  have name: "\<forall>n \<in> set (?b (OperationType_String t)). 65 \<le> n \<and> n \<le> 90" "OperationType_String t \<noteq> []"
    using known by (auto simp: known_type_def writes_def OperationType_String_def)
  have up: "65 \<le> upper_char c \<and> upper_char c \<le> 90" if "c \<in> set body" for c
    using name(1) body that by (metis image_eqI list.set_map)
  have letters: "(of_char c :: nat) < 128 \<and> \<not> IsSpace (of_char c) \<and> ToUpper (of_char c) = Some (upper_char c)"
    if "c \<in> set body" for c
    using up [OF that] by (auto simp: upper_char_def IsSpace_def ToUpper_def split: if_splits)
  have space: "(of_char c :: nat) < 128 \<and> IsSpace (of_char c)" if "c \<in> set pre \<or> c \<in> set post" for c
  proof -
    have "c \<in> set [CHR '' '', CHR 0x09, CHR 0x0A, CHR 0x0D]" using pads that by auto
    then consider "c = CHR '' ''" | "c = CHR 0x09" | "c = CHR 0x0A" | "c = CHR 0x0D" by auto
    then show ?thesis by cases (simp_all add: IsSpace_def)
  qed
  have "\<forall>b \<in> set (?b (pre @ body @ post)). b < 128" using letters space by auto
  then have runes: "runes (pre @ body @ post) = ?b pre @ ?b body @ ?b post"
    unfolding runes_def by (subst utf8_decode_ascii) simp_all
  have ne: "body \<noteq> []" using body name(2) by auto
  then have "TrimSpace (runes (pre @ body @ post)) = ?b body"
    unfolding runes using letters space by (intro TrimSpace_pad) (simp_all add: hd_map last_map)
  moreover have "map ToUpper (?b body) = map Some (map upper_char body)" using letters by simp
  ultimately have "map ToUpper (TrimSpace (runes (pre @ body @ post))) = ascii (OperationType_String t)"
    by (simp only: body) (simp add: ascii_def)
  then show ?thesis
    using known by (auto simp: parseOperationType_def known_type_def writes_def OperationType_String_def ascii_def)
qed

lemma translate_loop_no_missing: "translate_loop n items ops seen \<noteq> Inl (MissingSeq i)"
  by (induction n items ops seen rule: translate_loop.induct)
    (auto simp: Let_def translate_item_def split: sum.splits if_splits option.splits)

section \<open>An example\<close>

definition example_items :: "BatchRequestItem list" where
  "example_items =
     [\<lparr>req_SeqID = 1, req_OperationType = ''READ'', req_RiderID = ''r'', req_Payload = None\<rparr>,
      \<lparr>req_SeqID = 0, req_OperationType = ''delete'', req_RiderID = ''r'', req_Payload = None\<rparr>]"

definition example_batch :: "go_value Operation list" where
  "example_batch =
     [zeroOperation\<lparr>Key := ''r'', Type := OpDelete\<rparr>, zeroOperation\<lparr>SeqID := 1, Key := ''r'', Type := OpRead\<rparr>]"

lemma example_names: "parseOperationType ''READ'' = Inr OpRead" "parseOperationType ''delete'' = Inr OpDelete"
  by (simp_all add: parseOperationType_def runes_def TrimSpace_def IsSpace_def ToUpper_def ascii_def)

definition example_config :: ServerConfig where
  "example_config = \<lparr>Addr = '':8080'', WorkerCount = 0, BatchTimeout = 0, ReadTimeout = 0,
     WriteTimeout = 0, IdleTimeout = 0, MaxBodyBytes = 0\<rparr>"

lemma example_translates: "translates example_items example_batch"
  by (simp add: translates_def example_items_def example_batch_def translate_item_def example_names Let_def zeroOperation_def)

lemma example_length: "length example_items = 2"
  by (simp add: example_items_def)

section \<open>Properties\<close>

text \<open>
  C26: which requests are accepted.  A request is translated exactly when its sequence numbers
  are a permutation of \<open>0, \<dots>, n - 1\<close> and every item has a known operation name, a rider and,
  for a write, a payload; the result is the list of the translated items in sequence order.
\<close>

theorem translateRequest_iff:
  assumes "length items < 2 ^ 64"
  shows "translateRequest items = Inr ops \<longleftrightarrow>
    length ops = length items \<and> distinct (map req_SeqID items)
    \<and> (\<forall>item \<in> set items. req_index item < length items \<and> translate_item item = Inr (ops ! req_index item))"
proof -
  have "distinct (map req_index items) = distinct (map req_SeqID items)"
    by (simp add: distinct_map inj_on_def word_unat_eq_iff)
  then show ?thesis using translateRequest_Inr [OF assms, of ops] by (simp add: translates_def)
qed

theorem translateRequest_iff_witness:
  "translateRequest example_items = Inr example_batch"
  by (subst translateRequest_iff)
    (simp_all add: example_items_def example_batch_def translate_item_def example_names Let_def zeroOperation_def)

text \<open>
  A translated request always builds.  The batch that \<^verbatim>\<open>translateRequest\<close> returns is dense
  and of known types, so \<^verbatim>\<open>Build\<close> succeeds on it, and the check for a missing sequence number
  after the loop never fires: with no number out of range and none repeated, none is missing.
\<close>

theorem translated_request_builds:
  assumes "length items \<le> 2 ^ 63"
  shows "translateRequest items \<noteq> Inl (MissingSeq i)
    \<and> (\<forall>ops. translateRequest items = Inr ops \<longrightarrow> (\<exists>r. Build ops = Inr r))"
proof
  have lt: "length items < 2 ^ 64" using assms by simp
  show "translateRequest items \<noteq> Inl (MissingSeq i)"
  proof
    assume err: "translateRequest items = Inl (MissingSeq i)"
    let ?n = "length items"
    show False
    proof (cases "translate_loop ?n items (replicate ?n zeroOperation) (replicate ?n False)")
      case (Inl e)
      then have "e = MissingSeq i" using err by (simp add: translateRequest_def)
      with Inl show False using translate_loop_no_missing by blast
    next
      case (Inr r)
      then obtain ops seen where "translate_loop ?n items (replicate ?n zeroOperation) (replicate ?n False) = Inr (ops, seen)"
        by (cases r) simp
      from err this translate_loop_full(1) [OF this lt] show False by (simp add: translateRequest_def)
    qed
  qed
  show "\<forall>ops. translateRequest items = Inr ops \<longrightarrow> (\<exists>r. Build ops = Inr r)"
    using translateRequest_Inr [OF lt] translates_valid_batch [OF _ assms] Build_ok_iff by blast
qed

theorem translated_request_builds_witness:
  "\<exists>r. Build example_batch = Inr r"
proof -
  have "translateRequest example_items = Inr example_batch"
    using translateRequest_Inr [of example_items example_batch] example_translates by (simp add: example_length)
  then show ?thesis using translated_request_builds [of example_items 0] by (simp add: example_length)
qed

text \<open>
  Operation names are read back in any case and with surrounding blanks: the name that
  \<^verbatim>\<open>OperationType.String\<close> prints for a type, in upper, lower or mixed case and padded with
  ASCII white space, is parsed as that type.
\<close>

theorem parseOperationType_round_trip:
  assumes "known_type t" "map upper_char body = map of_char (OperationType_String t)"
    and "\<forall>c \<in> set (pre @ post). c \<in> set [CHR '' '', CHR 0x09, CHR 0x0A, CHR 0x0D]"
  shows "parseOperationType (pre @ body @ post) = Inr t"
  using assms by (rule parse_padded)

theorem parseOperationType_round_trip_witness: "parseOperationType '' dElete '' = Inr OpDelete"
  using parseOperationType_round_trip [of OpDelete "''dElete''" "'' ''" "'' ''"]
  by (simp add: known_type_def OperationType_String_def upper_char_def)

text \<open>
  A name outside ASCII is accepted.  \<^verbatim>\<open>strings.ToUpper\<close> maps the dotless i (\<^verbatim>\<open>U+0131\<close>) to
  the letter I, so a name that is none of READ, WRITE, DELETE in any ASCII case is a WRITE.
\<close>

theorem dotless_i_is_write:
  "parseOperationType (''wr'' @ [CHR 0xC4, CHR 0xB1] @ ''te'') = Inr OpWrite"
  by (simp add: parseOperationType_def runes_def TrimSpace_def IsSpace_def ToUpper_def ascii_def cont_def)

text \<open>
  The configuration the server runs with.  Every limit of a constructed server is
  positive, so a batch has at least one worker whatever the host, and values that were
  positive are kept.
\<close>

theorem NewServer_defaults:
  "0 < WorkerCount (NewServer cfg) \<and> 0 < BatchTimeout (NewServer cfg) \<and> 0 < ReadTimeout (NewServer cfg)
    \<and> 0 < WriteTimeout (NewServer cfg) \<and> 0 < IdleTimeout (NewServer cfg) \<and> 0 < MaxBodyBytes (NewServer cfg)
    \<and> NewServer (NewServer cfg) = NewServer cfg \<and> Addr (NewServer cfg) = Addr cfg
    \<and> NewConcurrentWorkerPool numCPU (WorkerCount (NewServer cfg)) =
        (if 0 < WorkerCount cfg then nat (WorkerCount cfg) else 8)"
  by (simp add: NewServer_def orDefault_def second_def NewConcurrentWorkerPool_def)

text \<open>
  Immediate answers of the handler.  A body that does not decode and a request that does
  not translate are answered 400, an empty request 200 with no items; every other request
  starts a run, since the graph is always built.
\<close>

theorem handleBatch_immediate:
  assumes "\<forall>items. body = Inr items \<longrightarrow> length items \<le> 2 ^ 63"
  shows "case body of
      Inl e \<Rightarrow> handleBatch_start numCPU cfg st c body = Inl (WriteError 400 (Wrap ''invalid JSON body'' e))
    | Inr items \<Rightarrow>
        (if items = [] then handleBatch_start numCPU cfg st c body = Inl (WriteJSON 200 [])
         else (case translateRequest items of
             Inl e \<Rightarrow> handleBatch_start numCPU cfg st c body = Inl (WriteError 400 e)
           | Inr ops \<Rightarrow> \<exists>s. handleBatch_start numCPU cfg st c body = Inr s))"
proof (cases body)
  case (Inr items)
  then have lt: "length items < 2 ^ 64" "length items \<le> 2 ^ 63" using assms by auto
  have "\<exists>h a r. Build ops = Inr (h, a, r)" if "translateRequest items = Inr ops" for ops
    using that translateRequest_Inr [OF lt(1)] translates_valid_batch [OF _ lt(2)] Build_ok_iff [of ops] by (metis surj_pair)
  then show ?thesis using Inr by (fastforce simp: handleBatch_start_def split: sum.splits)
qed (simp add: handleBatch_start_def)

theorem handleBatch_immediate_witness:
  "\<exists>s. handleBatch_start 1 example_config () None (Inr example_items) = Inr s"
proof -
  have "translateRequest example_items = Inr example_batch"
    using translateRequest_Inr [of example_items example_batch] example_translates by (simp add: example_length)
  moreover have "example_items \<noteq> []" by (simp add: example_items_def)
  ultimately show ?thesis
    using handleBatch_immediate [of "Inr example_items" 1 example_config "()" None] by (simp add: example_length)
qed

end
