(* ===== verification/Rider_Table.thy ===== *)
theory Rider_Table
  imports Postgres Pool_Serial
begin

text \<open>
  The table \<^verbatim>\<open>active_rider_tracking\<close> of \<^verbatim>\<open>src/schema.sql\<close> and the three SQL statements of
  \<^verbatim>\<open>src/postgres_storage.go\<close> over it, so that the PostgreSQL engine can be composed with the
  worker pool.  PostgreSQL's own reading and printing of the type \<^verbatim>\<open>UUID\<close> are the parameters
  \<open>uuid_in\<close> and \<open>uuid_out\<close>; the values that \<^verbatim>\<open>now()\<close> returns to successive statements are an
  arbitrary sequence, part of the state.  A row is identified by the UUID, while the
  dependency graph is built over the key strings.
\<close>

section \<open>The table\<close>

record 'u rider_row =
  row_order :: 'u
  row_lat :: float64
  row_lng :: float64
  row_status :: string
  row_eta :: int64
  row_updated :: int

record 'u rider_db =
  rows :: "'u \<rightharpoonup> 'u rider_row"
  now_at :: "nat \<Rightarrow> int"
  stmts :: nat

text \<open>
  The order of \<^verbatim>\<open>DOUBLE PRECISION\<close> on bit patterns: sign and magnitude.  A NaN has a
  magnitude above infinity and is outside every range.
\<close>

definition float_ord :: "float64 \<Rightarrow> int" where
  "float_ord b = (let m = int (unat (take_bit 63 b)) in if bit b 63 then - m else m)"

definition lat_ok :: "float64 \<Rightarrow> bool" where
  "lat_ok b \<longleftrightarrow> \<bar>float_ord b\<bar> \<le> float_ord 0x4056800000000000"

definition lng_ok :: "float64 \<Rightarrow> bool" where
  "lng_ok b \<longleftrightarrow> \<bar>float_ord b\<bar> \<le> float_ord 0x4066800000000000"

definition int32_ok :: "int64 \<Rightarrow> bool" where
  "int32_ok w \<longleftrightarrow> - (2 ^ 31) \<le> sint w \<and> sint w < 2 ^ 31"

text \<open>The \<^verbatim>\<open>CHECK\<close> constraints.\<close>

definition row_check :: "'u rider_row \<Rightarrow> bool" where
  "row_check r \<longleftrightarrow> lat_ok (row_lat r) \<and> lng_ok (row_lng r)
     \<and> row_status r \<in> set [''AT_VENDOR'', ''EN_ROUTE'', ''ARRIVED'', ''DELIVERED'']
     \<and> 0 \<le> sint (row_eta r) \<and> int32_ok (row_eta r)"

section \<open>The statements\<close>

definition row_record :: "('u \<Rightarrow> string) \<Rightarrow> 'u rider_row \<Rightarrow> RiderRecord" where
  "row_record uuid_out r =
     \<lparr>OrderID = uuid_out (row_order r), Latitude = row_lat r, Longitude = row_lng r,
      CurrentStatus = row_status r, ETAMinutes = row_eta r, UpdatedAt = row_updated r\<rparr>"

definition next_stmt :: "'u rider_db \<Rightarrow> 'u rider_db" where
  "next_stmt d = d\<lparr>stmts := Suc (stmts d)\<rparr>"

definition getQuery ::
  "(string \<Rightarrow> 'u option) \<Rightarrow> ('u \<Rightarrow> string) \<Rightarrow> ctx_err \<Rightarrow> string \<Rightarrow> 'u rider_db \<Rightarrow> 'u rider_db \<times> query_result" where
  "getQuery uuid_in uuid_out c key d =
     (case c of Some e \<Rightarrow> (d, QueryError e)
      | None \<Rightarrow>
          (next_stmt d,
           case uuid_in key of
             None \<Rightarrow> QueryError (External ''invalid input syntax for type uuid'')
           | Some u \<Rightarrow>
               (case rows d u of None \<Rightarrow> NoRows | Some r \<Rightarrow> Row (row_record uuid_out r))))"

definition setQuery ::
  "(string \<Rightarrow> 'u option) \<Rightarrow> ctx_err \<Rightarrow> string \<Rightarrow> string \<Rightarrow> float64 \<Rightarrow> float64 \<Rightarrow> string \<Rightarrow> int64
     \<Rightarrow> 'u rider_db \<Rightarrow> 'u rider_db \<times> error option" where
  "setQuery uuid_in c key order_id lat lng status eta d =
     (case c of Some e \<Rightarrow> (d, Some e)
      | None \<Rightarrow>
          (case (uuid_in key, uuid_in order_id) of
             (Some u, Some ord) \<Rightarrow>
               (let r = \<lparr>row_order = ord, row_lat = lat, row_lng = lng, row_status = status,
                         row_eta = eta, row_updated = now_at d (stmts d)\<rparr>
                in if row_check r then (next_stmt (d\<lparr>rows := (rows d)(u \<mapsto> r)\<rparr>), None)
                   else (next_stmt d, Some (External ''constraint violation'')))
           | _ \<Rightarrow> (next_stmt d, Some (External ''invalid input syntax for type uuid''))))"

definition deleteQuery ::
  "(string \<Rightarrow> 'u option) \<Rightarrow> ctx_err \<Rightarrow> string \<Rightarrow> 'u rider_db \<Rightarrow> 'u rider_db \<times> error option" where
  "deleteQuery uuid_in c key d =
     (case c of Some e \<Rightarrow> (d, Some e)
      | None \<Rightarrow>
          (case uuid_in key of
             None \<Rightarrow> (next_stmt d, Some (External ''invalid input syntax for type uuid''))
           | Some u \<Rightarrow> (next_stmt (d\<lparr>rows := (rows d)(u := None)\<rparr>), None)))"

definition rider_stmts :: "(string \<Rightarrow> 'u option) \<Rightarrow> ('u \<Rightarrow> string) \<Rightarrow> 'u rider_db prepared" where
  "rider_stmts uuid_in uuid_out =
     \<lparr>getStmt = getQuery uuid_in uuid_out, setStmt = setQuery uuid_in, deleteStmt = deleteQuery uuid_in\<rparr>"

abbreviation rider_engine :: "(string \<Rightarrow> 'u option) \<Rightarrow> ('u \<Rightarrow> string) \<Rightarrow> ('u rider_db, go_value) StorageEngine" where
  "rider_engine uuid_in uuid_out \<equiv> PostgresStorageEngine (rider_stmts uuid_in uuid_out)"

lemmas stmt_defs = getQuery_def setQuery_def deleteQuery_def next_stmt_def

lemma rider_stmts_simps [simp]:
  "getStmt (rider_stmts uuid_in uuid_out) = getQuery uuid_in uuid_out"
  "setStmt (rider_stmts uuid_in uuid_out) = setQuery uuid_in"
  "deleteStmt (rider_stmts uuid_in uuid_out) = deleteQuery uuid_in"
  by (simp_all add: rider_stmts_def)

lemma PostgresStorageEngine_simps [simp]:
  "se_Get (PostgresStorageEngine p) = pg_Get p" "se_Set (PostgresStorageEngine p) = pg_Set p"
  "se_Delete (PostgresStorageEngine p) = pg_Delete p"
  by (simp_all add: PostgresStorageEngine_def)

section \<open>The engine as a keyed store\<close>

definition rider_invar :: "'u rider_db \<Rightarrow> bool" where
  "rider_invar d \<longleftrightarrow> (\<forall>u r. rows d u = Some r \<longrightarrow> row_check r)"

text \<open>What a key shows of the table, without the time of the last write.\<close>

definition rider_view :: "(string \<Rightarrow> 'u option) \<Rightarrow> 'u rider_db \<Rightarrow> string \<Rightarrow> 'u rider_row option" where
  "rider_view uuid_in d key =
     (case uuid_in key of None \<Rightarrow> None | Some u \<Rightarrow> map_option (\<lambda>r. r\<lparr>row_updated := 0\<rparr>) (rows d u))"

definition canonical_keys :: "(string \<Rightarrow> 'u option) \<Rightarrow> ('u \<Rightarrow> string) \<Rightarrow> string set" where
  "canonical_keys uuid_in uuid_out = {k. \<forall>u. uuid_in k = Some u \<longrightarrow> k = uuid_out u}"

definition erase_time :: "go_value any \<Rightarrow> go_value any" where
  "erase_time v = (case v of Some (GoRiderRecord r) \<Rightarrow> Some (GoRiderRecord (r\<lparr>UpdatedAt := 0\<rparr>)) | _ \<Rightarrow> v)"

lemma canonical_inj:
  "k \<in> canonical_keys uuid_in uuid_out \<Longrightarrow> k' \<in> canonical_keys uuid_in uuid_out \<Longrightarrow>
     uuid_in k = Some u \<Longrightarrow> uuid_in k' = Some u \<Longrightarrow> k = k'"
  by (simp add: canonical_keys_def)

lemma pg_Set_rows:
  assumes "pg_Set (rider_stmts uuid_in uuid_out) c k v d = (d', e)"
  shows "rows d' = rows d \<or> (\<exists>u r. uuid_in k = Some u \<and> row_check r \<and> rows d' = (rows d)(u \<mapsto> r))"
  using assms
  by (auto simp: pg_Set_def setQuery_def next_stmt_def Let_def split: sum.splits if_splits option.splits)

lemma pg_Delete_rows:
  assumes "pg_Delete (rider_stmts uuid_in uuid_out) c k d = (d', e)"
  shows "rows d' = rows d \<or> (\<exists>u. uuid_in k = Some u \<and> rows d' = (rows d)(u := None))"
  using assms by (auto simp: pg_Delete_def deleteQuery_def next_stmt_def split: option.splits)

lemma pg_Get_rows:
  assumes "pg_Get (rider_stmts uuid_in uuid_out) c k d = (d', r)"
  shows "rows d' = rows d"
  using assms by (auto simp: pg_Get_def getQuery_def next_stmt_def split: option.splits)

lemma rider_invar_rows: "rows d' = rows d \<Longrightarrow> rider_invar d' = rider_invar d"
  by (simp add: rider_invar_def)

text \<open>Every statement keeps the constraints of the table, whatever the state of the context.\<close>

lemma rider_invar_update:
  assumes "rider_invar d" "rows d' = (rows d)(u := x)" "\<And>r. x = Some r \<Longrightarrow> row_check r"
  shows "rider_invar d'"
  using assms by (auto simp: rider_invar_def)

lemma rider_invar_ops:
  assumes inv: "rider_invar d"
  shows "pg_Get (rider_stmts uuid_in uuid_out) c k d = (d', r) \<Longrightarrow> rider_invar d'"
    and "pg_Set (rider_stmts uuid_in uuid_out) c k v d = (d', e) \<Longrightarrow> rider_invar d'"
    and "pg_Delete (rider_stmts uuid_in uuid_out) c k d = (d', e) \<Longrightarrow> rider_invar d'"
proof -
  show "rider_invar d'" if "pg_Get (rider_stmts uuid_in uuid_out) c k d = (d', r)"
    using pg_Get_rows [OF that] inv rider_invar_rows by blast
  show "rider_invar d'" if "pg_Set (rider_stmts uuid_in uuid_out) c k v d = (d', e)"
    using pg_Set_rows [OF that]
  proof (elim disjE exE conjE)
    fix u r assume r: "row_check r" "rows d' = (rows d)(u \<mapsto> r)"
    show ?thesis by (rule rider_invar_update [OF inv r(2)]) (use r(1) in simp)
  qed (use inv rider_invar_rows in blast)
  show "rider_invar d'" if "pg_Delete (rider_stmts uuid_in uuid_out) c k d = (d', e)"
    using pg_Delete_rows [OF that]
  proof (elim disjE exE conjE)
    fix u assume u: "rows d' = (rows d)(u := None)"
    show ?thesis by (rule rider_invar_update [OF inv u]) simp
  qed (use inv rider_invar_rows in blast)
qed

lemma rider_view_other:
  assumes "k \<in> canonical_keys uuid_in uuid_out" "k' \<in> canonical_keys uuid_in uuid_out" "k' \<noteq> k"
    and "uuid_in k = Some u" "rows d' = (rows d)(u := x)"
  shows "rider_view uuid_in d' k' = rider_view uuid_in d k'"
  using canonical_inj [OF assms(1,2,4)] assms(3,5) by (auto simp: rider_view_def split: option.split)

lemma rider_view_rows: "rows d' = rows d \<Longrightarrow> rider_view uuid_in d' = rider_view uuid_in d"
  by (rule ext) (simp add: rider_view_def split: option.split)

lemma erase_time_record [simp]:
  "erase_time (Some (GoRiderRecord (row_record uuid_out r)))
     = Some (GoRiderRecord (row_record uuid_out (r\<lparr>row_updated := 0\<rparr>)))"
  by (simp add: erase_time_def row_record_def)

lemma erase_time_None [simp]: "erase_time None = None"
  by (simp add: erase_time_def)

lemma pg_Get_view:
  "map_prod erase_time id (snd (pg_Get (rider_stmts uuid_in uuid_out) None k d)) =
     (case uuid_in k of
        None \<Rightarrow> (None, False, Some (Wrap (''khaos: get rider '' @ k) (External ''invalid input syntax for type uuid'')))
      | Some u \<Rightarrow> (case rider_view uuid_in d k of None \<Rightarrow> (None, False, None)
                     | Some r \<Rightarrow> (Some (GoRiderRecord (row_record uuid_out r)), True, None)))"
  by (simp add: pg_Get_def getQuery_def rider_view_def split: option.split)

text \<open>The row that a write of an accepted value leaves, or the error, depends only on the arguments.\<close>

definition update_row :: "(string \<Rightarrow> 'u option) \<Rightarrow> int \<Rightarrow> RiderUpdate \<Rightarrow> 'u rider_row option" where
  "update_row uuid_in t u = map_option (\<lambda>ord. \<lparr>row_order = ord, row_lat = Latitude u, row_lng = Longitude u,
     row_status = CurrentStatus u, row_eta = ETAMinutes u, row_updated = t\<rparr>) (uuid_in (OrderID u))"

lemma setQuery_update_row:
  "setQuery uuid_in None k (OrderID u) (Latitude u) (Longitude u) (CurrentStatus u) (ETAMinutes u) d =
     (case (uuid_in k, update_row uuid_in (now_at d (stmts d)) u) of
        (Some i, Some r) \<Rightarrow> if row_check r then (next_stmt (d\<lparr>rows := (rows d)(i \<mapsto> r)\<rparr>), None)
          else (next_stmt d, Some (External ''constraint violation''))
      | _ \<Rightarrow> (next_stmt d, Some (External ''invalid input syntax for type uuid'')))"
  by (simp add: setQuery_def update_row_def Let_def split: option.split)

lemma update_row_time:
  assumes "update_row uuid_in t u = Some r"
  shows "update_row uuid_in t' u = Some (r\<lparr>row_updated := t'\<rparr>)" "row_check (r\<lparr>row_updated := t'\<rparr>) = row_check r"
  using assms by (auto simp: update_row_def row_check_def)

lemma setQuery_local:
  fixes u :: RiderUpdate
  assumes "rider_view uuid_in s k = rider_view uuid_in t k"
  shows "snd (setQuery uuid_in None k (OrderID u) (Latitude u) (Longitude u) (CurrentStatus u) (ETAMinutes u) s)
      = snd (setQuery uuid_in None k (OrderID u) (Latitude u) (Longitude u) (CurrentStatus u) (ETAMinutes u) t)
    \<and> rider_view uuid_in (fst (setQuery uuid_in None k (OrderID u) (Latitude u) (Longitude u) (CurrentStatus u) (ETAMinutes u) s)) k
      = rider_view uuid_in (fst (setQuery uuid_in None k (OrderID u) (Latitude u) (Longitude u) (CurrentStatus u) (ETAMinutes u) t)) k"
proof (cases "uuid_in k")
  case None
  then show ?thesis by (simp add: setQuery_update_row rider_view_def)
next
  case (Some i)
  show ?thesis
  proof (cases "update_row uuid_in (now_at s (stmts s)) u")
    case None
    then have "update_row uuid_in (now_at t (stmts t)) u = None" by (simp add: update_row_def)
    with None Some assms show ?thesis by (simp add: setQuery_update_row rider_view_def next_stmt_def)
  next
    case row: (Some r)
    note r = row update_row_time [OF row, of "now_at t (stmts t)"]
    show ?thesis
      using Some r assms by (simp add: setQuery_update_row rider_view_def next_stmt_def)
  qed
qed

lemma pg_Set_local:
  assumes "rider_view uuid_in s k = rider_view uuid_in t k"
  shows "snd (pg_Set (rider_stmts uuid_in uuid_out) None k v s) = snd (pg_Set (rider_stmts uuid_in uuid_out) None k v t)
    \<and> rider_view uuid_in (fst (pg_Set (rider_stmts uuid_in uuid_out) None k v s)) k
      = rider_view uuid_in (fst (pg_Set (rider_stmts uuid_in uuid_out) None k v t)) k"
proof (cases "asRiderUpdate v")
  case (Inr u)
  then show ?thesis using setQuery_local [OF assms, of u] assms by (auto simp: pg_Set_def split: prod.splits)
qed (use assms in \<open>simp add: pg_Set_def\<close>)

interpretation rider: khaos_engine Build "rider_engine uuid_in uuid_out" rider_invar "rider_view uuid_in"
    "canonical_keys uuid_in uuid_out" erase_time
  for uuid_in :: "string \<Rightarrow> 'u option" and uuid_out :: "'u \<Rightarrow> string"
proof (unfold_locales, goal_cases)
  case (1 s k s' r)
  then have "pg_Get (rider_stmts uuid_in uuid_out) None k s = (s', r)" by simp
  then have "rows s' = rows s" by (rule pg_Get_rows)
  then show ?case using 1(1) rider_invar_rows rider_view_rows by metis
next
  case (2 s t k)
  then show ?case unfolding PostgresStorageEngine_simps pg_Get_view by (simp only: split: option.split)
next
  case (3 s k v s' e)
  then have set: "pg_Set (rider_stmts uuid_in uuid_out) None k v s = (s', e)" by simp
  show ?case using pg_Set_rows [OF set]
  proof (elim disjE exE conjE)
    fix u r assume "uuid_in k = Some u" "rows s' = (rows s)(u \<mapsto> r)"
    then show ?thesis
      using rider_invar_ops(2) [OF 3(1) set] rider_view_other [OF 3(2)] by blast
  qed (use rider_invar_ops(2) [OF 3(1) set] rider_view_rows in metis)
next
  case (4 s t k v)
  then show ?case using pg_Set_local by simp
next
  case (5 s k s' e)
  then have del: "pg_Delete (rider_stmts uuid_in uuid_out) None k s = (s', e)" by simp
  show ?case using pg_Delete_rows [OF del]
  proof (elim disjE exE conjE)
    fix u assume "uuid_in k = Some u" "rows s' = (rows s)(u := None)"
    then show ?thesis
      using rider_invar_ops(3) [OF 5(1) del] rider_view_other [OF 5(2)] by blast
  qed (use rider_invar_ops(3) [OF 5(1) del] rider_view_rows in metis)
next
  case (6 s t k)
  then show ?case
    by (simp add: pg_Delete_def deleteQuery_def next_stmt_def rider_view_def split: option.split)
qed

section \<open>Properties\<close>


definition example_uuid :: "string \<Rightarrow> nat option" where
  "example_uuid s = (if s \<in> set [''1a'', ''1A''] then Some 26 else if s = ''2b'' then Some 43 else None)"

definition example_uuid_out :: "nat \<Rightarrow> string" where
  "example_uuid_out n = (if n = 26 then ''1a'' else ''2b'')"

definition empty_db :: "nat rider_db" where
  "empty_db = \<lparr>rows = Map.empty, now_at = int, stmts = 5\<rparr>"


end
