(* ===== verification/Batch.thy ===== *)
theory Batch
  imports Server Rider_Table
begin

text \<open>
  A batch from request to answer: the run that the handler starts satisfies the pool's
  invariants, and the facts about it that hold for every storage engine (order of
  execution, completion, bounds) as well as those for the in-memory store.
\<close>

section \<open>The run started by the handler\<close>

lemma handleBatch_start_Inr:
  assumes "handleBatch_start numCPU cfg st c body = Inr s0"
  obtains items ops h all_nodes runnable where "body = Inr items" "items \<noteq> []"
    "translateRequest items = Inr ops" "Build ops = Inr (h, all_nodes, runnable)"
    "s0 = Run_start (NewConcurrentWorkerPool numCPU (WorkerCount cfg)) h runnable st
       (Some (Drain NewInOrderReorderBuffer (int (length ops)))) c"
proof -
  from assms obtain items ops h all_nodes runnable where *: "body = Inr items" "items \<noteq> []"
    "translateRequest items = Inr ops" "Build ops = Inr (h, all_nodes, runnable)"
    "s0 = Run_start (NewConcurrentWorkerPool numCPU (WorkerCount cfg)) h runnable st
       (Some (Drain NewInOrderReorderBuffer (int (length all_nodes)))) c"
    by (auto simp: handleBatch_start_def split: sum.splits if_splits prod.splits)
  then show thesis using that Build_facts(2) [OF *(4)] by simp
qed

section \<open>Execution order\<close>

text \<open>
  With or without cancellation, a node has been executed only if its predecessors have, its
  state label has not moved, and it differs from the operation submitted at most in
  \<^verbatim>\<open>Result\<close> and \<^verbatim>\<open>Err\<close>, and in these only once it has been executed.
\<close>

definition op_fields :: "('v, 'z) Operation_scheme \<Rightarrow> uint64 \<times> string \<times> OperationType \<times> 'v any" where
  "op_fields op = (SeqID op, Key op, Type op, Value op)"

definition order_ok :: "'v heap \<Rightarrow> ('s, 'v) pool \<Rightarrow> bool" where
  "order_ok h0 s \<longleftrightarrow> preds_executed h0 (set (executed s))
     \<and> (\<forall>i < length h0. state (heap s ! i) = StatePending)
     \<and> (\<forall>i < length h0. op_fields (operation_of (heap s ! i)) = op_fields (operation_of (h0 ! i))
          \<and> (i \<notin> set (executed s) \<longrightarrow> operation_of (heap s ! i) = operation_of (h0 ! i)))"

lemma order_ok_step:
  assumes inv: "pool_inv h0 s" and ok: "order_ok h0 s" and step: "pool_step eng e s = Some s'"
  shows "order_ok h0 s'"
proof (cases "\<exists>w n. e = Worker w Proceed \<and> w < length (workers s) \<and> workers s ! w = Execute n")
  case True
  then obtain w n where e: "e = Worker w Proceed" and w: "w < length (workers s)" "workers s ! w = Execute n"
    by blast
  obtain st node where ex: "executeNode eng (ctx s) (store s) (heap s ! n) = (st, node)"
    and s': "heap s' = (heap s)[n := node]" "executed s' = executed s @ [n]"
    using pool_step_exec [OF step [unfolded e] w] by metis
  have sched: "sched_inv h0 s" using inv by (simp add: pool_inv_def)
  have preds: "preds_executed h0 (set (executed s'))"
    using ok pend_zero_preds [OF execute_ready(3) [OF sched w]]
    unfolding order_ok_def preds_executed_def s' by auto
  have "state node = state (heap s ! n)" using ex by simp
  moreover have "n < length (heap s)" using execute_ready(1) [OF sched w] sched_invD(1) [OF sched] by simp
  moreover have "op_fields (operation_of node) = op_fields (operation_of (heap s ! n))"
    using executeNode_frame [OF ex] by (simp add: op_fields_def)
  ultimately have "state (heap s' ! i) = state (heap s ! i)"
    "op_fields (operation_of (heap s' ! i)) = op_fields (operation_of (heap s ! i))" for i
    unfolding s' by (cases "i = n"; simp)+
  moreover have "heap s' ! i = heap s ! i" "i \<notin> set (executed s)" if "i \<notin> set (executed s')" for i
    using that by (auto simp: s')
  ultimately show ?thesis using ok preds unfolding order_ok_def by metis
next
  case False
  with pool_step_quiet [OF inv step] ok show ?thesis by (simp add: order_ok_def)
qed

lemma batch_reach:
  assumes b: "Build ops = Inr (h, all_nodes, runnable)"
    and reach: "pool_reach eng (Run_start nw h runnable st (Some (Drain NewInOrderReorderBuffer (int (length ops)))) c) s"
  shows "pool_inv h s" "order_ok h s" "exit_inv s" "length (workers s) = (if ops = [] then 0 else nw)"
proof -
  let ?s0 = "Run_start nw h runnable st (Some (Drain NewInOrderReorderBuffer (int (length ops)))) c"
  have inv0: "pool_inv h ?s0" by (rule seq_resolver.build_pool_inv [OF b])
  show "exit_inv s" using exit_inv_reach [OF reach] .
  have len: "length h = length ops" "length (reachableNodes h runnable) = length ops"
    using Build_facts(1) [OF b] seq_resolver.reachable_all(2) [OF b] .
  have ok0: "order_ok h ?s0" using Build_facts(5) [OF b] len by (simp add: order_ok_def preds_executed_def)
  have "pool_inv h s \<and> order_ok h s \<and> length (workers s) = (if ops = [] then 0 else nw)"
    using reach
  proof (induction rule: pool_reach.induct)
    case start
    show ?case using inv0 ok0 len by simp
  next
    case (step s e s')
    then show ?case using pool_inv_step order_ok_step pool_step_workers by metis
  qed
  then show "pool_inv h s" "order_ok h s" "length (workers s) = (if ops = [] then 0 else nw)" by blast+
qed

lemma executed_conflicts:
  assumes "Build ops = Inr (h, all_nodes, runnable)" "order_ok h s"
    and "i < j" "j < length ops" "conflict (ops ! i) (ops ! j)" "j \<in> set (executed s)"
  shows "i \<in> set (executed s)"
  using preds_executed_trancl [OF _ seq_resolver.build_orders [OF assms(1,3-5)] assms(6)] assms(2)
  by (simp add: order_ok_def)

text \<open>What has been delivered, cancelled or not: a prefix of the batch, in sequence order.\<close>

lemma pool_inv_received:
  assumes "pool_inv h0 s"
  shows "length (received s) \<le> length h0"
    and "i < length (received s) \<Longrightarrow> received s ! i = operation_of (heap s ! i) \<and> SeqID (received s ! i) = of_nat i"
    and "drain s = DrainClosed \<Longrightarrow> length (received s) = length h0"
    and "i < length (received s) \<Longrightarrow> i \<in> set (executed s)"
proof -
  from assms obtain m P where rel: "rob_rel (ops_of s) (length h0) (committed s) m P s"
    and seq: "\<And>i. i < length h0 \<Longrightarrow> SeqID (heap s ! i) = of_nat i"
    unfolding pool_inv_def order_inv_def by blast
  then have m: "received s = map (ops_of s) [0..<m]" "{..<m} \<subseteq> committed s" "committed s \<subseteq> {..<length h0}"
    "drain s = DrainClosed \<longrightarrow> m = length h0"
    unfolding rob_rel_def by blast+
  have le: "m \<le> length h0" using m(2,3) by (metis lessThan_subset_iff order.trans)
  then show "length (received s) \<le> length h0" using m(1) by simp
  show "drain s = DrainClosed \<Longrightarrow> length (received s) = length h0" using m(1,4) by simp
  show "received s ! i = operation_of (heap s ! i) \<and> SeqID (received s ! i) = of_nat i" if "i < length (received s)"
    using that le seq [of i] m(1) by simp
  show "i \<in> set (executed s)" if "i < length (received s)"
    using that m(1,2) unfolding committed_def by auto
qed

section \<open>Invariants of the store\<close>

text \<open>A property of the store that every storage call keeps holds throughout a run.\<close>

lemma pool_step_store:
  assumes "pool_step eng e s = Some s'"
  shows "store s' = store s \<or> (\<exists>n node. executeNode eng (ctx s) (store s) (heap s ! n) = (store s', node))"
proof (cases e)
  case (Worker w b)
  then have "worker_step eng w b (workers s ! w) s = Some s'" using assms by (simp split: if_splits)
  then show ?thesis
    by (cases "(eng, w, b, workers s ! w, s)" rule: worker_step.cases)
      (auto simp: Let_def split: list.splits option.splits prod.splits if_splits)
qed (use assms in \<open>auto simp: consumer_step_def split: if_splits branch.splits option.splits\<close>)

lemma executeNode_store:
  assumes "executeNode eng c st node = (st', node')"
  shows "st' = st \<or> (\<exists>k r. se_Get eng c k st = (st', r)) \<or> (\<exists>k v err. se_Set eng c k v st = (st', err))
    \<or> (\<exists>k err. se_Delete eng c k st = (st', err))"
  using assms by (auto simp: executeNode_def split: prod.splits option.splits if_splits)

lemma pool_reach_store:
  assumes reach: "pool_reach eng s0 s" and start: "P (store s0)"
    and ops: "\<And>c k st st' r. P st \<Longrightarrow> se_Get eng c k st = (st', r) \<Longrightarrow> P st'"
      "\<And>c k v st st' err. P st \<Longrightarrow> se_Set eng c k v st = (st', err) \<Longrightarrow> P st'"
      "\<And>c k st st' err. P st \<Longrightarrow> se_Delete eng c k st = (st', err) \<Longrightarrow> P st'"
  shows "P (store s)"
  using reach
proof (induction rule: pool_reach.induct)
  case (step s e s')
  from pool_step_store [OF step.hyps(2)] show ?case
  proof (elim disjE exE)
    fix n node assume "executeNode eng (ctx s) (store s) (heap s ! n) = (store s', node)"
    from executeNode_store [OF this] step.IH ops show ?thesis by metis
  qed (use step.IH in simp)
qed (rule start)

text \<open>
  Apart from the results of the nodes, a run does not depend on the store: neither the invariants nor what is
  enabled looks at it.  So they also hold of runs that share a store.
\<close>

lemma store_irrelevant [simp]:
  "pool_inv h (s\<lparr>store := st\<rparr>) = pool_inv h s" "order_ok h (s\<lparr>store := st\<rparr>) = order_ok h s"
  "exit_inv (s\<lparr>store := st\<rparr>) = exit_inv s" "fuel h (s\<lparr>store := st\<rparr>) = fuel h s"
  "Run_return (s\<lparr>store := st\<rparr>) = Run_return s"
  by (simp_all add: pool_inv_def sched_inv_def tick_def pend_def order_inv_def rob_rel_def committed_def
      unpub_def order_ok_def exit_inv_def fuel_def Run_return_def)

lemma handleBatch_finish_store [simp]: "handleBatch_finish (s\<lparr>store := st\<rparr>) = handleBatch_finish s"
  by (simp add: handleBatch_finish_def split: drain_pc.split option.split)

lemma worker_step_enabled: "worker_step eng w b p (s\<lparr>store := st\<rparr>) = None \<longleftrightarrow> worker_step eng w b p s = None"
  by (cases "(eng, w, b, p, s)" rule: worker_step.cases)
    (auto simp: Let_def split: list.splits option.splits prod.splits if_splits)

lemma pool_step_enabled: "pool_step eng e (s\<lparr>store := st\<rparr>) = None \<longleftrightarrow> pool_step eng e s = None"
proof (cases e)
  case (Consumer b)
  then show ?thesis by (auto simp: consumer_step_def split: branch.split option.split)
qed (simp_all add: worker_step_enabled)

lemma quiescent_store [simp]: "quiescent eng (s\<lparr>store := st\<rparr>) = quiescent eng s"
  by (simp only: quiescent_def pool_step_enabled)

text \<open>Keys, types and the number of nodes stay, and the history only grows.\<close>

lemma pool_step_fields:
  assumes inv: "pool_inv h s" and step: "pool_step eng e s = Some s'"
  shows "length (heap s') = length (heap s)" "set (executed s) \<subseteq> set (executed s')"
    and "\<And>i. i < length (heap s) \<Longrightarrow> Key (heap s' ! i) = Key (heap s ! i) \<and> Type (heap s' ! i) = Type (heap s ! i)"
proof -
  have len: "length (heap s) = length h" "length (heap s') = length h"
    using inv pool_inv_step [OF inv step] sched_invD(1) by (auto simp: pool_inv_def)
  then show "length (heap s') = length (heap s)" by simp
  have "set (executed s) \<subseteq> set (executed s') \<and>
    (\<forall>i < length h. Key (heap s' ! i) = Key (heap s ! i) \<and> Type (heap s' ! i) = Type (heap s ! i))"
  proof (cases "\<exists>w n. e = Worker w Proceed \<and> w < length (workers s) \<and> workers s ! w = Execute n")
    case True
    then obtain w n where e: "e = Worker w Proceed" and w: "w < length (workers s)" "workers s ! w = Execute n"
      by blast
    obtain st node where ex: "executeNode eng (ctx s) (store s) (heap s ! n) = (st, node)"
      and s': "heap s' = (heap s)[n := node]" "executed s' = executed s @ [n]"
      using pool_step_exec [OF step [unfolded e] w] by metis
    have "Key (heap s' ! i) = Key (heap s ! i) \<and> Type (heap s' ! i) = Type (heap s ! i)" if "i < length h" for i
      using executeNode_frame [OF ex] that len by (cases "i = n") (simp_all add: s')
    then show ?thesis by (auto simp: s')
  next
    case False
    with pool_step_quiet [OF inv step] show ?thesis by (metis operation_of_simps(2,3) order_refl)
  qed
  then show "set (executed s) \<subseteq> set (executed s')"
    "\<And>i. i < length (heap s) \<Longrightarrow> Key (heap s' ! i) = Key (heap s ! i) \<and> Type (heap s' ! i) = Type (heap s ! i)"
    using len by simp_all
qed


section \<open>Completion\<close>

definition no_cancel :: "event \<Rightarrow> bool" where
  "no_cancel e \<longleftrightarrow> (case e of Cancel c \<Rightarrow> False | _ \<Rightarrow> True)"

lemma pool_run_ctx: "pool_run eng es s = Some s' \<Longrightarrow> list_all no_cancel es \<Longrightarrow> ctx s' = ctx s"
proof (induction es arbitrary: s)
  case (Cons e es)
  then obtain s1 where s1: "pool_step eng e s = Some s1" "pool_run eng es s1 = Some s'"
    by (auto split: option.splits)
  have "ctx s1 = ctx s" using s1(1) Cons.prems(2)
    by (cases e) (auto simp: consumer_step_def no_cancel_def worker_step_ctx
        split: if_splits branch.splits option.splits)
  with Cons.IH [OF s1(2)] Cons.prems(2) show ?case by simp
qed simp

text \<open>A consumer that has left its loop does not come back.\<close>

lemma pool_run_drain: "pool_run eng es s = Some s' \<Longrightarrow> drain s \<noteq> Draining \<Longrightarrow> drain s' = drain s"
proof (induction es arbitrary: s)
  case (Cons e es)
  then obtain s1 where s1: "pool_step eng e s = Some s1" "pool_run eng es s1 = Some s'"
    by (auto split: option.splits)
  have "drain s1 = drain s" using s1(1) Cons.prems(2)
    by (cases e) (auto simp: consumer_step_def worker_step_ctx split: if_splits)
  with Cons.IH [OF s1(2)] Cons.prems(2) show ?case by simp
qed simp

lemma run_to_quiescent:
  assumes "pool_inv h0 s"
  shows "\<exists>es s'. pool_run eng es s = Some s' \<and> list_all no_cancel es \<and> quiescent eng s'"
  using assms
proof (induction "fuel h0 s" arbitrary: s rule: less_induct)
  case less
  show ?case
  proof (cases "quiescent eng s")
    case True
    then show ?thesis by (intro exI [of _ "[]"] exI [of _ s]) simp
  next
    case False
    then obtain e s1 where e: "pool_step eng e s = Some s1" "no_cancel e"
      unfolding quiescent_def no_cancel_def by (metis event.case(1,2) not_Some_eq)
    from less.hyps [OF fuel_step [OF less.prems e(1)] pool_inv_step [OF less.prems e(1)]]
    obtain es s' where "pool_run eng es s1 = Some s'" "list_all no_cancel es" "quiescent eng s'" by blast
    with e show ?thesis by (intro exI [of _ "e # es"] exI [of _ s']) simp
  qed
qed

lemma rob_work_start [simp]: "rob_work (Some (Drain NewInOrderReorderBuffer n)) = 0"
  by (simp add: rob_work_def Drain_def NewInOrderReorderBuffer_def Let_def)

lemma fuel_start:
  assumes b: "Build ops = Inr (h, all_nodes, runnable)"
  shows "fuel h (Run_start nw h runnable st (Some (Drain NewInOrderReorderBuffer (int (length ops)))) c)
    \<le> 12 * length ops + 2 * nw + 2"
proof -
  have "node_work h {} = 8 * length ops + 2 * (\<Sum>i < length ops. length (filter (hazard ops i) [0..<length ops]))"
    using Build_facts(1,5) [OF b] by (simp add: node_work_def sum.distrib sum_distrib_left)
  also have "\<dots> \<le> 12 * length ops" using hazard_edge_count [of ops] by simp
  finally have nodes: "node_work h {} \<le> 12 * length ops" .
  have "wsum work (replicate nw Select) = 2 * nw" by (simp add: wsum_def sum_list_replicate)
  then show ?thesis using nodes by (simp add: fuel_def wsum_def)
qed

section \<open>The handler and its run\<close>

text \<open>The invariants of a run, for the state from which the handler starts it.\<close>

lemma handler_run:
  assumes start: "handleBatch_start numCPU cfg st c (Inr items) = Inr s0"
    and reach: "pool_reach eng s0 s"
  obtains ops h all_nodes runnable where "translateRequest items = Inr ops"
    "Build ops = Inr (h, all_nodes, runnable)" "ops \<noteq> []" "length h = length ops"
    "s0 = Run_start (NewConcurrentWorkerPool numCPU (WorkerCount cfg)) h runnable st
       (Some (Drain NewInOrderReorderBuffer (int (length ops)))) c"
    "pool_inv h s" "order_ok h s" "exit_inv s" "0 < numCPU \<Longrightarrow> workers s \<noteq> []"
proof -
  obtain ops h all_nodes runnable where *: "items \<noteq> []" "translateRequest items = Inr ops"
    "Build ops = Inr (h, all_nodes, runnable)"
    "s0 = Run_start (NewConcurrentWorkerPool numCPU (WorkerCount cfg)) h runnable st
       (Some (Drain NewInOrderReorderBuffer (int (length ops)))) c"
    using start by (rule handleBatch_start_Inr) auto
  note inv = batch_reach [OF *(3) reach [unfolded *(4)]]
  have "ops \<noteq> []" using translateRequest_length [OF *(2)] *(1) by auto
  moreover have "0 < NewConcurrentWorkerPool numCPU (WorkerCount cfg)" if "0 < numCPU"
    using that by (simp add: NewConcurrentWorkerPool_def)
  then have "workers s \<noteq> []" if "0 < numCPU" using inv(4) that \<open>ops \<noteq> []\<close> by auto
  ultimately show thesis using that *(2-4) inv Build_facts(1) [OF *(3)] by blast
qed

lemma handler_starts:
  assumes "items \<noteq> []" "translateRequest items = Inr ops" "length items \<le> 2 ^ 63"
  shows "\<exists>s0. handleBatch_start numCPU cfg st c (Inr items) = Inr s0"
proof -
  have "translates items ops" using assms translateRequest_Inr [of items ops] by simp
  then obtain h a r where "Build ops = Inr (h, a, r)"
    using translates_valid_batch [OF _ assms(3)] Build_ok_iff [of ops] by (metis surj_pair)
  then show ?thesis using assms(1,2) by (simp add: handleBatch_start_def)
qed

lemma handler_quiescent:
  assumes start: "handleBatch_start numCPU cfg st c (Inr items) = Inr s0"
  shows "\<exists>s. pool_reach eng s0 s \<and> quiescent eng s \<and> ctx s = c"
proof -
  have reach: "pool_reach eng s0 s0" by (rule pool_reach.start)
  obtain h where "pool_inv h s0" by (rule handler_run [OF start reach])
  then obtain es s where es: "pool_run eng es s0 = Some s" "list_all no_cancel es" "quiescent eng s"
    using run_to_quiescent by blast
  have "ctx s0 = c" using start by (rule handleBatch_start_Inr) simp
  then show ?thesis using pool_run_ctx [OF es(1,2)] es(3) pool_run_reach [OF es(1) reach] by auto
qed

section \<open>Runs over the table\<close>

text \<open>
  For keys in PostgreSQL's own spelling the table is a keyed store, so a run over it is
  serializable like one over the in-memory store, up to the time stamps.
\<close>

lemma rider_run_serial:
  assumes start: "handleBatch_start numCPU cfg d None (Inr items) = Inr s0"
    and cpu: "0 < numCPU" and inv: "rider_invar d" and size: "length items \<le> 2 ^ 63"
    and keys: "\<forall>item \<in> set items. req_RiderID item \<in> canonical_keys uuid_in uuid_out"
    and reach: "pool_reach (rider_engine uuid_in uuid_out) s0 s"
    and final: "quiescent (rider_engine uuid_in uuid_out) s" "ctx s = None"
  shows "\<exists>ops rs. translateRequest items = Inr ops \<and> handleBatch_finish s = Some (WriteJSON 200 (map response_item rs))
    \<and> map (norm_op erase_time) rs = map (norm_op erase_time) (snd (runSequential (rider_engine uuid_in uuid_out) d ops))
    \<and> (\<forall>k \<in> canonical_keys uuid_in uuid_out. rider_view uuid_in (store s) k
          = rider_view uuid_in (fst (runSequential (rider_engine uuid_in uuid_out) d ops)) k)"
proof -
  obtain ops h all_nodes runnable where tr: "translateRequest items = Inr ops"
    and b: "Build ops = Inr (h, all_nodes, runnable)" and len: "length h = length ops"
    and s0: "s0 = Run_start (NewConcurrentWorkerPool numCPU (WorkerCount cfg)) h runnable d
       (Some (Drain NewInOrderReorderBuffer (int (length ops)))) None"
    and pool: "pool_inv h s" "exit_inv s" "workers s \<noteq> []"
    using handler_run [OF start reach] cpu by metis
  have "Key (ops ! i) \<in> canonical_keys uuid_in uuid_out" if i: "i < length ops" for i
  proof -
    have "translates items ops" using tr translateRequest_Inr [of items ops] size by simp
    then obtain item where "item \<in> set items" "translate_item item = Inr (ops ! i)"
      using translates_nth [OF _ i] by blast
    then show ?thesis using keys translate_item_Inr(2) by metis
  qed
  then have bk: "batch_keys (canonical_keys uuid_in uuid_out) ops" by (simp add: batch_keys_def)
  note ser = rider.serial_final [OF b inv bk reach [unfolded s0] final(2)]
  note fin = quiescent_final [OF pool(1,2) final(1) pool(3)]
  have done_all: "length (executed s) = length ops" "drain s = DrainClosed" "Run_return s = Some None"
    using fin(1,3) final(2) len by auto
  have "handleBatch_finish s = Some (WriteJSON 200 (map response_item (received s)))"
    using done_all(2,3) by (simp add: handleBatch_finish_def)
  with tr ser(1) [OF done_all(2)] ser(2) [OF done_all(1)] show ?thesis by blast
qed

text \<open>Writes that succeed echo their values.\<close>

lemma writes_echo_seq:
  "\<forall>p \<in> set ops. Type p = OpWrite \<and> (\<forall>d. snd (se_Set eng None (Key p) (Value p) d) = None)
    \<Longrightarrow> snd (runSequential eng d ops) = map (\<lambda>p. p\<lparr>Result := Value p\<rparr>) ops"
proof (induction ops arbitrary: d)
  case (Cons p ops)
  obtain d' where set: "se_Set eng None (Key p) (Value p) d = (d', None)"
    using Cons.prems by (metis list.set_intros(1) prod.collapse)
  have "executeNode eng None d p = (d', p\<lparr>Result := Value p\<rparr>)"
    using Cons.prems set by (simp add: executeNode_def)
  then show ?case using Cons by (simp split: prod.split) (metis snd_conv)
qed simp

lemma norm_echo:
  assumes "map (norm_op erase_time) rs = map (\<lambda>p. p\<lparr>Result := Value p\<rparr>) ops"
    and "\<forall>p \<in> set ops. \<exists>u. Value p = Some (GoRiderUpdate u)"
  shows "rs = map (\<lambda>p. p\<lparr>Result := Value p\<rparr>) ops"
proof -
  have "r = p\<lparr>Result := Value p\<rparr>" if "norm_op erase_time r = p\<lparr>Result := Value p\<rparr>" "Value p = Some (GoRiderUpdate u)" for r p u
  proof -
    have "erase_time (Result r) = Some (GoRiderUpdate u)" using arg_cong [OF that(1), of Result] that(2) by (simp add: norm_op_def)
    then have "Result r = Some (GoRiderUpdate u)" by (auto simp: erase_time_def split: option.splits go_value.splits)
    then have "norm_op erase_time r = r" by (simp add: norm_op_def erase_time_def)
    then show ?thesis using that(1) by simp
  qed
  then have "norm_op erase_time r = p\<lparr>Result := Value p\<rparr> \<Longrightarrow> r = p\<lparr>Result := Value p\<rparr>" if "p \<in> set ops" for r p
    using assms(2) that by blast
  with assms(1) show ?thesis
  proof (induction ops arbitrary: rs)
    case (Cons p ops)
    then show ?case by (cases rs) auto
  qed simp
qed

end
