(* ===== verification/Example_Batch.thy ===== *)
theory Example_Batch
  imports Batch
begin

text \<open>
  A request of two items (a write and a read of the same rider, sent out of order), its
  translation, its graph and the start of its run, computed; and engines of one state
  that answer every call, or refuse every write.  The witnesses of the properties use them.
\<close>

section \<open>A concrete request\<close>

definition demo_update :: RiderUpdate where
  "demo_update = \<lparr>OrderID = ''o1'', Latitude = 0, Longitude = 0, CurrentStatus = ''EN_ROUTE'', ETAMinutes = 7\<rparr>"

definition demo_items :: "BatchRequestItem list" where
  "demo_items =
     [\<lparr>req_SeqID = 1, req_OperationType = '' read '', req_RiderID = ''r1'', req_Payload = None\<rparr>,
      \<lparr>req_SeqID = 0, req_OperationType = ''Write'', req_RiderID = ''r1'', req_Payload = Some demo_update\<rparr>]"

definition demo_ops :: "go_value Operation list" where
  "demo_ops =
     [\<lparr>SeqID = 0, Key = ''r1'', Type = OpWrite, Value = Some (GoRiderUpdate demo_update), Result = None, Err = None\<rparr>,
      \<lparr>SeqID = 1, Key = ''r1'', Type = OpRead, Value = None, Result = None, Err = None\<rparr>]"

definition demo_config :: ServerConfig where
  "demo_config = NewServer \<lparr>Addr = '':8080'', WorkerCount = 0, BatchTimeout = 0, ReadTimeout = 0,
     WriteTimeout = 0, IdleTimeout = 0, MaxBodyBytes = 0\<rparr>"

lemma demo_names: "parseOperationType '' read '' = Inr OpRead" "parseOperationType ''Write'' = Inr OpWrite"
  by (simp_all add: parseOperationType_def runes_def TrimSpace_def IsSpace_def ToUpper_def ascii_def)

lemma demo_translate: "translateRequest demo_items = Inr demo_ops"
  by (simp add: translateRequest_def translate_item_def demo_items_def demo_names Let_def
      word_le_nat_alt demo_ops_def zeroOperation_def)

definition demo_heap :: "go_value heap" where
  "demo_heap = [(NewDAGNode (demo_ops ! 0))\<lparr>dependents := [1]\<rparr>, (NewDAGNode (demo_ops ! 1))\<lparr>inDegree := 1\<rparr>]"

lemma demo_build: "Build demo_ops = Inr (demo_heap, [0, 1], [0])"
  by (simp add: Build_def build_init_def build_step_def demo_ops_def demo_heap_def addDependencies_def
      AddDependency_def Let_def InDegree_def upt_rec op_type_defs NewDAGNode_def Operation.extend_def)

lemma demo_nodes: "reachableNodes demo_heap [0] = [0, 1]"
  by (simp add: reachableNodes_def bfs.simps Dependents_def demo_heap_def)

abbreviation demo_state :: "'s \<Rightarrow> ctx_err \<Rightarrow> ('s, go_value) pool" where
  "demo_state st c \<equiv> Run_start 8 demo_heap [0] st (Some (Drain NewInOrderReorderBuffer 2)) c"

lemma demo_start: "handleBatch_start 4 demo_config st c (Inr demo_items) = Inr (demo_state st c)"
proof -
  have "demo_items \<noteq> []" by (simp add: demo_items_def)
  moreover have "NewConcurrentWorkerPool 4 (WorkerCount demo_config) = 8"
    by (simp add: demo_config_def NewServer_def orDefault_def NewConcurrentWorkerPool_def)
  ultimately show ?thesis by (simp add: handleBatch_start_def demo_translate demo_build)
qed

section \<open>Runs\<close>

text \<open>A state in which nothing is left to do, reached without cancellation.\<close>

lemma demo_run:
  obtains s where "pool_reach eng (demo_state st None) s" "quiescent eng s" "ctx s = None"
  using handler_quiescent [OF demo_start, of eng st None] that by blast

definition null_engine :: "(unit, go_value) StorageEngine" where
  "null_engine = \<lparr>se_Get = (\<lambda>c k s. (s, None, False, None)), se_Set = (\<lambda>c k v s. (s, None)),
     se_Delete = (\<lambda>c k s. (s, None))\<rparr>"

definition failing_engine :: "(unit, go_value) StorageEngine" where
  "failing_engine = null_engine\<lparr>se_Set := (\<lambda>c k v s. (s, Some (External ''connection refused'')))\<rparr>"

lemmas run_eval = goto_def executeNode_def decInDegree_def closeDone_def rob_insert_def rob_take_def
  rob_sent_def Drain_def NewInOrderReorderBuffer_def NewDAGNode_def Operation.extend_def
  operation_of_def Operation.truncate_def null_engine_def failing_engine_def consumer_step_def
  demo_ops_def demo_heap_def Let_def eval_nat_numeral

text \<open>The first worker executes the write and holds the read, ready to enqueue it.\<close>

lemma demo_dispatch:
  "\<exists>s. pool_run null_engine (replicate 8 (Worker 0 Proceed)) (demo_state () None) = Some s
    \<and> 0 < length (workers s) \<and> workers s ! 0 = Dispatch [1]"
  unfolding Run_start_def demo_nodes by (simp add: run_eval)

text \<open>The write fails; one worker then executes the read as well and delivers both.\<close>

lemma demo_failing:
  "\<exists>s. pool_run failing_engine (replicate 17 (Worker 0 Proceed)) (demo_state () None) = Some s
    \<and> executed s = [0, 1] \<and> map Err (received s) = [Some (External ''connection refused''), None]"
  unfolding Run_start_def demo_nodes by (simp add: run_eval)

lemma demo_failing_reach:
  obtains s where "pool_reach failing_engine (demo_state () None) s" "executed s = [0, 1]"
    "length (received s) = 2" "map Err (received s) = [Some (External ''connection refused''), None]"
proof -
  obtain s where s: "pool_run failing_engine (replicate 17 (Worker 0 Proceed)) (demo_state () None) = Some s"
    "executed s = [0, 1]" "map Err (received s) = [Some (External ''connection refused''), None]"
    using demo_failing by (elim exE conjE)
  have "length (map Err (received s)) = 2" unfolding s(3) by simp
  then show thesis using that [OF pool_run_reach [OF s(1) pool_reach.start] s(2) _ s(3)] by simp
qed

lemma demo_items_length [simp]: "length demo_items = 2"
  by (simp add: demo_items_def)

section \<open>Two names for one row\<close>

text \<open>
  Two writes whose keys are different strings; the run has two workers, and the one that
  took the second write executes first.
\<close>

definition alias_update :: "string \<Rightarrow> string \<Rightarrow> RiderUpdate" where
  "alias_update order status =
     \<lparr>OrderID = order, Latitude = 0, Longitude = 0, CurrentStatus = status, ETAMinutes = 0\<rparr>"

definition alias_items :: "string \<Rightarrow> string \<Rightarrow> string \<Rightarrow> BatchRequestItem list" where
  "alias_items k1 k2 order =
     [\<lparr>req_SeqID = 0, req_OperationType = ''WRITE'', req_RiderID = k1, req_Payload = Some (alias_update order ''EN_ROUTE'')\<rparr>,
      \<lparr>req_SeqID = 1, req_OperationType = ''WRITE'', req_RiderID = k2, req_Payload = Some (alias_update order ''ARRIVED'')\<rparr>]"

definition alias_ops :: "string \<Rightarrow> string \<Rightarrow> string \<Rightarrow> go_value Operation list" where
  "alias_ops k1 k2 order =
     [\<lparr>SeqID = 0, Key = k1, Type = OpWrite, Value = Some (GoRiderUpdate (alias_update order ''EN_ROUTE'')), Result = None, Err = None\<rparr>,
      \<lparr>SeqID = 1, Key = k2, Type = OpWrite, Value = Some (GoRiderUpdate (alias_update order ''ARRIVED'')), Result = None, Err = None\<rparr>]"

definition alias_heap :: "string \<Rightarrow> string \<Rightarrow> string \<Rightarrow> go_value heap" where
  "alias_heap k1 k2 order = map NewDAGNode (alias_ops k1 k2 order)"

lemma alias_translate:
  assumes "k1 \<noteq> []" "k2 \<noteq> []"
  shows "translateRequest (alias_items k1 k2 order) = Inr (alias_ops k1 k2 order)"
proof -
  have "parseOperationType ''WRITE'' = Inr OpWrite"
    by (simp add: parseOperationType_def runes_def TrimSpace_def IsSpace_def ToUpper_def ascii_def)
  then show ?thesis
    using assms by (simp add: translateRequest_def translate_item_def alias_items_def alias_ops_def Let_def
        word_le_nat_alt zeroOperation_def)
qed

lemma alias_build:
  assumes "k1 \<noteq> k2"
  shows "Build (alias_ops k1 k2 order) = Inr (alias_heap k1 k2 order, [0, 1], [0, 1])"
  using assms by (simp add: Build_def build_init_def build_step_def alias_ops_def alias_heap_def addDependencies_def
      Let_def InDegree_def upt_rec)

lemma alias_start:
  assumes "k1 \<noteq> []" "k2 \<noteq> []" "k1 \<noteq> k2"
  shows "handleBatch_start numCPU (demo_config\<lparr>WorkerCount := 2\<rparr>) d None (Inr (alias_items k1 k2 order)) =
    Inr (Run_start 2 (alias_heap k1 k2 order) [0, 1] d (Some (Drain NewInOrderReorderBuffer 2)) None)"
proof -
  have "alias_items k1 k2 order \<noteq> []" by (simp add: alias_items_def)
  then show ?thesis
    using alias_translate [OF assms(1,2)] alias_build [OF assms(3)]
    by (simp add: handleBatch_start_def NewConcurrentWorkerPool_def)
qed

lemma alias_nodes: "reachableNodes (alias_heap k1 k2 order) [0, 1] = [0, 1]"
  by (simp add: reachableNodes_def bfs.simps Dependents_def alias_heap_def alias_ops_def)

definition alias_schedule :: "event list" where
  "alias_schedule = [Worker 0 Proceed, Worker 1 Proceed, Worker 1 Proceed, Worker 0 Proceed]"

lemma alias_run:
  "\<exists>s. pool_run eng alias_schedule (Run_start 2 (alias_heap k1 k2 order) [0, 1] d (Some (Drain NewInOrderReorderBuffer 2)) None) = Some s
    \<and> executed s = [1, 0]
    \<and> store s = fst (se_Set eng None k1 (Value (alias_ops k1 k2 order ! 0)) (fst (se_Set eng None k2 (Value (alias_ops k1 k2 order ! 1)) d)))"
proof -
  obtain d1 e1 where set1: "se_Set eng None k2 (Value (alias_ops k1 k2 order ! 1)) d = (d1, e1)" by (metis surj_pair)
  obtain d2 e2 where set2: "se_Set eng None k1 (Value (alias_ops k1 k2 order ! 0)) d1 = (d2, e2)" by (metis surj_pair)
  have eval: "se_Set eng None k2 (Some (GoRiderUpdate (alias_update order ''ARRIVED''))) d = (d1, e1)"
    "se_Set eng None k1 (Some (GoRiderUpdate (alias_update order ''EN_ROUTE''))) d1 = (d2, e2)"
    using set1 set2 by (simp_all add: alias_ops_def)
  show ?thesis
    unfolding set1 fst_conv set2 Run_start_def alias_nodes alias_schedule_def
    by (cases e1; cases e2)
      (simp_all add: eval goto_def executeNode_def alias_heap_def alias_ops_def Let_def eval_nat_numeral)
qed

lemma alias_sequential:
  "fst (runSequential eng d (alias_ops k1 k2 order)) =
     fst (se_Set eng None k2 (Value (alias_ops k1 k2 order ! 1)) (fst (se_Set eng None k1 (Value (alias_ops k1 k2 order ! 0)) d)))"
proof -
  obtain d1 e1 where set1: "se_Set eng None k1 (Some (GoRiderUpdate (alias_update order ''EN_ROUTE''))) d = (d1, e1)"
    by (metis surj_pair)
  obtain d2 e2 where set2: "se_Set eng None k2 (Some (GoRiderUpdate (alias_update order ''ARRIVED''))) d1 = (d2, e2)"
    by (metis surj_pair)
  show ?thesis by (cases e1; cases e2) (simp_all add: alias_ops_def executeNode_def set1 set2)
qed

lemma alias_set:
  assumes "uuid_in k = Some u" "uuid_in order = Some ord" "status \<in> set validRiderStatuses"
  shows "map_option row_status (rows (fst (pg_Set (rider_stmts uuid_in uuid_out) None k
      (Some (GoRiderUpdate (alias_update order status))) d)) u) = Some status"
proof -
  have "accepted (Some (GoRiderUpdate (alias_update order status))) (alias_update order status)"
    using assms(3) by (simp add: accepted_def alias_update_def)
  moreover have "status \<in> set [''AT_VENDOR'', ''EN_ROUTE'', ''ARRIVED'', ''DELIVERED'']"
    using assms(3) by (simp add: validRiderStatuses_def)
  ultimately show ?thesis
    using assms(1,2) by (simp add: pg_Set_accepted setQuery_def next_stmt_def alias_update_def row_check_def lat_ok_def
        lng_ok_def float_ord_def int32_ok_def Let_def)
qed

end
