(* ===== verification/Lifecycle.thy ===== *)
theory Lifecycle
  imports Server
begin

text \<open>
  The life of the server around its handler: \<^verbatim>\<open>withMaxBody\<close>, \<^verbatim>\<open>Run\<close> and \<^verbatim>\<open>Shutdown\<close> of
  \<^verbatim>\<open>src/server.go\<close>.  What \<^verbatim>\<open>net/http\<close> and the statements answer is the record
  \<open>serve_world\<close>; the result of an operation is its error and the trace of what it did to the
  outside, in order.
\<close>

section \<open>The limit on the request body\<close>

text \<open>
  \<^verbatim>\<open>http.MaxBytesReader\<close> hands out at most \<open>limit\<close> bytes and then fails, unless the body ends
  there.  \<open>decode\<close> is the JSON decoder, which sees these bytes and the error that follows them.
\<close>

definition MaxBytesReader :: "int \<Rightarrow> string \<Rightarrow> string \<times> error option" where
  "MaxBytesReader limit body =
     (if int (length body) \<le> max 0 limit then (body, None) else (take (nat limit) body, Some BodyTooLarge))"

definition withMaxBody ::
  "(string \<times> error option \<Rightarrow> error + BatchRequestItem list) \<Rightarrow> int \<Rightarrow> (error + BatchRequestItem list \<Rightarrow> 'a) \<Rightarrow> string \<Rightarrow> 'a" where
  "withMaxBody decode limit next body = next (decode (MaxBytesReader limit body))"

section \<open>Start and graceful shutdown\<close>

datatype action =
    OpenDB string
  | ConfigureDB int int int
  | CloseDB
  | StopSignals
  | CancelSetup
  | PrepareStmt stmt
  | CloseStmt stmt
  | ListenAndServe string
  | HttpShutdown int

text \<open>
  \<open>serve_first\<close> is the error of \<^verbatim>\<open>ListenAndServe\<close> if the \<^verbatim>\<open>select\<close> of \<^verbatim>\<open>Run\<close> takes that case, and
  \<open>None\<close> if it takes \<^verbatim>\<open>ctx.Done()\<close>; \<open>serve_after\<close> is what the channel holds after the shutdown.
\<close>

record serve_world =
  serve_first :: "error option"
  shutdown_err :: "error option"
  close_err :: "stmt \<Rightarrow> error option"
  serve_after :: "error option"

text \<open>The dynamic type of the engine, which \<^verbatim>\<open>Shutdown\<close> tests.\<close>

datatype storage_type = ShardedMapStorage | PostgresStorage

definition Shutdown :: "storage_type \<Rightarrow> serve_world \<Rightarrow> int \<Rightarrow> error option \<times> action list" where
  "Shutdown storage w timeout =
     (case shutdown_err w of
        Some e \<Rightarrow> (Some (Wrap ''khaos: http server shutdown'' e), [HttpShutdown timeout])
      | None \<Rightarrow>
          if storage = PostgresStorage then
            (case pg_Close (close_err w) of (err, stmts) \<Rightarrow>
               (map_option (Wrap ''khaos: closing storage engine'') err, HttpShutdown timeout # map CloseStmt stmts))
          else (None, [HttpShutdown timeout]))"

definition Run :: "storage_type \<Rightarrow> ServerConfig \<Rightarrow> serve_world \<Rightarrow> error option \<times> action list" where
  "Run storage cfg w =
     (case serve_first w of
        Some err \<Rightarrow>
          (if errors_Is err ErrServerClosed then None else Some (Wrap ''khaos: http server error'' err),
           [ListenAndServe (Addr cfg)])
      | None \<Rightarrow>
          (case Shutdown storage w (10 * second) of
             (Some err, acts) \<Rightarrow> (Some (Wrap ''khaos: graceful shutdown failed'' err), ListenAndServe (Addr cfg) # acts)
           | (None, acts) \<Rightarrow>
               (case serve_after w of
                  Some err \<Rightarrow>
                    if \<not> errors_Is err ErrServerClosed
                    then (Some (Wrap ''khaos: http server error during shutdown'' err), ListenAndServe (Addr cfg) # acts)
                    else (None, ListenAndServe (Addr cfg) # acts)
                | None \<Rightarrow> (None, ListenAndServe (Addr cfg) # acts))))"

lemmas lifecycle_defs = Run_def Shutdown_def pg_Close_def

lemma Run_actions:
  "snd (Run storage cfg w) = ListenAndServe (Addr cfg) #
     (if serve_first w \<noteq> None then []
      else HttpShutdown (10 * second) #
        (if shutdown_err w = None \<and> storage = PostgresStorage
         then map CloseStmt [GetStmt, SetStmt, DeleteStmt] else []))"
  by (auto simp: lifecycle_defs Let_def split: option.splits)

section \<open>Properties\<close>

definition closed_cleanly :: "error option \<Rightarrow> bool" where
  "closed_cleanly r \<longleftrightarrow> (case r of None \<Rightarrow> True | Some e \<Rightarrow> errors_Is e ErrServerClosed)"

text \<open>
  How a server ends.  \<^verbatim>\<open>Run\<close> returns \<^verbatim>\<open>nil\<close> exactly when the listener stopped because the server
  was closed, or when after the cancellation the HTTP shutdown succeeded, every statement of a
  PostgreSQL engine was closed without error and the listener ended as closed.  The
  statements are closed, all three and once each, exactly when the context ended the server
  and the HTTP shutdown succeeded; after a listener error or a shutdown that times out they
  are left to the database handle.
\<close>

theorem Run_outcome:
  "(fst (Run storage cfg w) = None \<longleftrightarrow>
      (case serve_first w of
         Some e \<Rightarrow> errors_Is e ErrServerClosed
       | None \<Rightarrow> shutdown_err w = None \<and> closed_cleanly (serve_after w)
           \<and> (storage = PostgresStorage \<longrightarrow> (\<forall>s. close_err w s = None))))
    \<and> [s. CloseStmt s \<leftarrow> snd (Run storage cfg w)] =
        (if serve_first w = None \<and> shutdown_err w = None \<and> storage = PostgresStorage
         then [GetStmt, SetStmt, DeleteStmt] else [])"
proof -
  have all: "(\<forall>s. P s) \<longleftrightarrow> P GetStmt \<and> P SetStmt \<and> P DeleteStmt" for P
    by (metis stmt.exhaust)
  show ?thesis
    unfolding Run_actions
    by (auto simp: all closed_cleanly_def lifecycle_defs Let_def split: option.splits)
qed

theorem Run_outcome_witness:
  "fst (Run PostgresStorage example_config
      \<lparr>serve_first = None, shutdown_err = None, close_err = (\<lambda>_. None), serve_after = Some ErrServerClosed\<rparr>) = None"
  by (subst Run_outcome [THEN conjunct1]) (simp add: closed_cleanly_def)

end
