(* ===== verification/Go_Std.thy ===== *)
theory Go_Std
  imports Khaos_Prelude Complex_Main "HOL-Library.Log_Nat"
begin

text \<open>
  What the two command-line programs use of the Go standard library: decimal integers
  (\<^verbatim>\<open>strconv.Atoi\<close>, \<^verbatim>\<open>%d\<close>, \<^verbatim>\<open>%012d\<close>), the rounding of \<^verbatim>\<open>float64\<close> arithmetic, and
  \<^verbatim>\<open>time.ParseDuration\<close>.  Integers of type \<^verbatim>\<open>int\<close>, \<^verbatim>\<open>int64\<close> and \<^verbatim>\<open>time.Duration\<close> are integers
  of HOL with the range checks written out.
\<close>

section \<open>Decimal integers\<close>

definition is_digit :: "char \<Rightarrow> bool" where
  "is_digit c \<longleftrightarrow> 48 \<le> (of_char c :: nat) \<and> (of_char c :: nat) \<le> 57"

definition digit_val :: "char \<Rightarrow> nat" where
  "digit_val c = of_char c - 48"

definition digit_char :: "nat \<Rightarrow> char" where
  "digit_char d = char_of (48 + d)"

definition digits_val :: "nat \<Rightarrow> string \<Rightarrow> nat" where
  "digits_val n s = foldl (\<lambda>acc c. acc * 10 + digit_val c) n s"

fun show_nat :: "nat \<Rightarrow> string" where
  "show_nat n = (if n < 10 then [digit_char n] else show_nat (n div 10) @ [digit_char (n mod 10)])"

declare show_nat.simps [simp del]

definition show_int :: "int \<Rightarrow> string" where
  "show_int i = (if i < 0 then CHR ''-'' # show_nat (nat (- i)) else show_nat (nat i))"

text \<open>\<^verbatim>\<open>%0wd\<close> for a number that is not negative.\<close>

definition show_padded :: "nat \<Rightarrow> nat \<Rightarrow> string" where
  "show_padded w n = replicate (w - length (show_nat n)) CHR ''0'' @ show_nat n"

definition int64_range :: "int \<Rightarrow> bool" where
  "int64_range i \<longleftrightarrow> - (2 ^ 63) \<le> i \<and> i < 2 ^ 63"

text \<open>The sign that \<^verbatim>\<open>strconv\<close> and \<^verbatim>\<open>time\<close> accept in front of a number.\<close>

fun split_sign :: "string \<Rightarrow> bool \<times> string" where
  "split_sign [] = (False, [])"
| "split_sign (c # s) = (if c = CHR ''-'' then (True, s) else if c = CHR ''+'' then (False, s) else (False, c # s))"

definition Atoi :: "string \<Rightarrow> int option" where
  "Atoi s =
     (case split_sign s of (neg, ds) \<Rightarrow>
        if ds = [] \<or> \<not> list_all is_digit ds then None
        else let n = int (digits_val 0 ds); i = (if neg then - n else n)
             in if int64_range i then Some i else None)"

lemma digit_char_simps [simp]:
  assumes "d < 10"
  shows "is_digit (digit_char d)" "digit_val (digit_char d) = d"
  using assms by (simp_all add: is_digit_def digit_val_def digit_char_def)

lemma digits_val_append: "digits_val n (s @ t) = digits_val (digits_val n s) t"
  by (simp add: digits_val_def)

lemma show_nat_digits: "list_all is_digit (show_nat n) \<and> show_nat n \<noteq> [] \<and> digits_val 0 (show_nat n) = n"
proof (induction n rule: show_nat.induct)
  case (1 n)
  show ?case
  proof (cases "n < 10")
    case True
    then show ?thesis by (subst (1 2 3) show_nat.simps) (simp add: digits_val_def)
  next
    case False
    then show ?thesis using 1 by (subst (1 2 3) show_nat.simps) (simp add: digits_val_append, simp add: digits_val_def)
  qed
qed

lemma is_digit_not_sign: "is_digit c \<Longrightarrow> c \<noteq> CHR ''-'' \<and> c \<noteq> CHR ''+''"
  by (auto simp: is_digit_def)

lemma split_sign_digits: "list_all is_digit s \<Longrightarrow> split_sign s = (False, s)"
  by (cases s) (auto dest: is_digit_not_sign)

lemma Atoi_show_int:
  assumes "int64_range i"
  shows "Atoi (show_int i) = Some i"
  using assms show_nat_digits [of "nat i"] show_nat_digits [of "nat (- i)"]
  by (simp add: Atoi_def show_int_def split_sign_digits)

lemma Atoi_range: "Atoi s = Some i \<Longrightarrow> int64_range i"
  by (auto simp: Atoi_def Let_def split: prod.splits if_splits)

lemma digits_val_zeros: "digits_val 0 (replicate k CHR ''0'' @ s) = digits_val 0 s"
  by (induction k) (simp_all add: digits_val_def digit_val_def)

lemma show_padded_val: "digits_val 0 (show_padded w n) = n"
  unfolding show_padded_def digits_val_zeros using show_nat_digits [of n] by simp

lemma show_padded_inject: "show_padded w m = show_padded w n \<longleftrightarrow> m = n"
  by (metis show_padded_val)

lemma show_padded_digits: "list_all is_digit (show_padded w n)"
  using show_nat_digits [of n] by (auto simp: show_padded_def list_all_iff is_digit_def)

lemma show_nat_length: "n < 10 ^ Suc k \<Longrightarrow> length (show_nat n) \<le> Suc k"
proof (induction k arbitrary: n)
  case 0
  then show ?case by (subst show_nat.simps) simp
next
  case (Suc k)
  then have "n div 10 < 10 ^ Suc k" by auto
  from Suc.IH [OF this] show ?case by (subst show_nat.simps) simp
qed

lemma show_padded_length: "n < 10 ^ Suc k \<Longrightarrow> length (show_padded (Suc k) n) = Suc k"
  using show_nat_length [of n k] by (simp add: show_padded_def)

section \<open>Rounding of floating-point arithmetic\<close>

text \<open>
  The result of a \<^verbatim>\<open>float64\<close> operation is the exact result rounded to 53 significant bits,
  ties to even.  The exponent is unbounded here: no value of the programs comes near the
  limits of the format, neither the largest nor the smallest normal number.
\<close>

definition rne :: "rat \<Rightarrow> int" where
  "rne x = (let f = \<lfloor>x\<rfloor>; r = x - of_int f
            in if r < 1 / 2 \<or> r = 1 / 2 \<and> even f then f else f + 1)"

text \<open>The exponent of a positive number: \<open>2\<^sup>e \<le> x < 2\<^sup>e\<^sup>+\<^sup>1\<close>.\<close>

definition ilog2 :: "rat \<Rightarrow> int" where
  "ilog2 x = (if 1 \<le> x then int (floorlog 2 (nat \<lfloor>x\<rfloor>)) - 1 else - int (ceillog2 (nat \<lceil>1 / x\<rceil>)))"

definition ulp :: "rat \<Rightarrow> rat" where
  "ulp x = 2 powi (ilog2 x - 52)"

definition fl_pos :: "rat \<Rightarrow> rat" where
  "fl_pos x = of_int (rne (x / ulp x)) * ulp x"

definition fl :: "rat \<Rightarrow> rat" where
  "fl x = (if x = 0 then 0 else if x < 0 then - fl_pos (- x) else fl_pos x)"

lemma rne_bounds: "\<lfloor>x\<rfloor> \<le> rne x" "rne x \<le> \<lfloor>x\<rfloor> + 1"
  by (simp_all add: rne_def Let_def)

lemma rne_of_int [simp]: "rne (of_int i) = i"
  by (simp add: rne_def)

lemma rne_mono: "x \<le> y \<Longrightarrow> rne x \<le> rne y"
proof (cases "\<lfloor>x\<rfloor> = \<lfloor>y\<rfloor>")
  case False
  assume "x \<le> y"
  with False have "\<lfloor>x\<rfloor> + 1 \<le> \<lfloor>y\<rfloor>" using floor_mono [of x y] by linarith
  then show ?thesis using rne_bounds [of x] rne_bounds [of y] by linarith
qed (auto simp: rne_def Let_def)

lemma rne_dist: "\<bar>of_int (rne x) - x\<bar> \<le> 1 / 2"
proof -
  have "of_int \<lfloor>x\<rfloor> \<le> x" "x < of_int \<lfloor>x\<rfloor> + 1" by linarith+
  then show ?thesis by (auto simp: rne_def Let_def abs_le_iff)
qed

lemma rne_le_int: "x \<le> of_int i \<Longrightarrow> rne x \<le> i"
  using rne_mono [of x "of_int i"] by simp

lemma int_le_rne: "of_int i \<le> x \<Longrightarrow> i \<le> rne x"
  using rne_mono [of "of_int i" x] by simp

lemma powi_less_powi_iff: "(2::rat) powi a < 2 powi b \<longleftrightarrow> a < b"
  using power_int_strict_increasing [of a b "2::rat"] power_int_strict_increasing [of b a "2::rat"]
  by (cases a b rule: linorder_cases) auto

lemma ilog2_bounds:
  assumes "0 < x"
  shows "2 powi (ilog2 x) \<le> x" "x < 2 powi (ilog2 x + 1)"
proof -
  have "2 powi (ilog2 x) \<le> x \<and> x < 2 powi (ilog2 x + 1)"
  proof (cases "1 \<le> x")
    case True
    let ?n = "nat \<lfloor>x\<rfloor>"
    have n: "0 < ?n" using True by simp
    have "2 ^ (floorlog 2 ?n - 1) \<le> ?n \<and> ?n < 2 ^ floorlog 2 ?n" using n by (intro floorlog_bounds) simp_all
    then have b: "(2::rat) ^ (floorlog 2 ?n - 1) \<le> of_nat ?n" "of_nat ?n + 1 \<le> (2::rat) ^ floorlog 2 ?n"
      by (metis of_nat_le_iff of_nat_numeral of_nat_power, metis Suc_leI of_nat_Suc of_nat_le_iff of_nat_numeral of_nat_power add.commute)
    have nx: "(of_nat ?n :: rat) = of_int \<lfloor>x\<rfloor>" using True by simp
    have "floorlog 2 ?n \<noteq> 0" using n by (simp add: floorlog_eq_zero_iff)
    then have "ilog2 x = int (floorlog 2 ?n - 1)" using True by (simp add: ilog2_def)
    moreover have "ilog2 x + 1 = int (floorlog 2 ?n)" using True by (simp add: ilog2_def)
    ultimately show ?thesis
      using b unfolding nx by (simp only: power_int_of_nat) linarith
  next
    case False
    let ?n = "nat \<lceil>1 / x\<rceil>"
    have y: "1 < 1 / x" using False assms by simp
    then have n: "2 \<le> ?n" by linarith
    have nx: "(of_nat ?n :: rat) = of_int \<lceil>1 / x\<rceil>" using y by simp
    have "?n \<le> 2 ^ ceillog2 ?n" by (rule le_two_power_ceillog2)
    then have up: "of_int \<lceil>1 / x\<rceil> \<le> (2::rat) ^ ceillog2 ?n"
      unfolding nx [symmetric] by (metis of_nat_le_iff of_nat_numeral of_nat_power)
    have n0: "0 < ?n" using n by linarith
    have "\<not> ceillog2 ?n \<le> 0" unfolding ceillog2_le_iff [OF n0] power_0 using n by linarith
    then obtain k where k: "ceillog2 ?n = Suc k" by (cases "ceillog2 ?n") auto
    then have "2 ^ k < ?n" using ceillog2_le_iff [OF n0, of k] by linarith
    then have "2 ^ k < \<lceil>1 / x\<rceil>" by (simp only: zless_nat_eq_int_zless of_nat_power of_nat_numeral)
    then have "of_int (2 ^ k) < 1 / x" by (simp only: less_ceiling_iff)
    moreover have "1 / x \<le> 2 ^ Suc k" using up k by (metis ceiling_correct order_trans)
    moreover have "ilog2 x = - int (Suc k)" "ilog2 x + 1 = - int k" using False k by (simp_all add: ilog2_def)
    ultimately show ?thesis
      using assms by (simp only: power_int_minus power_int_of_nat) (simp add: field_simps)
  qed
  then show "2 powi (ilog2 x) \<le> x" "x < 2 powi (ilog2 x + 1)" by auto
qed


lemma powi_le_powi_iff: "(2::rat) powi a \<le> 2 powi b \<longleftrightarrow> a \<le> b"
  using powi_less_powi_iff [of b a] by linarith

lemma ilog2_unique:
  assumes "2 powi e \<le> x" "x < 2 powi (e + 1)"
  shows "ilog2 x = e"
proof -
  have "0 < x" using assms(1) zero_less_power_int [of "2::rat" e] by linarith
  note b = ilog2_bounds [OF this]
  have "(2::rat) powi e < 2 powi (ilog2 x + 1)" "(2::rat) powi (ilog2 x) < 2 powi (e + 1)" using assms b by linarith+
  then show ?thesis by (simp add: powi_less_powi_iff)
qed

lemma ulp_pos [simp]: "0 < ulp x"
  by (simp add: ulp_def)

lemma scaled_bounds:
  assumes "0 < x"
  shows "2 ^ 52 \<le> x / ulp x" "x / ulp x < 2 ^ 53"
proof -
  have "(2::rat) powi (ilog2 x) = 2 ^ 52 * ulp x" "(2::rat) powi (ilog2 x + 1) = 2 ^ 53 * ulp x"
    unfolding ulp_def power_int_diff power_int_add by (simp_all add: power_int_add power_int_diff)
  then show "2 ^ 52 \<le> x / ulp x" "x / ulp x < 2 ^ 53"
    using ilog2_bounds [OF assms] by (simp_all add: pos_le_divide_eq pos_divide_less_eq)
qed

lemma fl_pos_bounds:
  assumes "0 < x"
  shows "2 powi (ilog2 x) \<le> fl_pos x" "fl_pos x \<le> 2 powi (ilog2 x + 1)"
proof -
  have e: "(2::rat) powi (ilog2 x) = 2 ^ 52 * ulp x" "(2::rat) powi (ilog2 x + 1) = 2 ^ 53 * ulp x"
    unfolding ulp_def power_int_diff power_int_add by (simp_all add: power_int_add power_int_diff)
  have "2 ^ 52 \<le> rne (x / ulp x)" "rne (x / ulp x) \<le> 2 ^ 53"
    using scaled_bounds [OF assms] by (auto intro: int_le_rne rne_le_int)
  then have "(2 :: rat) ^ 52 \<le> of_int (rne (x / ulp x))" "of_int (rne (x / ulp x)) \<le> (2 :: rat) ^ 53"
    by (metis of_int_le_iff of_int_numeral of_int_power)+
  then show "2 powi (ilog2 x) \<le> fl_pos x" "fl_pos x \<le> 2 powi (ilog2 x + 1)"
    unfolding e fl_pos_def by (simp_all add: mult_right_mono less_imp_le)
qed

lemma fl_pos_mono:
  assumes "0 < x" "x \<le> y"
  shows "fl_pos x \<le> fl_pos y"
proof -
  have y: "0 < y" using assms by linarith
  have "(2::rat) powi (ilog2 x) < 2 powi (ilog2 y + 1)"
    using ilog2_bounds [OF assms(1)] ilog2_bounds [OF y] assms(2) by linarith
  then consider "ilog2 x = ilog2 y" | "ilog2 x + 1 \<le> ilog2 y" unfolding powi_less_powi_iff by linarith
  then show ?thesis
  proof cases
    case 1
    then have u: "ulp x = ulp y" by (simp add: ulp_def)
    have "rne (x / ulp x) \<le> rne (y / ulp y)" unfolding u by (rule rne_mono) (simp add: assms(2) divide_right_mono less_imp_le)
    then show ?thesis unfolding fl_pos_def u by (simp add: mult_right_mono less_imp_le)
  next
    case 2
    then have "(2::rat) powi (ilog2 x + 1) \<le> 2 powi (ilog2 y)" by (simp only: powi_le_powi_iff)
    then show ?thesis using fl_pos_bounds(2) [OF assms(1)] fl_pos_bounds(1) [OF y] by linarith
  qed
qed

lemma fl_pos_pos: "0 < x \<Longrightarrow> 0 < fl_pos x"
  using fl_pos_bounds(1) zero_less_power_int [of "2::rat"] by (meson less_le_trans zero_less_numeral)

lemma fl_mono: "x \<le> y \<Longrightarrow> fl x \<le> fl y"
  using fl_pos_mono [of x y] fl_pos_mono [of "- y" "- x"] fl_pos_pos [of y] fl_pos_pos [of "- x"]
  by (auto simp: fl_def)

lemma fl_neg: "fl (- x) = - fl x"
  by (simp add: fl_def)

lemma fl_pos_dist:
  shows "\<bar>fl_pos x - x\<bar> \<le> ulp x / 2"
proof -
  have "fl_pos x - x = (of_int (rne (x / ulp x)) - x / ulp x) * ulp x"
    using ulp_pos [of x] by (simp add: fl_pos_def left_diff_distrib del: ulp_pos)
  then have "\<bar>fl_pos x - x\<bar> = \<bar>of_int (rne (x / ulp x)) - x / ulp x\<bar> * ulp x"
    by (simp add: abs_mult less_imp_le)
  also have "\<dots> \<le> 1 / 2 * ulp x" using rne_dist [of "x / ulp x"] by (intro mult_right_mono) (simp_all add: less_imp_le)
  finally show ?thesis by simp
qed

lemma fl_pos_exact:
  assumes x: "x = of_int m * 2 powi k" and m: "0 < m" "m < 2 ^ 53"
  shows "fl_pos x = x"
proof -
  have pos: "0 < x" using m(1) unfolding x by simp
  have "(of_int m :: rat) < 2 ^ 53" using m(2) by (metis of_int_less_iff of_int_numeral of_int_power)
  then have "x < 2 powi (53 + k)" unfolding x by (simp add: power_int_add)
  then have "(2::rat) powi (ilog2 x) < 2 powi (53 + k)" using ilog2_bounds(1) [OF pos] by linarith
  then have "ilog2 x - 52 \<le> k" unfolding powi_less_powi_iff by linarith
  then obtain j where j: "k = ilog2 x - 52 + int j" by (metis zle_iff_zadd)
  have "(2::rat) powi k = ulp x * 2 ^ j"
    unfolding ulp_def by (subst j) (simp add: power_int_add)
  then have "x / ulp x = of_int (m * 2 ^ j)"
    using ulp_pos [of x] by (subst x) (simp del: ulp_pos)
  then show ?thesis unfolding fl_pos_def using ulp_pos [of x] by (simp only: rne_of_int) (simp add: field_simps del: ulp_pos)
qed

lemma fl_exact:
  assumes "x = of_int m * 2 powi k" and "\<bar>m\<bar> < 2 ^ 53"
  shows "fl x = x"
proof (cases "m = 0")
  case False
  consider "0 < m" | "0 < - m" using False by linarith
  then show ?thesis
  proof cases
    case 1
    then have "0 < x" unfolding assms(1) by simp
    then show ?thesis using fl_pos_exact [OF assms(1) 1] assms(2) by (simp add: fl_def)
  next
    case 2
    then have "x < 0" unfolding assms(1) by (simp add: mult_less_0_iff)
    then show ?thesis using fl_pos_exact [of "- x" "- m" k] 2 assms by (simp add: fl_def)
  qed
qed (simp add: assms fl_def)

lemma fl_of_int: "\<bar>i\<bar> < 2 ^ 53 \<Longrightarrow> fl (of_int i) = of_int i"
  by (rule fl_exact [of _ i 0]) simp_all


section \<open>Durations\<close>

text \<open>
  \<^verbatim>\<open>time.ParseDuration\<close>, as it is in Go 1.22: a sequence of decimal numbers with units, summed
  in a \<^verbatim>\<open>uint64\<close>.  Every error is \<open>None\<close>; the callers only test whether there is one.
\<close>

definition unitMap :: "string \<Rightarrow> nat option" where
  "unitMap u =
     (if u = ''ns'' then Some 1
      else if u = ''us'' \<or> u = [CHR 0xC2, CHR 0xB5] @ ''s'' \<or> u = [CHR 0xCE, CHR 0xBC] @ ''s'' then Some 1000
      else if u = ''ms'' then Some 1000000
      else if u = ''s'' then Some 1000000000
      else if u = ''m'' then Some 60000000000
      else if u = ''h'' then Some 3600000000000
      else None)"

fun leadingInt :: "nat \<Rightarrow> string \<Rightarrow> (nat \<times> string) option" where
  "leadingInt x [] = Some (x, [])"
| "leadingInt x (c # s) =
     (if \<not> is_digit c then Some (x, c # s)
      else if 2 ^ 63 div 10 < x then None
      else let x' = x * 10 + digit_val c in if 2 ^ 63 < x' then None else leadingInt x' s)"

fun leadingFraction :: "nat \<Rightarrow> nat \<Rightarrow> bool \<Rightarrow> string \<Rightarrow> nat \<times> nat \<times> string" where
  "leadingFraction x scale overflow [] = (x, scale, [])"
| "leadingFraction x scale overflow (c # s) =
     (if \<not> is_digit c then (x, scale, c # s)
      else if overflow \<or> (2 ^ 63 - 1) div 10 < x then leadingFraction x scale True s
      else let y = x * 10 + digit_val c
           in if 2 ^ 63 < y then leadingFraction x scale True s
              else leadingFraction y (scale * 10) False s)"

definition unit_char :: "char \<Rightarrow> bool" where
  "unit_char c \<longleftrightarrow> c \<noteq> CHR ''.'' \<and> \<not> is_digit c"

text \<open>The nanoseconds of the fraction \<open>f / scale\<close> of a unit, computed in \<^verbatim>\<open>float64\<close> and truncated.\<close>

definition fraction_ns :: "nat \<Rightarrow> nat \<Rightarrow> nat \<Rightarrow> nat" where
  "fraction_ns f scale unit = nat \<lfloor>fl (fl (of_nat f) * fl (of_nat unit / of_nat scale))\<rfloor>"

text \<open>One number with its unit: its nanoseconds and the rest of the string.\<close>

definition duration_unit :: "nat \<Rightarrow> nat \<Rightarrow> nat \<Rightarrow> string \<Rightarrow> (nat \<times> string) option" where
  "duration_unit v f scale s =
     (let u = takeWhile unit_char s; s' = dropWhile unit_char s
      in if u = [] then None
         else (case unitMap u of
             None \<Rightarrow> None
           | Some unit \<Rightarrow>
               if 2 ^ 63 div unit < v then None
               else let v' = v * unit + (if 0 < f then fraction_ns f scale unit else 0)
                    in if 0 < f \<and> 2 ^ 63 < v' then None else Some (v', s')))"

definition duration_part :: "string \<Rightarrow> (nat \<times> string) option" where
  "duration_part s =
     (if s = [] \<or> \<not> (hd s = CHR ''.'' \<or> is_digit (hd s)) then None
      else (case leadingInt 0 s of
          None \<Rightarrow> None
        | Some (v, s1) \<Rightarrow>
            let pre = length s1 \<noteq> length s
            in if s1 \<noteq> [] \<and> hd s1 = CHR ''.'' then
                 (case leadingFraction 0 1 False (tl s1) of (f, scale, s2) \<Rightarrow>
                    if \<not> pre \<and> length s2 = length (tl s1) then None else duration_unit v f scale s2)
               else if \<not> pre then None else duration_unit v 0 1 s1))"

lemma leadingInt_length: "leadingInt x s = Some (v, s') \<Longrightarrow> length s' \<le> length s"
  by (induction x s rule: leadingInt.induct) (fastforce simp: Let_def split: if_splits)+

lemma leadingFraction_length: "leadingFraction x scale ov s = (f, sc, s') \<Longrightarrow> length s' \<le> length s"
  by (induction x scale ov s rule: leadingFraction.induct) (fastforce simp: Let_def split: if_splits)+

lemma duration_unit_length: "duration_unit v f scale s = Some (n, s') \<Longrightarrow> length s' < length s"
proof -
  assume "duration_unit v f scale s = Some (n, s')"
  then have "s' = dropWhile unit_char s" "takeWhile unit_char s \<noteq> []"
    by (auto simp: duration_unit_def Let_def split: if_splits option.splits)
  then show ?thesis by (cases s) (auto simp: le_imp_less_Suc length_dropWhile_le split: if_splits)
qed

lemma duration_part_length: "duration_part s = Some (n, s') \<Longrightarrow> length s' < length s"
  by (auto simp: duration_part_def Let_def split: if_splits option.splits prod.splits
      dest!: leadingInt_length leadingFraction_length duration_unit_length)

function duration_loop :: "nat \<Rightarrow> string \<Rightarrow> nat option" where
  "duration_loop d s =
     (if s = [] then Some d
      else (case duration_part s of
          None \<Rightarrow> None
        | Some (v, s') \<Rightarrow>
            let d' = (d + v) mod 2 ^ 64 in if 2 ^ 63 < d' then None else duration_loop d' s'))"
  by pat_completeness auto
termination
  by (relation "measure (\<lambda>(d, s). length s)") (auto simp: duration_part_length)

declare duration_loop.simps [simp del]

definition ParseDuration :: "string \<Rightarrow> int option" where
  "ParseDuration s =
     (case split_sign s of (neg, r) \<Rightarrow>
        if r = ''0'' then Some 0
        else if r = [] then None
        else (case duration_loop 0 r of
            None \<Rightarrow> None
          | Some d \<Rightarrow>
              if neg then Some (- int d)
              else if 2 ^ 63 - 1 < d then None else Some (int d)))"

lemma duration_loop_le: "d \<le> 2 ^ 63 \<Longrightarrow> duration_loop d s = Some n \<Longrightarrow> n \<le> 2 ^ 63"
proof (induction d s rule: duration_loop.induct)
  case (1 d s)
  show ?case
  proof (cases "s = []")
    case False
    then obtain v s' where part: "duration_part s = Some (v, s')" and le: "(d + v) mod 2 ^ 64 \<le> 2 ^ 63"
      and rest: "duration_loop ((d + v) mod 2 ^ 64) s' = Some n"
      using 1(3) by (subst (asm) duration_loop.simps) (auto simp: Let_def not_less split: option.splits if_splits)
    from 1(1) [OF False part] le rest show ?thesis by simp
  qed (use 1 in \<open>simp add: duration_loop.simps\<close>)
qed

lemma ParseDuration_range: "ParseDuration s = Some i \<Longrightarrow> int64_range i"
  using duration_loop_le [of 0 "snd (split_sign s)"]
  by (fastforce simp: ParseDuration_def int64_range_def split: prod.splits if_splits option.splits)

lemma leadingInt_digits:
  assumes "list_all is_digit ds" "rest = [] \<or> \<not> is_digit (hd rest)" "digits_val x ds \<le> 2 ^ 63 "
  shows "leadingInt x (ds @ rest) = Some (digits_val x ds, rest)"
  using assms
proof (induction ds arbitrary: x)
  case Nil
  then show ?case by (cases rest) (auto simp: digits_val_def)
next
  case (Cons c ds)
  have grow: "y \<le> digits_val y cs" for y cs
  proof (induction cs arbitrary: y)
    case (Cons a cs)
    from Cons [of "y * 10 + digit_val a"] show ?case by (simp add: digits_val_def)
  qed (simp add: digits_val_def)
  let ?x = "x * 10 + digit_val c"
  have v: "digits_val x (c # ds) = digits_val ?x ds" by (simp add: digits_val_def)
  then have "?x \<le> 2 ^ 63" using grow [of ?x ds] Cons.prems(3) by linarith
  moreover from this have "x \<le> 2 ^ 63 div 10" by linarith
  ultimately show ?case using Cons v by (simp add: Let_def not_less)
qed

text \<open>A whole number of one unit is read exactly.\<close>

lemma ParseDuration_unit:
  assumes u: "unitMap u = Some unit" "list_all unit_char u" and fits: "n * unit < 2 ^ 63"
  shows "ParseDuration (show_nat n @ u) = Some (int (n * unit))"
proof -
  note ds = show_nat_digits [of n]
  obtain c cs where cs: "show_nat n = c # cs" using ds by (cases "show_nat n") auto
  have c: "is_digit c" using ds cs by simp
  have ne: "u \<noteq> []" "1 \<le> unit" using u(1) by (auto simp: unitMap_def split: if_splits)
  then have nd: "\<not> is_digit (hd u)" "hd u \<noteq> CHR ''.''" using u(2) by (cases u; simp add: unit_char_def)+
  have "n \<le> n * unit" using ne by simp
  then have n: "n \<le> 2 ^ 63" using fits by linarith
  have "leadingInt 0 (show_nat n @ u) = Some (n, u)"
    using leadingInt_digits [of "show_nat n" u 0] ds nd n by simp
  moreover have "n \<le> 2 ^ 63 div unit" using fits ne by (simp add: less_eq_div_iff_mult_less_eq)
  then have "duration_unit n 0 1 u = Some (n * unit, [])"
    using u ne by (simp add: duration_unit_def Let_def list_all_iff takeWhile_eq_all_conv [THEN iffD2] not_less)
  ultimately have "duration_part (show_nat n @ u) = Some (n * unit, [])"
    using c cs nd ne by (simp add: duration_part_def Let_def)
  then have "duration_loop 0 (show_nat n @ u) = Some (n * unit)"
    using cs fits by (subst duration_loop.simps) (simp add: duration_loop.simps)
  moreover have "split_sign (show_nat n @ u) = (False, show_nat n @ u)"
    using cs c is_digit_not_sign [OF c] by simp
  moreover have "show_nat n @ u \<noteq> ''0''"
    using cs ne by auto
  ultimately show ?thesis using cs ne fits by (simp add: ParseDuration_def)
qed

section \<open>Truncated products\<close>

lemma fl_of_pos: "0 < x \<Longrightarrow> fl x = fl_pos x"
  by (simp add: fl_def)

lemma rne_gt_half: "of_int i - 1 / 2 < x \<Longrightarrow> i \<le> rne x"
  using rne_dist [of x] by linarith

lemma rne_eqI: "\<bar>x - of_int i\<bar> < 1 / 2 \<Longrightarrow> rne x = i"
  using rne_dist [of x] by linarith

lemma ulp_bounds:
  assumes "0 < x"
  shows "ulp x \<le> x / 2 ^ 52" "x / 2 ^ 53 < ulp x"
  using scaled_bounds [OF assms] by (simp_all add: pos_le_divide_eq pos_divide_less_eq field_simps)

lemma fl_pos_near:
  assumes "0 < x"
  shows "\<bar>fl_pos x - x\<bar> \<le> x / 2 ^ 53"
  using fl_pos_dist [of x] ulp_bounds(1) [OF assms] by simp

text \<open>A number just below an integer is rounded up to it.\<close>

lemma fl_just_below:
  assumes z: "0 < z" "z < of_int i" "i \<le> 2 ^ 52" and near: "of_int i - z \<le> z / 2 ^ 54"
  shows "of_int i \<le> fl z"
proof -
  have "(of_int i :: rat) \<le> 2 ^ 52" using z(3) by (metis of_int_le_iff of_int_numeral of_int_power)
  then have "(2::rat) powi (ilog2 z) < 2 powi 52" using ilog2_bounds(1) [OF z(1)] z(2) by simp
  then have "0 \<le> 52 - ilog2 z" unfolding powi_less_powi_iff by simp
  then obtain j where j: "52 - ilog2 z = int j" by (metis nonneg_int_cases)
  have "ulp z * 2 ^ j = 2 powi (ilog2 z - 52 + int j)" unfolding ulp_def by (simp add: power_int_add)
  moreover have "ilog2 z - 52 + int j = 0" using j by simp
  ultimately have u: "ulp z * 2 ^ j = 1" by (simp only: power_int_0_right)
  then have m: "of_int i = of_int (i * 2 ^ j) * ulp z" by (simp add: mult.commute mult.left_commute)
  have "z / 2 ^ 54 < ulp z / 2" using ulp_bounds(2) [OF z(1)] by simp
  then have "of_int (i * 2 ^ j) * ulp z - z < ulp z / 2" using near unfolding m [symmetric] by linarith
  then have "of_int (i * 2 ^ j) - 1 / 2 < z / ulp z"
    by (simp only: pos_less_divide_eq [OF ulp_pos] left_diff_distrib)
  then have "i * 2 ^ j \<le> rne (z / ulp z)" by (rule rne_gt_half)
  then have "of_int (i * 2 ^ j) * ulp z \<le> of_int (rne (z / ulp z)) * ulp z"
    by (intro mult_right_mono) (simp_all only: of_int_le_iff less_imp_le [OF ulp_pos])
  then show ?thesis unfolding m [symmetric] using z(1) by (simp add: fl_def fl_pos_def)
qed

text \<open>
  The integer part of a percentage computed in \<^verbatim>\<open>float64\<close>: \<open>a\<close> is the rounded factor.
\<close>

lemma floor_fl_percentage:
  assumes c: "0 < c" "c \<le> 100" and k: "0 \<le> k" "k \<le> 2 ^ 40"
    and a: "0 < a" "\<bar>a - of_int c / 100\<bar> \<le> 1 / 2 ^ 54" "of_int c / 100 - a \<le> a / 2 ^ 54"
  shows "\<lfloor>fl (a * of_int k)\<rfloor> = c * k div 100"
proof (cases "k = 0")
  case False
  define N where "N = c * k div 100"
  define K :: rat where "K = of_int k"
  have K: "0 < K" "K \<le> 2 ^ 40"
    using k False unfolding K_def by (simp, metis of_int_le_iff of_int_numeral of_int_power)
  have ck: "c * k = 100 * N + c * k mod 100" unfolding N_def by simp
  have "c * k \<le> 100 * k" using c(2) k(1) by (rule mult_right_mono)
  then have "N \<le> 100 * k div 100" unfolding N_def by (rule zdiv_mono1) simp
  then have Nk: "0 \<le> N" "N \<le> k" using c k by (simp_all add: N_def pos_imp_zdiv_nonneg_iff)
  have "of_int (c * k) = (of_int (100 * N + c * k mod 100) :: rat)" using ck by simp
  then have pK: "of_int c / 100 * K = of_int N + of_int (c * k mod 100) / 100" unfolding K_def by simp
  have "c * k mod 100 \<le> 99" by simp
  then have r: "(of_int (c * k mod 100) :: rat) \<le> 99" by (metis of_int_le_iff of_int_numeral)
  have "a * K - of_int c / 100 * K = (a - of_int c / 100) * K" by (simp only: left_diff_distrib)
  then have "\<bar>a * K - of_int c / 100 * K\<bar> = \<bar>a - of_int c / 100\<bar> * K" using K(1) by (simp only: abs_mult abs_of_pos)
  also have "\<dots> \<le> 1 / 2 ^ 54 * 2 ^ 40" using a(2) K by (intro mult_mono) simp_all
  finally have dist: "\<bar>a * K - of_int c / 100 * K\<bar> \<le> 1 / 16384" by simp
  have z: "0 < a * K" using a K by simp
  have "of_int c / 100 * K \<le> K" using c K by (simp add: mult_left_le_one_le)
  moreover have "a * K \<le> of_int c / 100 * K + 1 / 16384" using dist by linarith
  ultimately have zK: "a * K \<le> 2 ^ 40 + 1" using K(2) by simp
  have "fl (a * K) \<le> a * K + a * K / 2 ^ 53" using fl_pos_near [OF z] fl_of_pos [OF z] by linarith
  moreover have "a * K / 2 ^ 53 \<le> 1 / 4096" using zK by (simp add: mult.commute)
  moreover have "a * K \<le> of_int N + 99 / 100 + 1 / 16384" using dist pK r by linarith
  ultimately have upper: "fl (a * K) < of_int N + 1" by linarith
  have "of_int N \<le> fl (a * K)"
  proof (cases "of_int N \<le> a * K")
    case True
    then show ?thesis using fl_mono [OF True] fl_of_int [of N] Nk k by simp
  next
    case less: False
    have "c * k mod 100 = 0"
    proof (rule ccontr)
      assume "c * k mod 100 \<noteq> 0"
      then have "1 \<le> c * k mod 100" by (metis int_one_le_iff_zero_less mod_pos_geq order_le_less pos_mod_sign zero_less_numeral)
      then have "(1 :: rat) \<le> of_int (c * k mod 100)" by (metis of_int_le_iff of_int_1)
      then show False using less dist pK by linarith
    qed
    then have "of_int N - a * K = (of_int c / 100 - a) * K" using pK by (simp add: left_diff_distrib)
    also have "\<dots> \<le> a / 2 ^ 54 * K" using a(3) K by (intro mult_right_mono) simp_all
    finally show ?thesis using fl_just_below [OF z, of N] less Nk k by simp
  qed
  with upper show ?thesis unfolding N_def K_def by (simp add: floor_unique)
qed (simp add: fl_def)

lemma fl_percentages:
  "fl (1 / 2) = 1 / 2" "fl (95 / 100) = 8556839292003942 / 2 ^ 53" "fl (99 / 100) = 8917127262193582 / 2 ^ 53"
proof -
  show "fl (1 / 2) = 1 / 2" by (rule fl_exact [of _ 1 "- 1"]) (simp_all add: power_int_minus)
  have e: "ilog2 (95 / 100) = - 1" "ilog2 (99 / 100) = - 1" by (rule ilog2_unique; simp add: power_int_minus)+
  have u: "(2::rat) powi (- 53) = 1 / 2 ^ 53" by (simp add: power_int_minus)
  have "ulp (95 / 100) = 1 / 2 ^ 53" "ulp (99 / 100) = 1 / 2 ^ 53" unfolding ulp_def e using u by simp_all
  moreover have "rne (95 / 100 / (1 / 2 ^ 53)) = 8556839292003942" "rne (99 / 100 / (1 / 2 ^ 53)) = 8917127262193582"
    by (rule rne_eqI; simp)+
  ultimately have "fl_pos (95 / 100) = 8556839292003942 / 2 ^ 53" "fl_pos (99 / 100) = 8917127262193582 / 2 ^ 53"
    by (simp_all only: fl_pos_def)
  then show "fl (95 / 100) = 8556839292003942 / 2 ^ 53" "fl (99 / 100) = 8917127262193582 / 2 ^ 53"
    unfolding fl_def by simp_all
qed

end
