(* ===== verification/Gateway.thy ===== *)
theory Gateway
  imports Lifecycle Go_Std
begin

text \<open>
  Model of \<^verbatim>\<open>src/api/main.go\<close>: the configuration read from the environment, the connection
  string, the wait for the database and the start of the server, composed with the
  constructor and the life cycle of the server.  What the operating system, \<^verbatim>\<open>database/sql\<close> and
  \<^verbatim>\<open>net/http\<close> answer is an argument; the reader of connection strings inside the driver is the
  parameter of the locale \<open>conninfo_reader\<close>, whose laws are the documented format.  Log
  output is left out.
\<close>

section \<open>Configuration\<close>

record config =
  dbHost :: string
  dbPort :: int
  dbUser :: string
  dbPassword :: string
  dbName :: string
  dbSSLMode :: string
  dbMaxOpenConns :: int
  dbMaxIdleConns :: int
  dbConnMaxLifetime :: int
  listenAddr :: string
  workerCount :: int
  batchTimeout :: int

text \<open>\<^verbatim>\<open>os.Getenv\<close>: the empty string when the variable is not set.\<close>

type_synonym environment = "string \<Rightarrow> string"

definition getEnv :: "environment \<Rightarrow> string \<Rightarrow> string \<Rightarrow> string" where
  "getEnv env key fallback = (let v = env key in if v \<noteq> [] then v else fallback)"

definition getEnvInt :: "environment \<Rightarrow> string \<Rightarrow> int \<Rightarrow> int" where
  "getEnvInt env key fallback =
     (let v = env key
      in if v = [] then fallback else (case Atoi v of None \<Rightarrow> fallback | Some n \<Rightarrow> n))"

definition getEnvDuration :: "environment \<Rightarrow> string \<Rightarrow> int \<Rightarrow> int" where
  "getEnvDuration env key fallback =
     (let v = env key
      in if v = [] then fallback else (case ParseDuration v of None \<Rightarrow> fallback | Some d \<Rightarrow> d))"

definition loadConfig :: "environment \<Rightarrow> error + config" where
  "loadConfig env =
     (let cfg =
        \<lparr>dbHost = getEnv env ''KHAOS_DB_HOST'' ''localhost'',
         dbPort = getEnvInt env ''KHAOS_DB_PORT'' 5432,
         dbUser = getEnv env ''KHAOS_DB_USER'' ''postgres'',
         dbPassword = env ''KHAOS_DB_PASSWORD'',
         dbName = getEnv env ''KHAOS_DB_NAME'' ''khaos'',
         dbSSLMode = getEnv env ''KHAOS_DB_SSLMODE'' ''disable'',
         dbMaxOpenConns = getEnvInt env ''KHAOS_DB_MAX_OPEN_CONNS'' 25,
         dbMaxIdleConns = getEnvInt env ''KHAOS_DB_MAX_IDLE_CONNS'' 25,
         dbConnMaxLifetime = getEnvDuration env ''KHAOS_DB_CONN_MAX_LIFETIME'' (5 * 60 * second),
         listenAddr = getEnv env ''KHAOS_LISTEN_ADDR'' '':8080'',
         workerCount = getEnvInt env ''KHAOS_WORKER_COUNT'' 8,
         batchTimeout = getEnvDuration env ''KHAOS_BATCH_TIMEOUT'' (5 * second)\<rparr>
      in if dbPassword cfg = [] then Inl PasswordRequired else Inr cfg)"

section \<open>The connection string\<close>

text \<open>\<^verbatim>\<open>strings.ReplaceAll\<close> of a one-byte string.\<close>

definition ReplaceAll :: "char \<Rightarrow> string \<Rightarrow> string \<Rightarrow> string" where
  "ReplaceAll old new s = concat (map (\<lambda>c. if c = old then new else [c]) s)"

abbreviation quote :: char where "quote \<equiv> CHR 0x27"
abbreviation backslash :: char where "backslash \<equiv> CHR 0x5C"

definition escape :: "string \<Rightarrow> string" where
  "escape s = [quote] @ ReplaceAll quote [backslash, quote] (ReplaceAll backslash [backslash, backslash] s) @ [quote]"

definition dsn :: "config \<Rightarrow> string" where
  "dsn c = ''host='' @ escape (dbHost c) @ '' port='' @ show_int (dbPort c) @ '' user='' @ escape (dbUser c)
     @ '' password='' @ escape (dbPassword c) @ '' dbname='' @ escape (dbName c) @ '' sslmode='' @ escape (dbSSLMode c)"

section \<open>Waiting for the database\<close>

definition tick :: int where "tick = 500000000"

text \<open>
  Time is counted from the creation of the ticker.  \<open>ping i now deadline\<close> is how long the
  \<open>i\<close>-th \<^verbatim>\<open>PingContext\<close> takes when it is called at \<open>now\<close> with a context that ends at \<open>deadline\<close>,
  and what it returns.  The ticker's channel holds one tick, so when an iteration that began
  at \<open>now\<close> reaches the \<^verbatim>\<open>select\<close> at \<open>t\<close>, a tick is pending if one fell in between.  When both
  cases are ready the choice is free (\<open>expired\<close>).
\<close>

type_synonym ping_outcome = "nat \<Rightarrow> int \<Rightarrow> int \<Rightarrow> int \<times> error option"

datatype wait_result = Expired int | Ticked int

definition select_wait :: "int \<Rightarrow> int \<Rightarrow> int \<Rightarrow> bool \<Rightarrow> wait_result" where
  "select_wait timeout now t expired =
     (let pending = now div tick < t div tick; over = timeout \<le> t; nxt = (t div tick + 1) * tick
      in if pending \<and> over then (if expired then Expired t else Ticked t)
         else if pending then Ticked t
         else if over then Expired t
         else if timeout < nxt then Expired timeout
         else if nxt < timeout then Ticked nxt
         else if expired then Expired timeout else Ticked nxt)"

text \<open>The loop: the error, the time of the return and the number of pings; \<open>None\<close> if the bound on the iterations is used up.\<close>

fun waitForDB_loop ::
  "nat \<Rightarrow> ping_outcome \<Rightarrow> (nat \<Rightarrow> bool) \<Rightarrow> int \<Rightarrow> nat \<Rightarrow> int \<Rightarrow> (error option \<times> int \<times> nat) option" where
  "waitForDB_loop 0 ping expired timeout i now = None"
| "waitForDB_loop (Suc bound) ping expired timeout i now =
     (case ping i now (min timeout (now + 2 * second)) of (d, lastErr) \<Rightarrow>
        (case lastErr of
           None \<Rightarrow> Some (None, now + d, Suc i)
         | Some e \<Rightarrow>
             (case select_wait timeout now (now + d) (expired i) of
                Expired t \<Rightarrow> Some (Some (Wrap ''giving up, last error'' e), t, Suc i)
              | Ticked t \<Rightarrow> waitForDB_loop bound ping expired timeout (Suc i) t)))"

definition waitForDB :: "nat \<Rightarrow> ping_outcome \<Rightarrow> (nat \<Rightarrow> bool) \<Rightarrow> int \<Rightarrow> (error option \<times> int \<times> nat) option" where
  "waitForDB bound ping expired timeout = waitForDB_loop bound ping expired timeout 0 0"

section \<open>The program\<close>

record gateway_world =
  open_err :: "error option"
  pings :: ping_outcome
  expired_first :: "nat \<Rightarrow> bool"
  prepare_err :: "stmt \<Rightarrow> error option"
  serving :: serve_world

definition server_config :: "config \<Rightarrow> ServerConfig" where
  "server_config cfg = \<lparr>Addr = listenAddr cfg, WorkerCount = workerCount cfg, BatchTimeout = batchTimeout cfg,
     ReadTimeout = 0, WriteTimeout = 0, IdleTimeout = 0, MaxBodyBytes = 0\<rparr>"

text \<open>From the connected database on; the two deferred calls end the trace.\<close>

definition run_serving :: "config \<Rightarrow> gateway_world \<Rightarrow> error option \<times> action list" where
  "run_serving cfg w =
     (case NewPostgresStorageEngine (prepare_err w GetStmt) (prepare_err w SetStmt) (prepare_err w DeleteStmt) of
        (Inl e, dropped) \<Rightarrow>
          (Some (Wrap ''initializing storage engine'' e),
           map PrepareStmt dropped @ map CloseStmt dropped @ [CancelSetup, StopSignals])
      | (Inr kept, _) \<Rightarrow>
          (case Run PostgresStorage (NewServer (server_config cfg)) (serving w) of (err, acts) \<Rightarrow>
             (map_option (Wrap ''server exited with error'') err,
              map PrepareStmt kept @ acts @ [CancelSetup, StopSignals])))"

definition run :: "nat \<Rightarrow> environment \<Rightarrow> gateway_world \<Rightarrow> (error option \<times> action list) option" where
  "run bound env w =
     (case loadConfig env of
        Inl e \<Rightarrow> Some (Some (Wrap ''configuratin error'' e), [])
      | Inr cfg \<Rightarrow>
          (case open_err w of
             Some e \<Rightarrow> Some (Some (Wrap ''opening database handle'' e), [])
           | None \<Rightarrow>
               let opened = [OpenDB (dsn cfg), ConfigureDB (dbMaxOpenConns cfg) (dbMaxIdleConns cfg) (dbConnMaxLifetime cfg)]
               in (case waitForDB bound (pings w) (expired_first w) (30 * second) of
                     None \<Rightarrow> None
                   | Some (Some e, _) \<Rightarrow> Some (Some (Wrap ''database not reachable'' e), opened @ [CloseDB])
                   | Some (None, _) \<Rightarrow>
                       (case run_serving cfg w of (err, acts) \<Rightarrow> Some (err, opened @ acts @ [CloseDB])))))"

definition main_exit :: "error option \<Rightarrow> nat" where
  "main_exit err = (case err of None \<Rightarrow> 0 | Some _ \<Rightarrow> 1)"

section \<open>Reading the connection string back\<close>

text \<open>
  The documented format of connection strings: settings \<open>keyword=value\<close> separated by blanks;
  a value between quotes may contain anything, with \<open>\\\<close> in front of a quote or a backslash.  A
  reader that converts the string to runes first agrees with this on values that are valid
  UTF-8, so the law for quoted values is restricted to those.
\<close>

inductive quoted :: "string \<Rightarrow> string \<Rightarrow> bool" where
  quoted_Nil: "quoted [] []"
| quoted_plain: "c \<noteq> quote \<Longrightarrow> c \<noteq> backslash \<Longrightarrow> quoted s v \<Longrightarrow> quoted (c # s) (c # v)"
| quoted_escape: "quoted s v \<Longrightarrow> quoted (backslash # c # s) (c # v)"

definition plain_char :: "char \<Rightarrow> bool" where
  "plain_char c \<longleftrightarrow> c \<notin> {CHR '' '', CHR ''='', quote, backslash}"

definition keyword :: "string \<Rightarrow> bool" where
  "keyword k \<longleftrightarrow> k \<noteq> [] \<and> list_all plain_char k"

definition ends_value :: "string \<Rightarrow> bool" where
  "ends_value rest \<longleftrightarrow> rest = [] \<or> hd rest = CHR '' ''"

locale conninfo_reader =
  fixes parse :: "string \<Rightarrow> (string \<times> string) list option"
  assumes parse_end: "parse [] = Some []"
    and parse_blank: "parse (CHR '' '' # s) = parse s"
    and parse_plain: "keyword k \<Longrightarrow> v \<noteq> [] \<Longrightarrow> list_all plain_char v \<Longrightarrow> ends_value rest
          \<Longrightarrow> parse (k @ ''='' @ v @ rest) = map_option (Cons (k, v)) (parse rest)"
    and parse_quoted: "keyword k \<Longrightarrow> quoted body v \<Longrightarrow> utf8_valid v \<Longrightarrow> ends_value rest
          \<Longrightarrow> parse (k @ ''='' @ [quote] @ body @ [quote] @ rest) = map_option (Cons (k, v)) (parse rest)"

lemma quoted_escape_body:
  "quoted (ReplaceAll quote [backslash, quote] (ReplaceAll backslash [backslash, backslash] s)) s"
  by (induction s) (auto simp: ReplaceAll_def intro: quoted.intros)

lemma show_int_plain: "show_int i \<noteq> [] \<and> list_all plain_char (show_int i)"
proof -
  have digit: "is_digit c \<Longrightarrow> plain_char c" for c by (auto simp: is_digit_def plain_char_def)
  have "list_all plain_char (show_nat n)" for n
    using show_nat_digits [of n] by (auto simp: list_all_iff intro: digit)
  moreover have "plain_char CHR ''-''" by (simp add: plain_char_def)
  ultimately show ?thesis using show_nat_digits by (simp add: show_int_def)
qed

context conninfo_reader
begin

lemma parse_escape:
  assumes "keyword k" "utf8_valid v"
  shows "parse (k @ CHR ''='' # escape v) = Some [(k, v)]"
    and "parse (k @ CHR ''='' # escape v @ CHR '' '' # rest) = map_option (Cons (k, v)) (parse rest)"
  using parse_quoted [OF assms(1) quoted_escape_body assms(2), of "[]"]
    parse_quoted [OF assms(1) quoted_escape_body assms(2), of "CHR '' '' # rest"]
  by (simp_all add: escape_def ends_value_def parse_end parse_blank)

lemma parse_int:
  "keyword k \<Longrightarrow> parse (k @ CHR ''='' # show_int i @ CHR '' '' # rest) = map_option (Cons (k, show_int i)) (parse rest)"
  using parse_plain [of k "show_int i" "CHR '' '' # rest"] show_int_plain [of i]
  by (simp add: ends_value_def parse_blank)

lemma parse_dsn:
  assumes "\<forall>v \<in> {dbHost c, dbUser c, dbPassword c, dbName c, dbSSLMode c}. utf8_valid v"
  shows "parse (dsn c) = Some [(''host'', dbHost c), (''port'', show_int (dbPort c)), (''user'', dbUser c),
      (''password'', dbPassword c), (''dbname'', dbName c), (''sslmode'', dbSSLMode c)]"
proof -
  have key: "keyword ''host''" "keyword ''port''" "keyword ''user''" "keyword ''password''" "keyword ''dbname''"
    "keyword ''sslmode''"
    by (simp_all add: keyword_def plain_char_def)
  have "dsn c = ''host'' @ CHR ''='' # escape (dbHost c) @ CHR '' '' # (''port'' @ CHR ''='' # show_int (dbPort c) @ CHR '' '' #
      (''user'' @ CHR ''='' # escape (dbUser c) @ CHR '' '' # (''password'' @ CHR ''='' # escape (dbPassword c) @ CHR '' '' #
      (''dbname'' @ CHR ''='' # escape (dbName c) @ CHR '' '' # (''sslmode'' @ CHR ''='' # escape (dbSSLMode c))))))"
    by (simp add: dsn_def)
  then show ?thesis
    using assms
    by (simp only: parse_int [OF key(2)] parse_escape(2) [OF key(1)] parse_escape(2) [OF key(3)] parse_escape(2) [OF key(4)]
        parse_escape(2) [OF key(5)] parse_escape(1) [OF key(6)] insert_iff ball_simps option.map simp_thms)
qed

end

text \<open>A reader of the format.\<close>

fun read_quoted :: "string \<Rightarrow> (string \<times> string) option" where
  "read_quoted [] = None"
| "read_quoted (c # s) =
     (if c = quote then Some ([], s)
      else if c = backslash then (case s of [] \<Rightarrow> None | d # r \<Rightarrow> map_option (apfst (Cons d)) (read_quoted r))
      else map_option (apfst (Cons c)) (read_quoted s))"

lemma read_quoted_length: "read_quoted s = Some (v, r) \<Longrightarrow> length r < length s"
  by (induction s arbitrary: v r rule: read_quoted.induct) (fastforce split: if_splits list.splits)+

lemma tl_dropWhile_length: "s \<noteq> [] \<Longrightarrow> length (tl (dropWhile P s)) < length s"
  using length_dropWhile_le [of P s] by (cases s) auto

function conninfo :: "string \<Rightarrow> (string \<times> string) list option" where
  "conninfo s =
     (if s = [] then Some []
      else if hd s = CHR '' '' then conninfo (tl s)
      else let k = takeWhile (\<lambda>c. c \<noteq> CHR ''='') s; r = tl (dropWhile (\<lambda>c. c \<noteq> CHR ''='') s)
           in if r = [] then None
              else if hd r = quote then
                (case read_quoted (tl r) of None \<Rightarrow> None | Some (v, r') \<Rightarrow> map_option (Cons (k, v)) (conninfo r'))
              else map_option (Cons (k, takeWhile (\<lambda>c. c \<noteq> CHR '' '') r)) (conninfo (dropWhile (\<lambda>c. c \<noteq> CHR '' '') r)))"
  by pat_completeness auto
termination
proof (relation "measure length", goal_cases)
  case (3 s k r a v r')
  then show ?case using read_quoted_length [of "tl r" v r'] tl_dropWhile_length [of s "\<lambda>c. c \<noteq> CHR ''=''"] by simp
next
  case (4 s k r)
  then show ?case
    using length_dropWhile_le [of "\<lambda>c. c \<noteq> CHR '' ''" r] tl_dropWhile_length [of s "\<lambda>c. c \<noteq> CHR ''=''"] by simp
qed simp_all

declare conninfo.simps [simp del]

lemma read_quoted_body: "quoted body v \<Longrightarrow> read_quoted (body @ quote # rest) = Some (v, rest)"
  by (induction rule: quoted.induct) auto

lemma takeWhile_key:
  assumes "\<forall>c \<in> set k. c \<noteq> e"
  shows "takeWhile (\<lambda>c. c \<noteq> e) (k @ e # r) = k" "dropWhile (\<lambda>c. c \<noteq> e) (k @ e # r) = e # r"
  using assms by (simp_all add: takeWhile_append2 dropWhile_append2)

lemma conninfo_setting:
  assumes k: "keyword k" and r: "r \<noteq> []"
  shows "conninfo (k @ CHR ''='' # r) =
    (if hd r = quote
     then (case read_quoted (tl r) of None \<Rightarrow> None | Some (v, r') \<Rightarrow> map_option (Cons (k, v)) (conninfo r'))
     else map_option (Cons (k, takeWhile (\<lambda>c. c \<noteq> CHR '' '') r)) (conninfo (dropWhile (\<lambda>c. c \<noteq> CHR '' '') r)))"
proof -
  have "\<forall>c \<in> set k. c \<noteq> CHR ''=''" and "hd (k @ CHR ''='' # r) \<noteq> CHR '' ''"
    using k by (auto simp: keyword_def plain_char_def list_all_iff)
  then show ?thesis using r by (subst conninfo.simps) (simp add: takeWhile_key Let_def)
qed

interpretation conninfo: conninfo_reader conninfo
proof (unfold_locales, goal_cases)
  case 1
  show ?case by (simp add: conninfo.simps)
next
  case (2 s)
  show ?case by (subst conninfo.simps) simp
next
  case (3 k v rest)
  then have v: "\<forall>c \<in> set v. c \<noteq> CHR '' ''" "hd v \<noteq> quote" "hd (v @ rest) = hd v"
    by (auto simp: list_all_iff plain_char_def)
  have "takeWhile (\<lambda>c. c \<noteq> CHR '' '') (v @ rest) = v" "dropWhile (\<lambda>c. c \<noteq> CHR '' '') (v @ rest) = rest"
    using v(1) 3(4) by (cases rest; simp add: ends_value_def)+
  then show ?case using conninfo_setting [OF 3(1), of "v @ rest"] 3(2) v(2,3) by simp
next
  case (4 k body v rest)
  then show ?case using conninfo_setting [OF 4(1), of "quote # body @ quote # rest"] read_quoted_body [OF 4(2), of rest]
    by simp
qed

section \<open>The wait ends\<close>

text \<open>
  What the loop relies on: a ping takes no negative time, returns by the deadline of its
  context, and at once if that has passed.
\<close>

definition ping_obeys :: "ping_outcome \<Rightarrow> bool" where
  "ping_obeys ping \<longleftrightarrow> (\<forall>i now deadline. 0 \<le> fst (ping i now deadline) \<and> now + fst (ping i now deadline) \<le> max now deadline)"

lemma select_wait_cases:
  assumes "now \<le> t" "t \<le> timeout"
  shows "case select_wait timeout now t ex of
      Expired t' \<Rightarrow> t' = timeout
    | Ticked t' \<Rightarrow> now \<le> t' \<and> t' \<le> timeout \<and> now div tick < t' div tick"
proof -
  have nxt: "(t div tick + 1) * tick div tick = t div tick + 1" "t < (t div tick + 1) * tick"
    by (simp_all add: tick_def)
  have "now div tick \<le> t div tick" using assms(1) by (rule zdiv_mono1) (simp add: tick_def)
  then show ?thesis using assms nxt by (auto simp: select_wait_def Let_def)
qed

lemma waitForDB_loop_returns:
  assumes ping: "ping_obeys ping" and "now \<le> timeout" and "nat (timeout div tick - now div tick) < bound"
  shows "\<exists>r t n. waitForDB_loop bound ping expired timeout i now = Some (r, t, n)
    \<and> t \<le> timeout \<and> i < n \<and> n \<le> i + nat (timeout div tick - now div tick) + 1
    \<and> (\<exists>start deadline. case snd (ping (n - 1) start deadline) of
          None \<Rightarrow> r = None
        | Some e \<Rightarrow> r = Some (Wrap ''giving up, last error'' e) \<and> t = timeout)"
  using assms(2,3)
proof (induction bound arbitrary: i now)
  case (Suc bound)
  let ?dl = "min timeout (now + 2 * second)"
  obtain d r where p: "ping i now ?dl = (d, r)" by fastforce
  have d: "0 \<le> d" "now + d \<le> timeout"
    using ping [unfolded ping_obeys_def, rule_format, of i now ?dl] p Suc.prems(1) by auto
  show ?case
  proof (cases r)
    case None
    then have "snd (ping (Suc i - 1) now ?dl) = None" using p by simp
    then show ?thesis using p None d
      by (intro exI [of _ None] exI [of _ "now + d"] exI [of _ "Suc i"] conjI exI [of _ now] exI [of _ ?dl]) simp_all
  next
    case (Some e)
    note sel = select_wait_cases [of now "now + d" timeout "expired i"]
    show ?thesis
    proof (cases "select_wait timeout now (now + d) (expired i)")
      case (Expired t)
      then have "t = timeout" using sel d by simp
      moreover have "snd (ping (Suc i - 1) now ?dl) = Some e" using p Some by simp
      ultimately show ?thesis using p Some Expired
        by (intro exI [of _ "Some (Wrap ''giving up, last error'' e)"] exI [of _ timeout] exI [of _ "Suc i"] conjI
            exI [of _ now] exI [of _ ?dl]) simp_all
    next
      case (Ticked t)
      then have t: "t \<le> timeout" "now div tick < t div tick" using sel d by simp_all
      have "t div tick \<le> timeout div tick" using t(1) by (rule zdiv_mono1) (simp add: tick_def)
      then have less: "nat (timeout div tick - t div tick) < nat (timeout div tick - now div tick)" using t(2) by simp
      then have b: "nat (timeout div tick - t div tick) < bound" using Suc.prems(2) by linarith
      obtain r' t' n' where IH: "waitForDB_loop bound ping expired timeout (Suc i) t = Some (r', t', n')" "t' \<le> timeout" "Suc i < n'"
        "n' \<le> Suc i + nat (timeout div tick - t div tick) + 1"
        "\<exists>start deadline. case snd (ping (n' - 1) start deadline) of
            None \<Rightarrow> r' = None | Some e \<Rightarrow> r' = Some (Wrap ''giving up, last error'' e) \<and> t' = timeout"
        using Suc.IH [OF t(1) b, of "Suc i"] by (elim exE conjE) (rule that; blast)
      have "waitForDB_loop (Suc bound) ping expired timeout i now = Some (r', t', n')"
        using IH(1) p Some Ticked by simp
      moreover have "i < n'" "n' \<le> i + nat (timeout div tick - now div tick) + 1" using IH(3,4) less by linarith+
      ultimately show ?thesis using IH(2,5) by blast
    qed
  qed
qed simp

section \<open>Properties\<close>


definition example_gateway :: config where
  "example_gateway = \<lparr>dbHost = ''db'', dbPort = 5432, dbUser = ''u'', dbPassword = [backslash, quote] @ '' host=evil'',
     dbName = ''khaos'', dbSSLMode = ''disable'', dbMaxOpenConns = 25, dbMaxIdleConns = 25, dbConnMaxLifetime = 0,
     listenAddr = '':8080'', workerCount = 8, batchTimeout = 0\<rparr>"



definition refused_ping :: ping_outcome where
  "refused_ping i now deadline = (0, Some (External ''connection refused''))"


lemma getEnvInt_cases:
  "getEnvInt env key n = (case Atoi (env key) of None \<Rightarrow> n | Some i \<Rightarrow> i)"
proof -
  have "Atoi [] = None" by (simp add: Atoi_def)
  then show ?thesis by (simp add: getEnvInt_def Let_def)
qed

lemma getEnvDuration_cases:
  "getEnvDuration env key n = (case ParseDuration (env key) of None \<Rightarrow> n | Some i \<Rightarrow> i)"
proof -
  have "ParseDuration [] = None" by (simp add: ParseDuration_def)
  then show ?thesis by (simp add: getEnvDuration_def Let_def)
qed

lemma getEnvInt_range: "int64_range n \<Longrightarrow> int64_range (getEnvInt env key n)"
  using Atoi_range by (auto simp: getEnvInt_cases split: option.split)

lemma getEnvDuration_range: "int64_range n \<Longrightarrow> int64_range (getEnvDuration env key n)"
  using ParseDuration_range by (auto simp: getEnvDuration_cases split: option.split)


definition example_env :: environment where
  "example_env = (\<lambda>_. [])(''KHAOS_DB_PASSWORD'' := ''pw'', ''KHAOS_WORKER_COUNT'' := ''-3'', ''KHAOS_BATCH_TIMEOUT'' := ''250ms'')"



definition example_world :: gateway_world where
  "example_world = \<lparr>open_err = None, pings = (\<lambda>i now deadline. (0, None)), expired_first = (\<lambda>_. False), prepare_err = (\<lambda>_. None),
     serving = \<lparr>serve_first = None, shutdown_err = None, close_err = (\<lambda>_. None), serve_after = Some ErrServerClosed\<rparr>\<rparr>"


end
