(* ===== verification/Json.thy ===== *)
theory Json
  imports Utf8 Go_Std
begin

text \<open>
  JSON texts as \<^verbatim>\<open>encoding/json\<close> reads and writes them.  A text is a sequence of runes (the bytes
  are decoded first; outside of strings everything is ASCII).  A value keeps numbers as their
  literals, which the Go decoder converts only when it knows the type of the target, and
  strings as Go strings.  Printing is compact and takes the way strings are written as an argument;
  that of \<^verbatim>\<open>json.Marshal\<close> escapes HTML characters.
\<close>

section \<open>Values\<close>

datatype json =
    JNull
  | JBool bool
  | JNum string
  | JStr string
  | JArr "json list"
  | JObj "(string \<times> json) list"

definition ascii_runes :: "string \<Rightarrow> nat list" where
  "ascii_runes s = map of_char s"

section \<open>Reading\<close>

definition ws :: "nat \<Rightarrow> bool" where
  "ws r \<longleftrightarrow> r = 32 \<or> r = 9 \<or> r = 10 \<or> r = 13"

definition skip :: "nat list \<Rightarrow> nat list" where
  "skip s = dropWhile ws s"

definition hex_val :: "nat \<Rightarrow> nat option" where
  "hex_val r = (if 48 \<le> r \<and> r \<le> 57 then Some (r - 48) else if 97 \<le> r \<and> r \<le> 102 then Some (r - 87)
     else if 65 \<le> r \<and> r \<le> 70 then Some (r - 55) else None)"

definition hex4 :: "nat \<Rightarrow> nat \<Rightarrow> nat \<Rightarrow> nat \<Rightarrow> nat option" where
  "hex4 a b c d = (case (hex_val a, hex_val b, hex_val c, hex_val d) of
     (Some a, Some b, Some c, Some d) \<Rightarrow> Some (((a * 16 + b) * 16 + c) * 16 + d) | _ \<Rightarrow> None)"

text \<open>The rune of an escape other than \<^verbatim>\<open>\u\<close>.\<close>

definition escape_rune :: "nat \<Rightarrow> nat option" where
  "escape_rune e = (if e = 34 \<or> e = 92 \<or> e = 47 then Some e else if e = 98 then Some 8 else if e = 102 then Some 12
     else if e = 110 then Some 10 else if e = 114 then Some 13 else if e = 116 then Some 9 else None)"

definition surrogate :: "nat \<Rightarrow> bool" where
  "surrogate r \<longleftrightarrow> 55296 \<le> r \<and> r < 57344"

text \<open>The low half of a surrogate pair that starts with \<open>r\<close>, if it follows at once.\<close>

definition low_half :: "nat \<Rightarrow> nat list \<Rightarrow> (nat \<times> nat list) option" where
  "low_half r s = (case s of
     x # y # a # b # c # d # t \<Rightarrow>
       (case hex4 a b c d of
          Some l \<Rightarrow> if x = 92 \<and> y = 117 \<and> r < 56320 \<and> 56320 \<le> l \<and> l < 57344
                    then Some (65536 + (r - 55296) * 1024 + (l - 56320), t) else None
        | None \<Rightarrow> None)
   | _ \<Rightarrow> None)"

lemma low_half_length: "low_half r s = Some (v, t) \<Longrightarrow> length t < length s"
  by (auto simp: low_half_def split: list.splits option.splits if_splits)

text \<open>A string after its opening quote: its runes and the rest of the text.\<close>

function read_string :: "nat list \<Rightarrow> (nat list \<times> nat list) option" where
  "read_string [] = None"
| "read_string (c # s) =
     (if c = 34 then Some ([], s)
      else if c < 32 then None
      else if c \<noteq> 92 then map_option (apfst (Cons c)) (read_string s)
      else (case s of
          [] \<Rightarrow> None
        | e # t \<Rightarrow>
            if e \<noteq> 117 then
              (case escape_rune e of None \<Rightarrow> None | Some r \<Rightarrow> map_option (apfst (Cons r)) (read_string t))
            else (case t of
                h1 # h2 # h3 # h4 # u \<Rightarrow>
                  (case hex4 h1 h2 h3 h4 of
                     None \<Rightarrow> None
                   | Some r \<Rightarrow>
                       if \<not> surrogate r then map_option (apfst (Cons r)) (read_string u)
                       else (case low_half r u of
                           Some (v, w) \<Rightarrow> map_option (apfst (Cons v)) (read_string w)
                         | None \<Rightarrow> map_option (apfst (Cons 65533)) (read_string u)))
              | _ \<Rightarrow> None)))"
  by pat_completeness auto
termination by (relation "measure length") (auto dest: low_half_length)

declare read_string.simps(2) [simp del]

definition is_digit_rune :: "nat \<Rightarrow> bool" where
  "is_digit_rune r \<longleftrightarrow> 48 \<le> r \<and> r \<le> 57"

text \<open>
  The literal of a number: an optional sign, digits without a leading zero, optionally a
  fraction and an exponent, as far as it goes; the digits after a point or an exponent are mandatory.
\<close>

definition read_digits :: "nat list \<Rightarrow> (nat list \<times> nat list) option" where
  "read_digits s = (if s \<noteq> [] \<and> is_digit_rune (hd s) then Some (takeWhile is_digit_rune s, dropWhile is_digit_rune s) else None)"

definition read_int_part :: "nat list \<Rightarrow> (nat list \<times> nat list) option" where
  "read_int_part s = (case s of [] \<Rightarrow> None | c # t \<Rightarrow> if c = 48 then Some ([48], t) else read_digits s)"

definition read_frac :: "nat list \<Rightarrow> (nat list \<times> nat list) option" where
  "read_frac s = (case s of
     c # t \<Rightarrow> if c = 46 then map_option (apfst (Cons 46)) (read_digits t) else Some ([], s)
   | [] \<Rightarrow> Some ([], []))"

definition read_exp :: "nat list \<Rightarrow> (nat list \<times> nat list) option" where
  "read_exp s = (case s of
     c # t \<Rightarrow>
       if c = 101 \<or> c = 69 then
         (case t of
            d # u \<Rightarrow> if d = 43 \<or> d = 45 then map_option (apfst (\<lambda>ds. c # d # ds)) (read_digits u)
                     else map_option (apfst (Cons c)) (read_digits t)
          | [] \<Rightarrow> None)
       else Some ([], s)
   | [] \<Rightarrow> Some ([], []))"

definition read_sign :: "nat list \<Rightarrow> nat list \<times> nat list" where
  "read_sign s = (case s of c # t \<Rightarrow> if c = 45 then ([45], t) else ([], s) | [] \<Rightarrow> ([], []))"

definition read_number :: "nat list \<Rightarrow> (nat list \<times> nat list) option" where
  "read_number s =
     (case read_int_part (snd (read_sign s)) of
        None \<Rightarrow> None
      | Some (i, s2) \<Rightarrow>
          (case read_frac s2 of
             None \<Rightarrow> None
           | Some (f, s3) \<Rightarrow>
               (case read_exp s3 of
                  None \<Rightarrow> None
                | Some (e, s4) \<Rightarrow> Some (fst (read_sign s) @ i @ f @ e, s4))))"

definition read_word :: "string \<Rightarrow> nat list \<Rightarrow> nat list option" where
  "read_word w s = (if take (length w) s = ascii_runes w then Some (drop (length w) s) else None)"

text \<open>
  Values, the elements of an array and the members of an object, the latter two after the
  opening bracket and not empty.  The first argument bounds the depth of the calls;
  twice the length of the text is always enough.
\<close>

fun read_value :: "nat \<Rightarrow> nat list \<Rightarrow> (json \<times> nat list) option"
and read_elements :: "nat \<Rightarrow> nat list \<Rightarrow> (json list \<times> nat list) option"
and read_members :: "nat \<Rightarrow> nat list \<Rightarrow> ((string \<times> json) list \<times> nat list) option" where
  "read_value 0 s = None"
| "read_value (Suc n) s =
     (case skip s of
        [] \<Rightarrow> None
      | c # t \<Rightarrow>
          if c = 34 then map_option (apfst (\<lambda>rs. JStr (utf8_encode rs))) (read_string t)
          else if c = 91 then
            (if skip t \<noteq> [] \<and> hd (skip t) = 93 then Some (JArr [], tl (skip t))
             else map_option (apfst JArr) (read_elements n t))
          else if c = 123 then
            (if skip t \<noteq> [] \<and> hd (skip t) = 125 then Some (JObj [], tl (skip t))
             else map_option (apfst JObj) (read_members n t))
          else if c = 116 then map_option (Pair (JBool True)) (read_word ''true'' (c # t))
          else if c = 102 then map_option (Pair (JBool False)) (read_word ''false'' (c # t))
          else if c = 110 then map_option (Pair JNull) (read_word ''null'' (c # t))
          else map_option (apfst (\<lambda>lit. JNum (map char_of lit))) (read_number (c # t)))"
| "read_elements 0 s = None"
| "read_elements (Suc n) s =
     (case read_value n s of
        None \<Rightarrow> None
      | Some (v, s1) \<Rightarrow>
          (case skip s1 of
             [] \<Rightarrow> None
           | c # s2 \<Rightarrow>
               if c = 44 then map_option (apfst (Cons v)) (read_elements n s2)
               else if c = 93 then Some ([v], s2) else None))"
| "read_members 0 s = None"
| "read_members (Suc n) s =
     (case skip s of
        [] \<Rightarrow> None
      | q # s1 \<Rightarrow>
          if q \<noteq> 34 then None
          else (case read_string s1 of
              None \<Rightarrow> None
            | Some (k, s2) \<Rightarrow>
                (case skip s2 of
                   [] \<Rightarrow> None
                 | x # s3 \<Rightarrow>
                     if x \<noteq> 58 then None
                     else (case read_value n s3 of
                         None \<Rightarrow> None
                       | Some (v, s4) \<Rightarrow>
                           (case skip s4 of
                              [] \<Rightarrow> None
                            | c # s5 \<Rightarrow>
                                if c = 44 then map_option (apfst (Cons (utf8_encode k, v))) (read_members n s5)
                                else if c = 125 then Some ([(utf8_encode k, v)], s5) else None)))))"

text \<open>
  \<^verbatim>\<open>json.NewDecoder(r).Decode\<close> reads one value from the front of a text and leaves whatever follows it.
\<close>

definition read_front :: "string \<Rightarrow> (json \<times> nat list) option" where
  "read_front body = (let s = runes body in read_value (2 * length s + 1) s)"

section \<open>Writing\<close>

definition hex_digit :: "nat \<Rightarrow> nat" where
  "hex_digit d = (if d < 10 then 48 + d else 87 + d)"

text \<open>The escapes of \<^verbatim>\<open>json.Marshal\<close>; an invalid byte is written as \<^verbatim>\<open>\ufffd\<close>.\<close>

definition escape_unit :: "nat option \<Rightarrow> nat list" where
  "escape_unit u = (case u of
     None \<Rightarrow> ascii_runes [CHR 0x5C] @ ascii_runes ''ufffd''
   | Some r \<Rightarrow>
       if r = 34 \<or> r = 92 then [92, r]
       else if r = 8 then [92, 98] else if r = 12 then [92, 102] else if r = 10 then [92, 110]
       else if r = 13 then [92, 114] else if r = 9 then [92, 116]
       else if r < 32 \<or> r = 60 \<or> r = 62 \<or> r = 38 then [92, 117, 48, 48, hex_digit (r div 16), hex_digit (r mod 16)]
       else if r = 8232 then ascii_runes [CHR 0x5C] @ ascii_runes ''u2028''
       else if r = 8233 then ascii_runes [CHR 0x5C] @ ascii_runes ''u2029''
       else [r])"

definition write_string :: "string \<Rightarrow> nat list" where
  "write_string s = 34 # concat (map escape_unit (utf8_units (bytes s))) @ [34]"

fun separated :: "nat list list \<Rightarrow> nat list" where
  "separated [] = []"
| "separated [x] = x"
| "separated (x # y # xs) = x @ 44 # separated (y # xs)"

fun write_json :: "(string \<Rightarrow> nat list) \<Rightarrow> json \<Rightarrow> nat list" where
  "write_json wr JNull = ascii_runes ''null''"
| "write_json wr (JBool b) = ascii_runes (if b then ''true'' else ''false'')"
| "write_json wr (JNum lit) = ascii_runes lit"
| "write_json wr (JStr s) = wr s"
| "write_json wr (JArr vs) = 91 # separated (map (write_json wr) vs) @ [93]"
| "write_json wr (JObj kvs) = 123 # separated (map (\<lambda>(k, v). wr k @ 58 # write_json wr v) kvs) @ [125]"

definition Marshal :: "json \<Rightarrow> string" where
  "Marshal v = utf8_encode (write_json write_string v)"

section \<open>Reading what was written\<close>

lemma hex_val_digit: "d < 16 \<Longrightarrow> hex_val (hex_digit d) = Some d"
  by (auto simp: hex_val_def hex_digit_def)

lemma hex_val_literals: "hex_val 48 = Some 0" "hex_val 50 = Some 2" "hex_val 56 = Some 8" "hex_val 57 = Some 9"
  "hex_val 102 = Some 15" "hex_val 100 = Some 13"
  by (simp_all add: hex_val_def)

lemma read_string_unit:
  assumes "\<And>r. u = Some r \<Longrightarrow> scalar r"
  shows "read_string (escape_unit u @ t) = map_option (apfst (Cons (unit_rune u))) (read_string t)"
proof (cases u)
  case None
  then show ?thesis
    by (simp add: escape_unit_def ascii_runes_def read_string.simps(2) hex4_def hex_val_literals surrogate_def)
next
  case (Some r)
  have r: "scalar r" using assms Some by simp
  consider "r \<in> {34, 92, 8, 12, 10, 13, 9, 8232, 8233}" | "r \<notin> {34, 92, 8, 12, 10, 13, 9}" "r < 32 \<or> r = 60 \<or> r = 62 \<or> r = 38"
    | "r \<notin> {34, 92, 8232, 8233, 60, 62, 38}" "32 \<le> r" unfolding insert_iff empty_iff by linarith
  then show ?thesis
  proof cases
    case 1
    then show ?thesis using Some
      by (auto simp: escape_unit_def ascii_runes_def read_string.simps(2) escape_rune_def hex4_def hex_val_literals surrogate_def)
  next
    case 2
    have "r < 256" using 2 by auto
    then have d: "r div 16 < 16" by simp
    have "hex4 48 48 (hex_digit (r div 16)) (hex_digit (r mod 16)) = Some r"
      using hex_val_digit [OF d] hex_val_digit [of "r mod 16"] by (simp add: hex4_def hex_val_literals)
    moreover have "\<not> surrogate r" using \<open>r < 256\<close> by (simp add: surrogate_def)
    moreover have "escape_unit u = [92, 117, 48, 48, hex_digit (r div 16), hex_digit (r mod 16)]"
      using 2 Some by (simp add: escape_unit_def)
    ultimately show ?thesis by (simp add: Some read_string.simps(2))
  next
    case 3
    then show ?thesis using Some by (auto simp: escape_unit_def read_string.simps(2))
  qed
qed

lemma read_string_units:
  "(\<And>r. Some r \<in> set us \<Longrightarrow> scalar r)
    \<Longrightarrow> read_string (concat (map escape_unit us) @ 34 # rest) = Some (map unit_rune us, rest)"
proof (induction us)
  case (Cons u us)
  then show ?case using read_string_unit [of u "concat (map escape_unit us) @ 34 # rest"] by auto
qed (simp add: read_string.simps(2))

lemma read_write_string: "read_string (tl (write_string s) @ rest) = Some (runes s, rest)"
  using read_string_units [of "utf8_units (bytes s)" rest] utf8_units_scalar
  by (simp add: write_string_def runes_def utf8_decode_units bytes_def)

text \<open>Where a number may end.\<close>

definition number_stop :: "nat list \<Rightarrow> bool" where
  "number_stop rest \<longleftrightarrow> rest = [] \<or> \<not> is_digit_rune (hd rest) \<and> hd rest \<notin> {46, 101, 69}"

lemma read_digits_extend:
  assumes "read_digits s = Some (ds, r)" "number_stop rest"
  shows "read_digits (s @ rest) = Some (ds, r @ rest)"
proof -
  have s: "s \<noteq> []" "is_digit_rune (hd s)" "ds = takeWhile is_digit_rune s" "r = dropWhile is_digit_rune s"
    using assms(1) by (auto simp: read_digits_def split: if_splits)
  have rest: "takeWhile is_digit_rune rest = []" "dropWhile is_digit_rune rest = rest"
    using assms(2) by (cases rest; simp add: number_stop_def)+
  have "takeWhile is_digit_rune (s @ rest) = takeWhile is_digit_rune s"
    "dropWhile is_digit_rune (s @ rest) = dropWhile is_digit_rune s @ rest"
  proof -
    show "takeWhile is_digit_rune (s @ rest) = takeWhile is_digit_rune s"
      using rest(1) by (cases "\<forall>x \<in> set s. is_digit_rune x") (auto simp: takeWhile_append2 takeWhile_append1 takeWhile_eq_all_conv [THEN iffD2])
    show "dropWhile is_digit_rune (s @ rest) = dropWhile is_digit_rune s @ rest"
      using rest(2) by (cases "\<forall>x \<in> set s. is_digit_rune x") (auto simp: dropWhile_append2 dropWhile_append1 dropWhile_eq_Nil_conv [THEN iffD2])
  qed
  then show ?thesis using s by (simp add: read_digits_def)
qed

lemma read_parts_extend:
  assumes "number_stop rest"
  shows "read_int_part s = Some (x, r) \<Longrightarrow> read_int_part (s @ rest) = Some (x, r @ rest)"
    "read_frac s = Some (x, r) \<Longrightarrow> read_frac (s @ rest) = Some (x, r @ rest)"
    "read_exp s = Some (x, r) \<Longrightarrow> read_exp (s @ rest) = Some (x, r @ rest)"
proof -
  note ext = read_digits_extend [OF _ assms]
  show "read_int_part s = Some (x, r) \<Longrightarrow> read_int_part (s @ rest) = Some (x, r @ rest)"
    using ext [of s x r] by (cases s) (auto simp: read_int_part_def split: if_splits)
  show "read_frac s = Some (x, r) \<Longrightarrow> read_frac (s @ rest) = Some (x, r @ rest)"
  proof (cases s)
    case Nil
    assume "read_frac s = Some (x, r)"
    with Nil show ?thesis using assms by (cases rest) (auto simp: read_frac_def number_stop_def)
  next
    case (Cons c t)
    assume "read_frac s = Some (x, r)"
    with Cons show ?thesis using ext [of t] by (auto simp: read_frac_def split: if_splits)
  qed
  show "read_exp s = Some (x, r) \<Longrightarrow> read_exp (s @ rest) = Some (x, r @ rest)"
  proof (cases s)
    case Nil
    assume "read_exp s = Some (x, r)"
    with Nil show ?thesis using assms by (cases rest) (auto simp: read_exp_def number_stop_def)
  next
    case (Cons c t)
    assume "read_exp s = Some (x, r)"
    with Cons show ?thesis using ext [of t] ext [of "tl t"]
      by (cases t) (auto simp: read_exp_def split: if_splits)
  qed
qed

lemma read_number_extend:
  assumes "read_number s = Some (x, r)" "number_stop rest"
  shows "read_number (s @ rest) = Some (x, r @ rest)"
proof -
  have "s \<noteq> []" using assms(1) by (auto simp: read_number_def read_sign_def read_int_part_def)
  then have sign: "fst (read_sign (s @ rest)) = fst (read_sign s)" "snd (read_sign (s @ rest)) = snd (read_sign s) @ rest"
    by (cases s; simp add: read_sign_def)+
  from assms(1) obtain i s2 f s3 e where parts: "read_int_part (snd (read_sign s)) = Some (i, s2)" "read_frac s2 = Some (f, s3)"
    "read_exp s3 = Some (e, r)" "x = fst (read_sign s) @ i @ f @ e"
    by (auto simp: read_number_def split: option.splits)
  show ?thesis
    unfolding read_number_def sign
    using parts read_parts_extend(1) [OF assms(2) parts(1)] read_parts_extend(2) [OF assms(2) parts(2)]
      read_parts_extend(3) [OF assms(2) parts(3)] by simp
qed

definition json_number :: "string \<Rightarrow> bool" where
  "json_number lit \<longleftrightarrow> read_number (ascii_runes lit) = Some (ascii_runes lit, [])"

lemma char_of_ascii_runes: "map char_of (ascii_runes s) = s"
  by (simp add: ascii_runes_def comp_def)

lemma read_number_literal:
  "json_number lit \<Longrightarrow> number_stop rest \<Longrightarrow> read_number (ascii_runes lit @ rest) = Some (ascii_runes lit, rest)"
  using read_number_extend [of "ascii_runes lit" "ascii_runes lit" "[]" rest] by (simp add: json_number_def)

lemma json_number_hd:
  assumes "json_number lit"
  shows "ascii_runes lit \<noteq> [] \<and> (hd (ascii_runes lit) = 45 \<or> is_digit_rune (hd (ascii_runes lit)))"
proof -
  have "read_number s = Some r \<Longrightarrow> s \<noteq> [] \<and> (hd s = 45 \<or> is_digit_rune (hd s))" for s r
    by (cases s) (auto simp: read_number_def read_sign_def read_int_part_def read_digits_def is_digit_rune_def
        split: option.splits if_splits)
  then show ?thesis using assms unfolding json_number_def by blast
qed

fun json_ok :: "json \<Rightarrow> bool" where
  "json_ok (JNum lit) = json_number lit"
| "json_ok (JArr vs) = list_all json_ok vs"
| "json_ok (JObj kvs) = list_all (\<lambda>(k, v). json_ok v) kvs"
| "json_ok _ = True"

text \<open>What a reader gets of a value: invalid bytes in strings are replaced.\<close>

fun clean :: "json \<Rightarrow> json" where
  "clean (JStr s) = JStr (ToValidUTF8 s)"
| "clean (JArr vs) = JArr (map clean vs)"
| "clean (JObj kvs) = JObj (map (\<lambda>(k, v). (ToValidUTF8 k, clean v)) kvs)"
| "clean v = v"

definition value_stop :: "json \<Rightarrow> nat list \<Rightarrow> bool" where
  "value_stop v rest \<longleftrightarrow> (\<forall>lit. v = JNum lit \<longrightarrow> number_stop rest)"

lemma skip_noop: "s \<noteq> [] \<Longrightarrow> \<not> ws (hd s) \<Longrightarrow> skip (s @ rest) = s @ rest"
  by (cases s) (simp_all add: skip_def)

lemma skip_Cons: "\<not> ws c \<Longrightarrow> skip (c # s) = c # s"
  by (simp add: skip_def)

lemma separated_hd: "xs \<noteq> [] \<Longrightarrow> \<forall>x \<in> set xs. x \<noteq> [] \<Longrightarrow> separated xs \<noteq> [] \<and> hd (separated xs) = hd (hd xs)"
  by (induction xs rule: separated.induct) auto

lemmas structural = skip_Cons ws_def

text \<open>What is required of a way to write strings: the reader gets the runes of the string.\<close>

locale string_writer =
  fixes wr :: "string \<Rightarrow> nat list"
  assumes wr_Cons: "wr s = 34 # tl (wr s)"
    and read_wr: "read_string (tl (wr s) @ rest) = Some (runes s, rest)"
    and scalar_wr: "list_all scalar (wr s)"
begin

lemma wr_hd: "wr s \<noteq> []" "hd (wr s) = 34"
  by (subst wr_Cons, simp)+

lemma write_json_hd: "json_ok v \<Longrightarrow> write_json wr v \<noteq> [] \<and> \<not> ws (hd (write_json wr v)) \<and> hd (write_json wr v) \<noteq> 93"
proof (cases v)
  case (JNum lit)
  assume "json_ok v"
  then show ?thesis using json_number_hd [of lit] JNum by (auto simp: ws_def is_digit_rune_def)
next
  case (JStr s)
  then show ?thesis using wr_hd [of s] by (simp add: ws_def)
qed (auto simp: ascii_runes_def ws_def)

text \<open>Elements and members, given that their values are read back.\<close>

lemma read_elements_written:
  assumes "vs \<noteq> []"
    and "\<And>v rest m. v \<in> set vs \<Longrightarrow> number_stop rest \<Longrightarrow> 2 * length (write_json wr v @ rest) \<le> m
        \<Longrightarrow> read_value m (write_json wr v @ rest) = Some (clean v, rest)"
    and "2 * length (separated (map (write_json wr) vs) @ 93 # rest) + 1 \<le> m"
  shows "read_elements m (separated (map (write_json wr) vs) @ 93 # rest) = Some (map clean vs, rest)"
  using assms
proof (induction vs arbitrary: m)
  case (Cons v vs)
  note prems = Cons.prems and IH = Cons.IH
  obtain n where m: "m = Suc n" using prems(3) by (cases m) auto
  show ?case
  proof (cases vs)
    case Nil
    have "read_value n (write_json wr v @ 93 # rest) = Some (clean v, 93 # rest)"
      using prems(3) by (intro prems(2)) (simp_all add: Nil m number_stop_def is_digit_rune_def)
    then show ?thesis by (simp add: Nil m structural)
  next
    case (Cons w us)
    let ?rest = "44 # separated (map (write_json wr) vs) @ 93 # rest"
    have eq: "separated (map (write_json wr) (v # vs)) @ 93 # rest = write_json wr v @ ?rest" by (simp add: Cons)
    have "read_value n (write_json wr v @ ?rest) = Some (clean v, ?rest)"
      using prems(3) unfolding eq m by (intro prems(2)) (simp_all add: number_stop_def is_digit_rune_def)
    moreover have "read_elements n (separated (map (write_json wr) vs) @ 93 # rest) = Some (map clean vs, rest)"
    proof (rule IH)
      show "2 * length (separated (map (write_json wr) vs) @ 93 # rest) + 1 \<le> n"
        using prems(3) unfolding eq m by simp
      show "vs \<noteq> []" by (simp add: Cons)
    qed (rule prems(2); simp)
    ultimately show ?thesis unfolding eq m by (simp add: structural)
  qed
qed simp

lemma read_members_written:
  assumes "kvs \<noteq> []"
    and "\<And>k v rest m. (k, v) \<in> set kvs \<Longrightarrow> number_stop rest \<Longrightarrow> 2 * length (write_json wr v @ rest) \<le> m
        \<Longrightarrow> read_value m (write_json wr v @ rest) = Some (clean v, rest)"
    and "2 * length (separated (map (\<lambda>(k, v). wr k @ 58 # write_json wr v) kvs) @ 125 # rest) + 1 \<le> m"
  shows "read_members m (separated (map (\<lambda>(k, v). wr k @ 58 # write_json wr v) kvs) @ 125 # rest)
    = Some (map (\<lambda>(k, v). (ToValidUTF8 k, clean v)) kvs, rest)"
  using assms
proof (induction kvs arbitrary: m)
  case (Cons kv kvs)
  note prems = Cons.prems and IH = Cons.IH
  obtain k v where kv: "kv = (k, v)" by fastforce
  obtain n where m: "m = Suc n" using prems(3) by (cases m) auto
  have str: "wr k @ t = 34 # tl (wr k) @ t" for t
    using wr_Cons [of k] by (metis append_Cons)
  note key = read_wr [of k]
  let ?more = "\<lambda>xs. separated (map (\<lambda>(k, v). wr k @ 58 # write_json wr v) xs) @ 125 # rest"
  show ?case
  proof (cases kvs)
    case Nil
    have eq: "?more (kv # kvs) = wr k @ 58 # write_json wr v @ 125 # rest" by (simp add: Nil kv)
    have "read_value n (write_json wr v @ 125 # rest) = Some (clean v, 125 # rest)"
      using prems(3) unfolding eq m by (intro prems(2) [of k v]) (simp_all add: kv number_stop_def is_digit_rune_def)
    then show ?thesis unfolding eq m str by (simp add: Nil kv key structural ToValidUTF8_def)
  next
    case (Cons kv' kvs')
    let ?rest = "44 # ?more kvs"
    have eq: "?more (kv # kvs) = wr k @ 58 # write_json wr v @ ?rest" by (simp add: Cons kv)
    have "read_value n (write_json wr v @ ?rest) = Some (clean v, ?rest)"
      using prems(3) unfolding eq m by (intro prems(2) [of k v]) (simp_all add: kv number_stop_def is_digit_rune_def)
    moreover have "read_members n (?more kvs) = Some (map (\<lambda>(k, v). (ToValidUTF8 k, clean v)) kvs, rest)"
    proof (rule IH)
      show "2 * length (?more kvs) + 1 \<le> n" using prems(3) unfolding eq m by simp
      show "kvs \<noteq> []" by (simp add: Cons)
    qed (rule prems(2), rule list.set_intros(2), assumption+)
    ultimately show ?thesis unfolding eq m str by (simp add: kv key structural ToValidUTF8_def)
  qed
qed simp

lemma read_written_value:
  assumes "json_ok v" "value_stop v rest" "2 * length (write_json wr v @ rest) \<le> m"
  shows "read_value m (write_json wr v @ rest) = Some (clean v, rest)"
  using assms
proof (induction v arbitrary: rest m)
  case (JNum lit)
  obtain n where m: "m = Suc n" using JNum.prems(3) json_number_hd [of lit] JNum.prems(1) by (cases m) auto
  note hd = json_number_hd [of lit]
  obtain c t where lit: "ascii_runes lit = c # t" "c = 45 \<or> is_digit_rune c"
    using json_number_hd [of lit] JNum.prems(1) by (cases "ascii_runes lit") auto
  have "read_number (c # t @ rest) = Some (c # t, rest)"
    using read_number_literal [of lit rest] JNum.prems(1,2) lit by (simp add: value_stop_def)
  moreover have "c \<notin> {34, 91, 123, 116, 102, 110}" "\<not> ws c" using lit(2) by (auto simp: is_digit_rune_def ws_def)
  moreover have "map char_of (c # t) = lit" using char_of_ascii_runes [of lit] lit(1) by simp
  ultimately show ?case using m lit(1) by (simp add: skip_Cons)
next
  case (JStr s)
  obtain n where m: "m = Suc n" using JStr.prems(3) wr_Cons [of s] by (cases m) auto
  have eq: "wr s @ rest = 34 # tl (wr s) @ rest" using wr_Cons [of s] by (metis append_Cons)
  show ?case using read_wr [of s rest] unfolding write_json.simps eq by (simp add: m structural ToValidUTF8_def)
next
  case (JArr vs)
  obtain n where m: "m = Suc n" using JArr.prems(3) by (cases m) auto
  show ?case
  proof (cases "vs = []")
    case False
    have ok: "json_ok v" if "v \<in> set vs" for v using JArr.prems(1) that by (simp add: list_all_iff)
    have "write_json wr v \<noteq> []" if "v \<in> set vs" for v using write_json_hd [OF ok [OF that]] by blast
    then have "separated (map (write_json wr) vs) \<noteq> [] \<and> hd (separated (map (write_json wr) vs)) = hd (hd (map (write_json wr) vs))"
      using False by (intro separated_hd) auto
    moreover have "hd vs \<in> set vs" using False by simp
    ultimately have hd: "separated (map (write_json wr) vs) \<noteq> []" "\<not> ws (hd (separated (map (write_json wr) vs)))"
      "hd (separated (map (write_json wr) vs)) \<noteq> 93"
      using write_json_hd [OF ok, of "hd vs"] False by (simp_all add: hd_map)
    have skip: "skip (separated (map (write_json wr) vs) @ 93 # rest) = separated (map (write_json wr) vs) @ 93 # rest"
      using hd by (intro skip_noop)
    have "read_elements n (separated (map (write_json wr) vs) @ 93 # rest) = Some (map clean vs, rest)"
    proof (rule read_elements_written [OF False])
      show "2 * length (separated (map (write_json wr) vs) @ 93 # rest) + 1 \<le> n" using JArr.prems(3) m by simp
    qed (use JArr.IH ok in \<open>simp add: value_stop_def\<close>)
    then show ?thesis using hd by (simp add: m skip_Cons [of 91] ws_def [of 91] skip)
  qed (simp add: m structural)
next
  case (JObj kvs)
  obtain n where m: "m = Suc n" using JObj.prems(3) by (cases m) auto
  show ?case
  proof (cases "kvs = []")
    case False
    let ?text = "separated (map (\<lambda>(k, v). wr k @ 58 # write_json wr v) kvs)"
    have "?text \<noteq> [] \<and> hd ?text = hd (hd (map (\<lambda>(k, v). wr k @ 58 # write_json wr v) kvs))"
      using False by (intro separated_hd) (use wr_hd(1) in auto)
    moreover have "hd (hd (map (\<lambda>(k, v). wr k @ 58 # write_json wr v) kvs)) = 34"
      using False by (cases kvs) (auto simp: wr_hd split: prod.splits)
    ultimately have hd: "?text \<noteq> []" "hd ?text = 34" by simp_all
    have skip: "skip (?text @ 125 # rest) = ?text @ 125 # rest" using hd by (intro skip_noop) (simp_all add: ws_def)
    have "read_members n (?text @ 125 # rest) = Some (map (\<lambda>(k, v). (ToValidUTF8 k, clean v)) kvs, rest)"
    proof (rule read_members_written [OF False])
      show "2 * length (?text @ 125 # rest) + 1 \<le> n" using JObj.prems(3) m by simp
    next
      fix k v rest m
      assume "(k, v) \<in> set kvs" "number_stop rest" "2 * length (write_json wr v @ rest) \<le> m"
      moreover from this have "json_ok v" using JObj.prems(1) by (auto simp: list_all_iff)
      ultimately show "read_value m (write_json wr v @ rest) = Some (clean v, rest)"
        using JObj.IH [of "(k, v)" v rest m] by (simp add: value_stop_def snds.simps)
    qed
    then show ?thesis using hd by (simp add: m skip_Cons [of 123] ws_def [of 123] skip)
  qed (simp add: m structural)
next
  case JNull
  then obtain n where m: "m = Suc n" by (cases m) (auto simp: ascii_runes_def)
  show ?case by (simp add: m ascii_runes_def read_word_def structural)
next
  case (JBool b)
  then obtain n where m: "m = Suc n" by (cases m) (auto simp: ascii_runes_def split: if_splits)
  show ?case by (cases b) (simp_all add: m ascii_runes_def read_word_def structural)
qed

end

section \<open>The depth bound is large enough\<close>

lemma skip_length: "skip s = c # t \<Longrightarrow> length t < length s"
  using length_dropWhile_le [of ws s] by (simp add: skip_def)

lemma read_string_length: "read_string s = Some (x, t) \<Longrightarrow> length t < length s"
proof (induction s arbitrary: x rule: measure_induct_rule [of length])
  case (less s)
  have IH: "length t \<le> length u" if "read_string u = Some (y, t)" "length u < length s" for u y
    using less.IH that by fastforce
  obtain c u where s: "s = c # u" using less.prems by (cases s) simp_all
  show ?case
    using less.prems unfolding s
    by (auto simp: read_string.simps(2) [of c u] s dest!: IH low_half_length split: if_splits list.splits option.splits)
qed

lemma read_digits_length: "read_digits s = Some (x, t) \<Longrightarrow> length t < length s"
  by (cases s) (auto simp: read_digits_def length_dropWhile_le le_imp_less_Suc split: if_splits)

lemma read_number_length:
  assumes "read_number s = Some (x, t)"
  shows "length t < length s"
proof -
  from assms obtain i s2 f s3 e where parts: "read_int_part (snd (read_sign s)) = Some (i, s2)" "read_frac s2 = Some (f, s3)"
    "read_exp s3 = Some (e, t)" by (auto simp: read_number_def split: option.splits)
  have "length s2 < length (snd (read_sign s))"
    using parts(1) by (auto simp: read_int_part_def dest: read_digits_length split: list.splits if_splits)
  moreover have "length (snd (read_sign s)) \<le> length s" by (auto simp: read_sign_def split: list.splits)
  moreover have "length s3 \<le> length s2"
    using parts(2) by (auto simp: read_frac_def dest!: read_digits_length split: list.splits if_splits)
  moreover have "length t \<le> length s3"
    using parts(3) by (auto simp: read_exp_def dest!: read_digits_length split: list.splits if_splits)
  ultimately show ?thesis by linarith
qed

lemma read_word_length: "read_word w s = Some t \<Longrightarrow> w \<noteq> [] \<Longrightarrow> s \<noteq> [] \<Longrightarrow> length t < length s"
  by (auto simp: read_word_def split: if_splits)

text \<open>The values that are neither a non-empty array nor a non-empty object need no recursion.\<close>

definition flat_head :: "nat list \<Rightarrow> bool" where
  "flat_head s \<longleftrightarrow> (case skip s of [] \<Rightarrow> True | c # u \<Rightarrow>
     (c = 91 \<longrightarrow> skip u \<noteq> [] \<and> hd (skip u) = 93) \<and> (c = 123 \<longrightarrow> skip u \<noteq> [] \<and> hd (skip u) = 125))"

lemma read_value_flat: "flat_head s \<Longrightarrow> read_value (Suc n) s = read_value (Suc m) s"
  by (auto simp: flat_head_def split: list.splits)

lemma read_value_flat_length:
  assumes "flat_head s" "read_value (Suc n) s = Some (v, t)"
  shows "length t < length s"
proof (cases "skip s")
  case Nil
  then show ?thesis using assms(2) by simp
next
  case (Cons c u)
  note len = skip_length [OF Cons]
  consider "c = 34" | "c = 91 \<or> c = 123" | "c = 116 \<or> c = 102 \<or> c = 110" | "c \<notin> {34, 91, 123, 116, 102, 110}" by blast
  then show ?thesis
  proof cases
    case 1
    then show ?thesis using assms(2) Cons len by (auto dest!: read_string_length)
  next
    case 2
    then have "skip u \<noteq> []" "t = tl (skip u)" using assms Cons by (auto simp: flat_head_def)
    then show ?thesis using skip_length [of u "hd (skip u)" "tl (skip u)"] len by simp
  next
    case 3
    then show ?thesis using assms(2) Cons len by (auto dest!: read_word_length)
  next
    case 4
    then show ?thesis using assms(2) Cons len by (auto dest!: read_number_length)
  qed
qed

text \<open>
  Whatever some depth suffices for is read with twice the length of the text as well: the
  bound of \<^const>\<open>read_front\<close> never makes a text fail.
\<close>

lemma read_deep:
  "read_value n s = Some (v, t) \<Longrightarrow> length t < length s \<and> (\<forall>m \<ge> 2 * length s. read_value m s = Some (v, t))"
  "read_elements n s = Some (vs, t) \<Longrightarrow> length t < length s \<and> (\<forall>m \<ge> 2 * length s + 1. read_elements m s = Some (vs, t))"
  "read_members n s = Some (kvs, t) \<Longrightarrow> length t < length s \<and> (\<forall>m \<ge> 2 * length s + 1. read_members m s = Some (kvs, t))"
proof (induction n s and n s and n s arbitrary: v t and vs t and kvs t rule: read_value_read_elements_read_members.induct)
  case (2 n s)
  obtain c u where s: "skip s = c # u" using 2(3) by (cases "skip s") simp_all
  have len: "length u < length s" by (rule skip_length [OF s])
  have step: "\<exists>k. m = Suc k \<and> 2 * length u + 1 \<le> k" if "2 * length s \<le> m" for m
    using that len by (cases m) auto
  consider "flat_head s" | "\<not> flat_head s" "c = 91" "\<not> (skip u \<noteq> [] \<and> hd (skip u) = 93)"
    | "\<not> flat_head s" "c = 123" "\<not> (skip u \<noteq> [] \<and> hd (skip u) = 125)"
    using s by (auto simp: flat_head_def)
  then show ?case
  proof cases
    case 1
    have "read_value m s = Some (v, t)" if m: "2 * length s \<le> m" for m
    proof -
      obtain k where "m = Suc k" using step [OF m] by blast
      then show ?thesis using read_value_flat [OF 1, of k n] 2(3) by simp
    qed
    then show ?thesis using read_value_flat_length [OF 1 2(3)] by blast
  next
    case arr: 2
    obtain vs where v: "v = JArr vs" "read_elements n u = Some (vs, t)" using 2(3) s arr by auto
    have "length t < length u \<and> (\<forall>m \<ge> 2 * length u + 1. read_elements m u = Some (vs, t))"
      by (rule 2(1) [OF s _ arr(2,3) v(2)]) (simp add: arr(2))
    then show ?thesis using len arr s v(1) step by fastforce
  next
    case obj: 3
    obtain kvs where v: "v = JObj kvs" "read_members n u = Some (kvs, t)" using 2(3) s obj by auto
    have "length t < length u \<and> (\<forall>m \<ge> 2 * length u + 1. read_members m u = Some (kvs, t))"
      by (rule 2(2) [OF s _ _ obj(2,3) v(2)]) (simp_all add: obj(2))
    then show ?thesis using len obj s v(1) step by fastforce
  qed
next
  case (4 n s)
  obtain w s1 where v: "read_value n s = Some (w, s1)" using 4(3) by (auto split: option.splits)
  obtain c s2 where c: "skip s1 = c # s2" using 4(3) v by (auto split: list.splits)
  have IH: "length s1 < length s" "\<And>m. 2 * length s \<le> m \<Longrightarrow> read_value m s = Some (w, s1)"
    using 4(1) [OF v] by auto
  have len: "length s2 < length s1" by (rule skip_length [OF c])
  show ?case
  proof (cases "c = 44")
    case True
    obtain us where us: "read_elements n s2 = Some (us, t)" "vs = w # us" using 4(3) v c True by auto
    have more: "length t < length s2" "\<And>m. 2 * length s2 + 1 \<le> m \<Longrightarrow> read_elements m s2 = Some (us, t)"
      using 4(2) [OF v _ c True us(1)] by auto
    have "read_elements m s = Some (vs, t)" if m: "2 * length s + 1 \<le> m" for m
    proof -
      obtain k where k: "m = Suc k" "2 * length s \<le> k" using m by (cases m) auto
      moreover have "read_elements k s2 = Some (us, t)" using k(2) IH(1) len by (intro more(2)) simp
      ultimately show ?thesis using IH(2) [OF k(2)] c True us(2) by simp
    qed
    then show ?thesis using IH(1) len more(1) by simp
  next
    case False
    have "read_elements m s = Some (vs, t)" if m: "2 * length s + 1 \<le> m" for m
    proof -
      obtain k where k: "m = Suc k" "2 * length s \<le> k" using m by (cases m) auto
      then show ?thesis using IH(2) [OF k(2)] 4(3) v c False by simp
    qed
    moreover have "t = s2" using 4(3) v c False by (simp split: if_splits)
    ultimately show ?thesis using IH(1) len by simp
  qed
next
  case (6 n s)
  obtain q s1 where q: "skip s = q # s1" using 6(3) by (cases "skip s") simp_all
  have q34: "q = 34" using 6(3) q by (simp split: if_splits)
  obtain k s2 where k: "read_string s1 = Some (k, s2)" using 6(3) q q34 by (auto split: option.splits)
  obtain x s3 where x: "skip s2 = x # s3" using 6(3) q q34 k by (auto split: list.splits)
  have x58: "x = 58" using 6(3) q q34 k x by (simp split: if_splits)
  obtain w s4 where v: "read_value n s3 = Some (w, s4)" using 6(3) q q34 k x x58 by (auto split: option.splits)
  obtain c s5 where c: "skip s4 = c # s5" using 6(3) q q34 k x x58 v by (auto split: list.splits)
  note pre = q q34 k x x58 c
  have IH: "length s4 < length s3" "\<And>m. 2 * length s3 \<le> m \<Longrightarrow> read_value m s3 = Some (w, s4)"
    using 6(1) [OF q _ k _ x _ v] q34 x58 by auto
  have len: "length s5 < length s4" "length s3 < length s" 
    using skip_length [OF c] skip_length [OF q] read_string_length [OF k] skip_length [OF x] by simp_all
  show ?case
  proof (cases "c = 44")
    case True
    obtain us where us: "read_members n s5 = Some (us, t)" "kvs = (utf8_encode k, w) # us" using 6(3) pre v True by auto
    have more: "length t < length s5" "\<And>m. 2 * length s5 + 1 \<le> m \<Longrightarrow> read_members m s5 = Some (us, t)"
      using 6(2) [OF q _ k _ x _ v _ c True us(1)] q34 x58 by auto
    have "read_members m s = Some (kvs, t)" if m: "2 * length s + 1 \<le> m" for m
    proof -
      obtain j where j: "m = Suc j" "2 * length s \<le> j" using m by (cases m) auto
      moreover have "read_members j s5 = Some (us, t)" using j(2) IH(1) len by (intro more(2)) simp
      moreover have "read_value j s3 = Some (w, s4)" using j(2) len by (intro IH(2)) simp
      ultimately show ?thesis using pre True us(2) by simp
    qed
    then show ?thesis using IH(1) len more(1) by simp
  next
    case False
    have "read_members m s = Some (kvs, t)" if m: "2 * length s + 1 \<le> m" for m
    proof -
      obtain j where j: "m = Suc j" "2 * length s \<le> j" using m by (cases m) auto
      then have "read_value j s3 = Some (w, s4)" using len by (intro IH(2)) simp
      then show ?thesis using j(1) 6(3) v pre False by simp
    qed
    moreover have "t = s5" using 6(3) v pre False by (simp split: if_splits)
    ultimately show ?thesis using IH(1) len by simp
  qed
qed simp_all

section \<open>Bodies\<close>

lemma runes_encode_append: "list_all scalar rs \<Longrightarrow> runes (utf8_encode rs @ t) = rs @ runes t"
proof -
  have "list_all scalar rs \<Longrightarrow> utf8_units (concat (map encode_rune rs) @ bs) = map Some rs @ utf8_units bs" for bs
    by (induction rs) (simp_all add: utf8_units_encode)
  then show "list_all scalar rs \<Longrightarrow> runes (utf8_encode rs @ t) = rs @ runes t"
    by (simp add: runes_def bytes_encode utf8_decode_units comp_def)
qed

lemma scalar_ascii_runes: "list_all scalar (ascii_runes s)"
proof -
  have "scalar (of_char c)" for c :: char using nat_of_char_less_256 [of c] unfolding scalar_def by linarith
  then show ?thesis by (simp add: ascii_runes_def list_all_iff)
qed

lemma scalar_escape_unit: "(\<And>r. u = Some r \<Longrightarrow> scalar r) \<Longrightarrow> list_all scalar (escape_unit u)"
  using scalar_ascii_runes by (cases u) (auto simp: escape_unit_def hex_digit_def scalar_def)

lemma scalar_write_string: "list_all scalar (write_string s)"
proof -
  have "list_all scalar (escape_unit u)" if "u \<in> set (utf8_units (bytes s))" for u
    using that utf8_units_scalar by (intro scalar_escape_unit) blast
  then show ?thesis by (auto simp: write_string_def list_all_iff scalar_def [of 34])
qed

lemma scalar_separated: "\<forall>x \<in> set xs. list_all scalar x \<Longrightarrow> list_all scalar (separated xs)"
  by (induction xs rule: separated.induct) (auto simp: scalar_def [of 44])

context string_writer
begin

lemma scalar_write_json: "list_all scalar (write_json wr v)"
proof (induction v)
  case (JArr vs)
  then show ?case using scalar_separated [of "map (write_json wr) vs"] by (auto simp: scalar_def [of 91] scalar_def [of 93])
next
  case (JObj kvs)
  have "list_all scalar (wr k @ 58 # write_json wr v)" if "(k, v) \<in> set kvs" for k v
    using JObj [of "(k, v)" v] that scalar_wr by (simp add: scalar_def [of 58])
  then have "list_all scalar (separated (map (\<lambda>(k, v). wr k @ 58 # write_json wr v) kvs))"
    by (intro scalar_separated) auto
  then show ?case by (simp add: scalar_def [of 123] scalar_def [of 125])
qed (simp_all add: scalar_ascii_runes scalar_wr)

text \<open>
  A written value is read back from the front of a body, with invalid bytes of its strings
  replaced, whatever follows it, unless it is a number that goes on.
\<close>

lemma read_front_written:
  assumes "json_ok v" "\<And>lit. v = JNum lit \<Longrightarrow> number_stop (runes trailing)"
  shows "read_front (utf8_encode (write_json wr v) @ trailing) = Some (clean v, runes trailing)"
  using assms read_written_value [of v "runes trailing" "2 * length (write_json wr v @ runes trailing) + 1"]
  by (simp add: read_front_def runes_encode_append scalar_write_json value_stop_def Let_def
      del: read_value.simps)

end

interpretation go_string: string_writer write_string
  by unfold_locales (simp_all add: read_write_string scalar_write_string, simp add: write_string_def)

lemma read_front_complete:
  assumes "read_value n (runes body) = Some (v, t)"
  shows "read_front body = Some (v, t)"
proof -
  have "read_value (2 * length (runes body) + 1) (runes body) = Some (v, t)"
    using read_deep(1) [OF assms] le_add1 by blast
  then show ?thesis by (simp add: read_front_def Let_def del: read_value.simps)
qed

end
