(* ===== verification/Go_Float.thy ===== *)
theory Go_Float
  imports Json
begin

text \<open>
  The \<^verbatim>\<open>float64\<close> numbers of Go: their bits, the correctly rounded conversion from a decimal literal
  (\<^verbatim>\<open>strconv.ParseFloat\<close>) and the shortest decimal that is converted back, in the format
  of \<^verbatim>\<open>encoding/json\<close>.
\<close>

section \<open>Bits\<close>

text \<open>
  The bits of a \<^verbatim>\<open>float64\<close> value: sign, biased exponent and fraction; below the smallest normal
  exponent the encoding is that of the subnormal numbers.
\<close>

definition float_exp :: "rat \<Rightarrow> int" where
  "float_exp x = max (ilog2 x) (- 1022)"

definition float_mag :: "rat \<Rightarrow> nat" where
  "float_mag x = (if x = 0 then 0 else nat ((float_exp x + 1022) * 2 ^ 52 + \<lfloor>x / 2 powi (float_exp x - 52)\<rfloor>))"

definition float_bits :: "rat \<Rightarrow> 64 word" where
  "float_bits x = (if x < 0 then 2 ^ 63 else 0) + of_nat (float_mag \<bar>x\<bar>)"

text \<open>The magnitude of infinity; the finite numbers are below it.\<close>

definition inf_mag :: nat where
  "inf_mag = 0x7FF0000000000000"

definition mag_val :: "nat \<Rightarrow> rat" where
  "mag_val m = (if m < 2 ^ 52 then of_nat m * 2 powi (- 1074)
     else of_nat (2 ^ 52 + m mod 2 ^ 52) * 2 powi (int (m div 2 ^ 52) - 1075))"

definition bits_mag :: "64 word \<Rightarrow> nat" where
  "bits_mag b = unat b mod 2 ^ 63"

definition bits_neg :: "64 word \<Rightarrow> bool" where
  "bits_neg b \<longleftrightarrow> 2 ^ 63 \<le> unat b"

definition finite_float :: "64 word \<Rightarrow> bool" where
  "finite_float b \<longleftrightarrow> bits_mag b < inf_mag"

section \<open>From decimal\<close>

text \<open>The magnitude of the number nearest to a rational, ties to even.\<close>

definition round_mag :: "rat \<Rightarrow> nat" where
  "round_mag x = (if x = 0 then 0 else nat ((float_exp x + 1022) * 2 ^ 52 + rne (x / 2 powi (float_exp x - 52))))"

text \<open>
  The value of a literal that has the syntax of a JSON number.  The exponent stops growing at five digits,
  as in \<^verbatim>\<open>strconv\<close>, where larger ones could only matter for literals of that length.
\<close>

definition exp_val :: "string \<Rightarrow> nat" where
  "exp_val s = foldl (\<lambda>e c. if e < 10000 then e * 10 + digit_val c else e) 0 s"

definition exponent :: "string \<Rightarrow> int" where
  "exponent s = (case s of [] \<Rightarrow> 0
     | _ # t \<Rightarrow> (case split_sign t of (neg, ds) \<Rightarrow> if neg then - int (exp_val ds) else int (exp_val ds)))"

definition literal_mag :: "string \<Rightarrow> rat" where
  "literal_mag s =
     (let ip = takeWhile is_digit s; s2 = dropWhile is_digit s;
          point = (s2 \<noteq> [] \<and> hd s2 = CHR ''.'');
          fp = (if point then takeWhile is_digit (tl s2) else []);
          s3 = (if point then dropWhile is_digit (tl s2) else s2)
      in of_nat (digits_val 0 (ip @ fp)) * 10 powi (exponent s3 - int (length fp)))"

definition ParseFloat :: "string \<Rightarrow> 64 word option" where
  "ParseFloat s =
     (case split_sign s of (neg, t) \<Rightarrow>
        let m = round_mag (literal_mag t)
        in if inf_mag \<le> m then None else Some ((if neg then 2 ^ 63 else 0) + of_nat m))"

section \<open>To decimal\<close>

text \<open>The decimal exponent of a positive number: \<open>10\<^sup>k \<le> x < 10\<^sup>k\<^sup>+\<^sup>1\<close>.\<close>

definition ilog10 :: "rat \<Rightarrow> int" where
  "ilog10 x = (if 1 \<le> x then int (floorlog 10 (nat \<lfloor>x\<rfloor>)) - 1 else - int (floorlog 10 (nat \<lceil>1 / x\<rceil> - 1)))"

text \<open>
  The decimal of \<open>n\<close> digits nearest to the number, or else its other neighbour, if it is
  converted back to the number: significand and exponent.
\<close>

definition unit_of :: "rat \<Rightarrow> nat \<Rightarrow> int" where
  "unit_of x n = ilog10 x - int n + 1"

definition decimal_of :: "nat \<Rightarrow> nat \<Rightarrow> (nat \<times> int) option" where
  "decimal_of m n =
     (let x = mag_val m; q = unit_of x n; s = 10 powi q; near = rne (x / s); lo = \<lfloor>x / s\<rfloor>;
          other = (if near = lo then lo + 1 else lo)
      in if round_mag (of_int near * s) = m then Some (nat near, q)
         else if round_mag (of_int other * s) = m then Some (nat other, q) else None)"

text \<open>The fewest digits that suffice; seventeen always do.\<close>

definition shortest :: "nat \<Rightarrow> nat \<times> int" where
  "shortest m = (case filter (\<lambda>r. r \<noteq> None) (map (decimal_of m) [1..<18]) of Some r # _ \<Rightarrow> r | _ \<Rightarrow> (0, 0))"

text \<open>\<^verbatim>\<open>strconv.AppendFloat\<close> with precision \<open>-1\<close>, formats \<^verbatim>\<open>f\<close> and \<^verbatim>\<open>e\<close>: digits and position of the point.\<close>

definition trim_zeros :: "string \<Rightarrow> string" where
  "trim_zeros s = rev (dropWhile (\<lambda>c. c = CHR ''0'') (rev s))"

definition fmtF :: "string \<Rightarrow> int \<Rightarrow> string" where
  "fmtF ds dp =
     (if dp \<le> 0 then ''0.'' @ replicate (nat (- dp)) CHR ''0'' @ ds
      else if length ds \<le> nat dp then ds @ replicate (nat dp - length ds) CHR ''0''
      else take (nat dp) ds @ ''.'' @ drop (nat dp) ds)"

definition fmtE :: "string \<Rightarrow> int \<Rightarrow> string" where
  "fmtE ds dp =
     [hd ds] @ (if tl ds = [] then [] else ''.'' @ tl ds) @ ''e''
       @ (if dp - 1 < 0 then ''-'' else ''+'') @ show_nat (nat \<bar>dp - 1\<bar>)"

text \<open>
  The encoder of \<^verbatim>\<open>encoding/json\<close> for finite numbers: exponents only below \<open>10\<^sup>-\<^sup>6\<close> and from \<open>10\<^sup>2\<^sup>1\<close> on, and then
  without a leading zero.
\<close>

definition mag_text :: "nat \<Rightarrow> string" where
  "mag_text m = (if m = 0 then ''0'' else case shortest m of (d, q) \<Rightarrow>
     let dp = int (length (show_nat d)) + q; ds = trim_zeros (show_nat d)
     in if m < 0x3EB0C6F7A0B5ED8D \<or> 0x444B1AE4D6E2EF50 \<le> m then fmtE ds dp else fmtF ds dp)"

definition FormatFloat :: "64 word \<Rightarrow> string" where
  "FormatFloat b = (if bits_neg b then ''-'' else []) @ mag_text (bits_mag b)"

section \<open>Order\<close>

lemma float_significand:
  assumes "0 < x"
  shows "0 \<le> \<lfloor>x / 2 powi (float_exp x - 52)\<rfloor>" "\<lfloor>x / 2 powi (float_exp x - 52)\<rfloor> < 2 ^ 53"
    "float_exp x = ilog2 x \<Longrightarrow> 2 ^ 52 \<le> \<lfloor>x / 2 powi (float_exp x - 52)\<rfloor>"
proof -
  have scale: "(2::rat) powi (float_exp x + 1) = 2 ^ 53 * 2 powi (float_exp x - 52)"
    "(2::rat) powi (float_exp x) = 2 ^ 52 * 2 powi (float_exp x - 52)"
    by (simp_all add: power_int_add power_int_diff)
  show "0 \<le> \<lfloor>x / 2 powi (float_exp x - 52)\<rfloor>" using assms by simp
  have "(2::rat) powi (ilog2 x + 1) \<le> 2 powi (float_exp x + 1)" unfolding powi_le_powi_iff by (simp add: float_exp_def)
  then have "x < 2 ^ 53 * 2 powi (float_exp x - 52)" using ilog2_bounds(2) [OF assms] scale by linarith
  then have "x / 2 powi (float_exp x - 52) < of_int (2 ^ 53)" by (simp add: pos_divide_less_eq)
  then show "\<lfloor>x / 2 powi (float_exp x - 52)\<rfloor> < 2 ^ 53" unfolding floor_less_iff .
  assume "float_exp x = ilog2 x"
  then have "2 ^ 52 * 2 powi (float_exp x - 52) \<le> x" using ilog2_bounds(1) [OF assms] scale by simp
  then have "of_int (2 ^ 52) \<le> x / 2 powi (float_exp x - 52)" by (simp add: pos_le_divide_eq)
  then show "2 ^ 52 \<le> \<lfloor>x / 2 powi (float_exp x - 52)\<rfloor>" unfolding le_floor_iff .
qed

lemma float_mag_mono:
  assumes "0 \<le> x" "x \<le> y"
  shows "float_mag x \<le> float_mag y"
proof (cases "x = 0")
  case False
  then have pos: "0 < x" "0 < y" using assms by linarith+
  note sx = float_significand [OF pos(1)] and sy = float_significand [OF pos(2)]
  have "(2::rat) powi (ilog2 x) < 2 powi (ilog2 y + 1)" using ilog2_bounds [OF pos(1)] ilog2_bounds [OF pos(2)] assms(2) by linarith
  then have le: "ilog2 x \<le> ilog2 y" unfolding powi_less_powi_iff by simp
  let ?f = "\<lambda>z. (float_exp z + 1022) * 2 ^ 52 + \<lfloor>z / 2 powi (float_exp z - 52)\<rfloor>"
  have "?f x \<le> ?f y"
  proof (cases "float_exp x = float_exp y")
    case True
    have "x / 2 powi (float_exp y - 52) \<le> y / 2 powi (float_exp y - 52)" using assms(2) by (simp add: divide_right_mono)
    then show ?thesis unfolding True using floor_mono by fastforce
  next
    case False
    then have e: "float_exp x + 1 \<le> float_exp y" "float_exp y = ilog2 y" using le by (auto simp: float_exp_def max_def split: if_splits)
    have step: "(a + 1022) * 2 ^ 52 + b \<le> (c + 1022) * 2 ^ 52 + d" if "a + 1 \<le> c" "b < 2 ^ 53" "2 ^ 52 \<le> d" for a b c d :: int
      using that by simp
    show ?thesis by (rule step [OF e(1) sx(2) sy(3) [OF e(2)]])
  qed
  then show ?thesis using pos unfolding float_mag_def by simp
qed (simp add: float_mag_def)

section \<open>Rounding to the nearest number\<close>

lemma rne_near:
  assumes "\<bar>z - of_int i\<bar> < 1 / 2"
  shows "rne z = i"
proof -
  have "\<lfloor>z\<rfloor> = i \<or> \<lfloor>z\<rfloor> = i - 1" using assms by linarith
  then show ?thesis using assms by (auto simp: rne_def Let_def)
qed

lemma rne_scaled:
  assumes "0 < u" "\<bar>y - of_int i * u\<bar> < u / 2"
  shows "rne (y / u) = i"
proof (rule rne_near)
  have "y / u - of_int i = (y - of_int i * u) / u" using assms(1) by (simp add: diff_divide_distrib)
  then show "\<bar>y / u - of_int i\<bar> < 1 / 2" using assms by (simp add: abs_divide divide_less_eq)
qed

lemma powi_52: "(2::rat) ^ 52 * 2 powi (e - 52) = 2 powi e" "(2::rat) ^ 53 * 2 powi (e - 52) = 2 powi (e + 1)"
  "(2::rat) powi (e - 1 - 52) = 2 powi (e - 52) / 2" "(2::rat) ^ 51 * 2 powi (e - 52) = 2 powi (e - 1)"
  by (simp_all add: power_int_add power_int_diff)

text \<open>A positive finite number: an integral significand of at most 53 bits over a unit.\<close>

lemma mag_val_parts:
  assumes "0 < m"
  obtains E M where "mag_val m = of_int M * 2 powi (E - 52)" "float_exp (mag_val m) = E" "0 < M" "M < 2 ^ 53"
    "- 1022 \<le> E" "E = - 1022 \<or> 2 ^ 52 \<le> M" "int m = (E + 1022) * 2 ^ 52 + M" "mag_val m < 2 powi (E + 1)"
proof (cases "m < 2 ^ 52")
  case True
  have x: "mag_val m = of_int (int m) * 2 powi (- 1022 - 52)" using True by (simp add: mag_val_def)
  have "(of_nat m :: rat) < 2 ^ 52" using True by (metis of_nat_less_iff of_nat_numeral of_nat_power)
  then have lt: "mag_val m < 2 powi (- 1022)" unfolding x powi_52(1) [of "- 1022", symmetric] of_int_of_nat_eq
    by (rule mult_strict_right_mono) simp
  have pos: "0 < mag_val m" using assms by (simp add: x)
  have "(2::rat) powi (ilog2 (mag_val m)) < 2 powi (- 1022)" using ilog2_bounds(1) [OF pos] lt by linarith
  then have "float_exp (mag_val m) = - 1022" unfolding powi_less_powi_iff by (simp add: float_exp_def)
  moreover have "mag_val m < 2 powi (- 1022 + 1)" using lt powi_less_powi_iff [of "- 1022" "- 1022 + 1"] by linarith
  ultimately show ?thesis using that [OF x] assms True by simp
next
  case False
  define F where "F = m mod 2 ^ 52"
  define e where "e = m div 2 ^ 52"
  have F: "F < 2 ^ 52" by (simp add: F_def)
  have e: "1 \<le> e" using False by (simp add: e_def less_eq_div_iff_mult_less_eq)
  have m: "m = e * 2 ^ 52 + F" by (simp add: e_def F_def)
  let ?E = "int e - 1023" and ?M = "int (2 ^ 52 + F)"
  have x: "mag_val m = of_int ?M * 2 powi (?E - 52)" using False by (simp add: mag_val_def F_def e_def)
  have scale: "(2::rat) powi ?E = 2 ^ 52 * 2 powi (?E - 52)" "(2::rat) powi (?E + 1) = 2 ^ 53 * 2 powi (?E - 52)"
    by (simp_all only: powi_52)
  have M: "(2::int) ^ 52 \<le> ?M" "?M < 2 ^ 53" using F by simp_all
  then have "(2::rat) ^ 52 \<le> of_int ?M" "of_int ?M < (2::rat) ^ 53"
    by (metis of_int_le_iff of_int_numeral of_int_power, metis of_int_less_iff of_int_numeral of_int_power)
  then have b: "2 powi ?E \<le> mag_val m" "mag_val m < 2 powi (?E + 1)" unfolding x scale
    by (simp_all add: mult_right_mono mult_strict_right_mono del: of_int_of_nat_eq)
  then have "ilog2 (mag_val m) = ?E" by (rule ilog2_unique)
  then have "float_exp (mag_val m) = ?E" using e by (simp add: float_exp_def)
  then show ?thesis
    using that [OF x] M e b(2) m by (simp add: algebra_simps)
qed

lemma float_exp_powi: "2 powi e \<le> y \<Longrightarrow> y < 2 powi (e + 1) \<Longrightarrow> - 1022 \<le> e \<Longrightarrow> float_exp y = e"
  by (simp add: float_exp_def ilog2_unique)

lemma float_exp_cases:
  assumes "0 < y"
  shows "float_exp y = - 1022 \<and> y < 2 powi (- 1021) \<or> - 1022 \<le> float_exp y \<and> 2 powi (float_exp y) \<le> y \<and> y < 2 powi (float_exp y + 1)"
proof (cases "- 1022 \<le> ilog2 y")
  case True
  then show ?thesis using ilog2_bounds [OF assms] by (simp add: float_exp_def)
next
  case False
  then have "(2::rat) powi (ilog2 y + 1) \<le> 2 powi (- 1021)" unfolding powi_le_powi_iff by simp
  then show ?thesis using False ilog2_bounds(2) [OF assms] by (auto simp: float_exp_def)
qed

text \<open>Whatever is closer to a number than a part in \<open>2\<^sup>5\<^sup>4\<close> is rounded to it.\<close>

lemma round_mag_near:
  assumes "0 < m" and near: "\<bar>y - mag_val m\<bar> < mag_val m / 2 ^ 54"
  shows "round_mag y = m"
proof -
  obtain E M where x: "mag_val m = of_int M * 2 powi (E - 52)" "float_exp (mag_val m) = E" and M: "0 < M" "M < 2 ^ 53"
    and E: "- 1022 \<le> E" "E = - 1022 \<or> 2 ^ 52 \<le> M" and m: "int m = (E + 1022) * 2 ^ 52 + M"
    by (rule mag_val_parts [OF assms(1)])
  define u :: rat where "u = 2 powi (E - 52)"
  have u: "0 < u" by (simp add: u_def)
  have scale: "(2::rat) powi E = 2 ^ 52 * u" "(2::rat) powi (E + 1) = 2 ^ 53 * u" "2 powi (E - 1 - 52) = u / 2"
    by (simp_all only: u_def powi_52)
  have xu: "mag_val m = of_int M * u" using x(1) by (simp add: u_def)
  have Mr: "of_int M \<le> (2::rat) ^ 53 - 1" 
  proof -
    have "(of_int M :: rat) \<le> of_int (2 ^ 53 - 1)" unfolding of_int_le_iff using M(2) by simp
    then show ?thesis by simp
  qed
  have "of_int M * u / 2 ^ 54 < u / 2" using Mr u by (simp add: divide_less_eq mult_less_cancel_right_disj)
  then have d: "\<bar>y - of_int M * u\<bar> < u / 2" using near unfolding xu by linarith
  have M1: "(1::rat) \<le> of_int M" using M(1) by simp
  then have "u \<le> of_int M * u" using u by simp
  then have y: "0 < y" using d u by linarith
  have "of_int M * u \<le> (2 ^ 53 - 1) * u" using Mr u by (intro mult_right_mono) simp_all
  then have "of_int M * u \<le> 2 ^ 53 * u - u" unfolding left_diff_distrib mult_1 .
  then have top: "y < 2 powi (E + 1)" using d u unfolding scale by linarith
  show ?thesis
  proof (cases "float_exp y = E")
    case True
    have "rne (y / u) = M" by (rule rne_scaled [OF u d])
    then show ?thesis using True y m M(1) E(1) by (simp add: round_mag_def u_def)
  next
    case False
    have "float_exp y \<le> E"
    proof (rule ccontr)
      assume "\<not> float_exp y \<le> E"
      then have "(2::rat) powi (E + 1) \<le> 2 powi (float_exp y)" "float_exp y \<noteq> - 1022" using E(1) unfolding powi_le_powi_iff by linarith+
      then show False using float_exp_cases [OF y] top by auto
    qed
    then have less: "float_exp y < E" using False by simp
    then have E52: "2 ^ 52 \<le> M" "- 1022 < E" using E(2) float_exp_cases [OF y] by auto
    have "y < 2 powi (float_exp y + 1)" using float_exp_cases [OF y] by auto
    moreover have "(2::rat) powi (float_exp y + 1) \<le> 2 powi E" using less unfolding powi_le_powi_iff by simp
    ultimately have low: "y < 2 ^ 52 * u" using scale(1) by linarith
    have "M \<le> 2 ^ 52"
    proof (rule ccontr)
      assume "\<not> M \<le> 2 ^ 52"
      then have "(of_int (2 ^ 52 + 1) :: rat) \<le> of_int M" unfolding of_int_le_iff by simp
      then have "(2::rat) ^ 52 + 1 \<le> of_int M" by simp
      then have "(2 ^ 52 + 1) * u \<le> of_int M * u" using u by (intro mult_right_mono) simp_all
      then have "2 ^ 52 * u + u \<le> of_int M * u" unfolding distrib_right mult_1 .
      then show False using d low u by linarith
    qed
    then have M52: "M = 2 ^ 52" using E52(1) by simp
    have d4: "\<bar>y - 2 ^ 52 * u\<bar> < u / 4" using near unfolding xu M52 by simp
    have "2 ^ 52 * u = 2 * (2 ^ 51 * u)" "u \<le> 2 ^ 51 * u" using u by simp_all
    then have "2 ^ 51 * u \<le> y" using d4 u by linarith
    moreover have "(2::rat) powi (E - 1) = 2 ^ 51 * u" by (simp only: u_def powi_52)
    ultimately have e: "float_exp y = E - 1" using low scale(1) E52(2) by (intro float_exp_powi) simp_all
    have "rne (y / (u / 2)) = 2 ^ 53" using u d4 by (intro rne_scaled) simp_all
    then have "round_mag y = nat ((E - 1 + 1022) * 2 ^ 52 + 2 ^ 53)" 
      using y unfolding round_mag_def e scale(3) by simp
    then show ?thesis using m M52 by simp
  qed
qed

section \<open>Seventeen digits are enough\<close>

lemma powi10_le_iff: "(10::rat) powi a \<le> 10 powi b \<longleftrightarrow> a \<le> b" "(10::rat) powi a < 10 powi b \<longleftrightarrow> a < b"
proof -
  show lt: "(10::rat) powi a < 10 powi b \<longleftrightarrow> a < b" for a b
    using power_int_strict_increasing [of a b "10::rat"] power_int_strict_increasing [of b a "10::rat"]
    by (cases a b rule: linorder_cases) auto
  show "(10::rat) powi a \<le> 10 powi b \<longleftrightarrow> a \<le> b" using lt [of b a] by linarith
qed

lemma ilog10_bounds:
  assumes "0 < x"
  shows "10 powi (ilog10 x) \<le> x" "x < 10 powi (ilog10 x + 1)"
proof -
  have "10 powi (ilog10 x) \<le> x \<and> x < 10 powi (ilog10 x + 1)"
  proof (cases "1 \<le> x")
    case True
    define n where "n = nat \<lfloor>x\<rfloor>"
    have n: "0 < n" "of_nat n \<le> x" "x < of_nat (Suc n)" using True unfolding n_def by (simp, linarith, simp, linarith)
    obtain k where k: "floorlog 10 n = Suc k" using n(1) floorlog_eq_zero_iff [of 10 n] by (cases "floorlog 10 n") auto
    have b: "10 ^ k \<le> n" "Suc n \<le> 10 ^ Suc k" using floorlog_bounds [of n 10] n(1) k by auto
    have "(10::rat) ^ k \<le> of_nat n" "of_nat (Suc n) \<le> (10::rat) ^ Suc k"
      using b by (metis of_nat_le_iff of_nat_numeral of_nat_power)+
    moreover have "ilog10 x = int k" "ilog10 x + 1 = int (Suc k)" using True k by (simp_all add: ilog10_def n_def)
    ultimately show ?thesis using n by (simp only: power_int_of_nat) linarith
  next
    case False
    define n where "n = nat \<lceil>1 / x\<rceil> - 1"
    have y: "1 < 1 / x" using False assms by simp
    then have n: "0 < n" "of_nat n < 1 / x" "1 / x \<le> of_nat (Suc n)" unfolding n_def by linarith+
    obtain k where k: "floorlog 10 n = Suc k" using n(1) floorlog_eq_zero_iff [of 10 n] by (cases "floorlog 10 n") auto
    have b: "10 ^ k \<le> n" "Suc n \<le> 10 ^ Suc k" using floorlog_bounds [of n 10] n(1) k by auto
    have "(10::rat) ^ k \<le> of_nat n" "of_nat (Suc n) \<le> (10::rat) ^ Suc k"
      using b by (metis of_nat_le_iff of_nat_numeral of_nat_power)+
    then have "(10::rat) ^ k < 1 / x" "1 / x \<le> 10 ^ Suc k" using n by linarith+
    moreover have "ilog10 x = - int (Suc k)" "ilog10 x + 1 = - int k" using False k by (simp_all add: ilog10_def n_def)
    ultimately show ?thesis
      using assms by (simp only: power_int_minus power_int_of_nat) (simp add: field_simps)
  qed
  then show "10 powi (ilog10 x) \<le> x" "x < 10 powi (ilog10 x + 1)" by auto
qed

lemma mag_val_pos: "0 < m \<Longrightarrow> 0 < mag_val m"
  by (cases "m < 2 ^ 52") (simp_all add: mag_val_def)

lemma unit_scale:
  assumes "0 < x"
  shows "10 powi (int n - 1) \<le> x / 10 powi (unit_of x n)" "x / 10 powi (unit_of x n) < 10 ^ n"
proof -
  have "(10::rat) powi (ilog10 x) = 10 powi (int n - 1) * 10 powi (unit_of x n)"
    "(10::rat) powi (ilog10 x + 1) = 10 ^ n * 10 powi (unit_of x n)"
    by (simp_all add: unit_of_def power_int_add power_int_diff)
  then show "10 powi (int n - 1) \<le> x / 10 powi (unit_of x n)" "x / 10 powi (unit_of x n) < 10 ^ n"
    using ilog10_bounds [OF assms] by (simp_all add: pos_le_divide_eq pos_divide_less_eq)
qed

lemma decimal_17:
  assumes "0 < m"
  shows "decimal_of m 17 \<noteq> None"
proof -
  define x where "x = mag_val m"
  define s :: rat where "s = 10 powi (unit_of x 17)"
  have x: "0 < x" using mag_val_pos [OF assms] by (simp add: x_def)
  have s: "0 < s" by (simp add: s_def)
  have "(10::rat) powi (int 17 - 1) = 10 ^ 16" by simp
  then have "10 ^ 16 \<le> x / s" using unit_scale(1) [OF x, of 17] unfolding s_def by (simp only:)
  then have xs: "10 ^ 16 * s \<le> x" using s by (simp add: pos_le_divide_eq)
  have "of_int (rne (x / s)) * s - x = (of_int (rne (x / s)) - x / s) * s" using s by (simp add: left_diff_distrib)
  then have "\<bar>of_int (rne (x / s)) * s - x\<bar> = \<bar>of_int (rne (x / s)) - x / s\<bar> * s" using s by (simp add: abs_mult)
  also have "\<dots> \<le> 1 / 2 * s" using rne_dist [of "x / s"] s by (intro mult_right_mono) simp_all
  also have "\<dots> < x / 2 ^ 54"
  proof -
    have "1 / 2 * s * 2 ^ 54 < 10 ^ 16 * s" using s by simp
    then show ?thesis using xs by (simp add: pos_less_divide_eq)
  qed
  finally have "round_mag (of_int (rne (x / s)) * s) = m" unfolding x_def by (intro round_mag_near assms)
  then show ?thesis by (simp add: decimal_of_def Let_def x_def s_def)
qed

lemma decimal_of_Some:
  assumes "0 < m" "decimal_of m n = Some (d, q)" "0 < n"
  shows "round_mag (of_nat d * 10 powi q) = m" "0 < d" "d \<le> 10 ^ n" "q = unit_of (mag_val m) n" "10 ^ (n - 1) \<le> d"
proof -
  define z where "z = mag_val m / 10 powi (unit_of (mag_val m) n)"
  obtain k where n: "n = Suc k" using assms(3) by (cases n) auto
  have "10 ^ k \<le> z" "z < 10 ^ n" using unit_scale [OF mag_val_pos [OF assms(1)], of n] by (simp_all add: z_def n)
  then have fz: "(10::int) ^ k \<le> \<lfloor>z\<rfloor>" "\<lfloor>z\<rfloor> < 10 ^ n" by (simp_all add: le_floor_iff floor_less_iff)
  have "(0::int) < 10 ^ k" by simp
  then have fl: "0 < \<lfloor>z\<rfloor>" "\<lfloor>z\<rfloor> + 1 \<le> 10 ^ n" using fz by linarith+
  obtain i where i: "i = \<lfloor>z\<rfloor> \<or> i = \<lfloor>z\<rfloor> + 1" "round_mag (of_int i * 10 powi (unit_of (mag_val m) n)) = m" "d = nat i"
    and q: "q = unit_of (mag_val m) n"
  proof -
    let ?near = "rne z" and ?other = "if rne z = \<lfloor>z\<rfloor> then \<lfloor>z\<rfloor> + 1 else \<lfloor>z\<rfloor>"
    have range: "?near = \<lfloor>z\<rfloor> \<or> ?near = \<lfloor>z\<rfloor> + 1" "?other = \<lfloor>z\<rfloor> \<or> ?other = \<lfloor>z\<rfloor> + 1" using rne_bounds [of z] by auto
    note dec = assms(2) [unfolded decimal_of_def Let_def, folded z_def]
    show ?thesis
    proof (cases "round_mag (of_int ?near * 10 powi (unit_of (mag_val m) n)) = m")
      case True
      then have "d = nat ?near" "q = unit_of (mag_val m) n" 
        using dec unfolding if_P [OF True] by (simp_all only: option.inject prod.inject)
      then show ?thesis using that [OF range(1) True] by (simp only:)
    next
      case False
      then have "round_mag (of_int ?other * 10 powi (unit_of (mag_val m) n)) = m \<and> d = nat ?other \<and> q = unit_of (mag_val m) n"
        
        using dec unfolding if_not_P [OF False] by (cases "round_mag (of_int ?other * 10 powi (unit_of (mag_val m) n)) = m")
          (simp_all only: if_True if_False option.inject prod.inject option.distinct simp_thms)
      then show ?thesis using that [OF range(2)] by (simp only:)
    qed
  qed
  then have pos: "0 < i" "i \<le> 10 ^ n" using fl by auto
  then show "round_mag (of_nat d * 10 powi q) = m" "0 < d" using i(2,3) by (simp_all add: q)
  show "d \<le> 10 ^ n" unfolding i(3) using pos by (simp add: nat_le_iff)
  show "q = unit_of (mag_val m) n" by (rule q)
  have "(10::int) ^ k \<le> i" using fz(1) i(1) by auto
  then show "10 ^ (n - 1) \<le> d" unfolding i(3) n by (simp add: le_nat_iff)
qed

lemma shortest_back:
  assumes "0 < m" "shortest m = (d, q)"
  obtains n where "0 < n" "n \<le> 17" "decimal_of m n = Some (d, q)"
proof -
  let ?rs = "filter (\<lambda>r. r \<noteq> None) (map (decimal_of m) [1..<18])"
  have "decimal_of m 17 \<in> set ?rs" using decimal_17 [OF assms(1)] by simp
  then obtain r rs where rs: "?rs = r # rs" by (metis empty_iff empty_set neq_Nil_conv)
  then have "r \<in> set ?rs" by simp
  then have "r \<noteq> None" "r \<in> decimal_of m ` {1..<18}" by auto
  then obtain n where n: "n \<in> {1..<18}" "r = decimal_of m n" "r \<noteq> None" by blast
  then have "r = Some (d, q)" using assms(2) rs unfolding shortest_def by (auto split: option.splits)
  then show ?thesis using that [of n] n by simp
qed

section \<open>Literals\<close>

text \<open>A literal from its parts: integral digits, fractional digits and the exponent with its sign.\<close>

definition literal :: "string \<Rightarrow> string \<Rightarrow> string \<Rightarrow> string" where
  "literal ip fp ex = ip @ (if fp = [] then [] else CHR ''.'' # fp) @ ex"

definition literal_ok :: "string \<Rightarrow> string \<Rightarrow> string \<Rightarrow> bool" where
  "literal_ok ip fp ex \<longleftrightarrow> ip \<noteq> [] \<and> list_all is_digit ip \<and> (hd ip = CHR ''0'' \<longrightarrow> tl ip = []) \<and> list_all is_digit fp
     \<and> (ex = [] \<or> (\<exists>sg ds. ex = CHR ''e'' # sg # ds \<and> (sg = CHR ''+'' \<or> sg = CHR ''-'') \<and> ds \<noteq> [] \<and> list_all is_digit ds))"

lemma is_digit_rune_of_char: "is_digit_rune (of_char c) \<longleftrightarrow> is_digit c"
  by (simp add: is_digit_rune_def is_digit_def)

lemma digits_then:
  assumes "list_all is_digit ds" "t = [] \<or> \<not> is_digit (hd t)"
  shows "takeWhile is_digit (ds @ t) = ds" "dropWhile is_digit (ds @ t) = t"
  using assms by (induction ds) (cases t; simp)+

lemma digit_runes_then:
  assumes "list_all is_digit ds" "ds \<noteq> []" "t = [] \<or> \<not> is_digit (hd t)"
  shows "read_digits (ascii_runes (ds @ t)) = Some (ascii_runes ds, ascii_runes t)"
proof -
  have comp: "is_digit_rune \<circ> of_char = is_digit" by (rule ext) (simp add: is_digit_rune_of_char)
  have "takeWhile is_digit_rune (ascii_runes (ds @ t)) = ascii_runes ds" "dropWhile is_digit_rune (ascii_runes (ds @ t)) = ascii_runes t"
    unfolding ascii_runes_def takeWhile_map dropWhile_map comp digits_then [OF assms(1,3)] by simp_all
  moreover have "is_digit_rune (hd (ascii_runes (ds @ t)))" "ascii_runes (ds @ t) \<noteq> []"
    using assms(1,2) by (cases ds; simp add: ascii_runes_def is_digit_rune_of_char)+
  ultimately show ?thesis by (simp add: read_digits_def)
qed

lemma ascii_runes_simps [simp]: "ascii_runes [] = []" "ascii_runes (c # s) = of_char c # ascii_runes s" "ascii_runes (s @ t) = ascii_runes s @ ascii_runes t"
  by (simp_all add: ascii_runes_def)

lemma literal_stop:
  assumes "literal_ok ip fp ex"
  shows "ex = [] \<or> \<not> is_digit (hd ex)" "(if fp = [] then [] else CHR ''.'' # fp) @ ex = [] \<or> \<not> is_digit (hd ((if fp = [] then [] else CHR ''.'' # fp) @ ex))"
  using assms by (auto simp: literal_ok_def is_digit_def)

lemma read_literal:
  assumes ok: "literal_ok ip fp ex"
  shows "read_number (ascii_runes (literal ip fp ex)) = Some (ascii_runes (literal ip fp ex), [])"
proof -
  let ?f = "if fp = [] then [] else CHR ''.'' # fp"
  have e: "read_exp (ascii_runes ex) = Some (ascii_runes ex, [])"
    using ok digit_runes_then [of _ "[]"] by (auto simp: literal_ok_def read_exp_def)
  have f: "read_frac (ascii_runes (?f @ ex)) = Some (ascii_runes ?f, ascii_runes ex)"
  proof (cases "fp = []")
    case True
    then show ?thesis using ok by (auto simp: literal_ok_def read_frac_def)
  next
    case False
    then show ?thesis using ok digit_runes_then [of fp ex] literal_stop(1) [OF ok] by (simp add: literal_ok_def read_frac_def)
  qed
  obtain c cs where ip: "ip = c # cs" "is_digit c" using ok by (cases ip) (auto simp: literal_ok_def)
  have i: "read_int_part (ascii_runes (ip @ ?f @ ex)) = Some (ascii_runes ip, ascii_runes (?f @ ex))"
  proof (cases "c = CHR ''0''")
    case True
    then have "cs = []" using ok ip by (simp add: literal_ok_def)
    then show ?thesis using ip True by (simp add: read_int_part_def)
  next
    case False
    then have "of_char c \<noteq> (48 :: nat)" using of_char_eq_iff [of c "CHR ''0''", where ?'a = nat] by simp
    then show ?thesis using ok digit_runes_then [of ip "?f @ ex"] literal_stop(2) [OF ok] ip
      by (simp add: literal_ok_def read_int_part_def)
  qed
  have "of_char c \<noteq> (45 :: nat)" using ip(2) by (simp add: is_digit_def)
  then have "read_sign (ascii_runes (ip @ ?f @ ex)) = ([], ascii_runes (ip @ ?f @ ex))" by (simp add: read_sign_def ip)
  then show ?thesis unfolding read_number_def literal_def by (simp only: i f e option.case prod.case fst_conv snd_conv) simp
qed

lemma json_number_literal:
  assumes ok: "literal_ok ip fp ex"
  shows "json_number (literal ip fp ex)" "json_number (CHR ''-'' # literal ip fp ex)"
proof -
  note r = read_literal [OF ok]
  show "json_number (literal ip fp ex)" by (simp only: json_number_def r)
  obtain c cs where l: "literal ip fp ex = c # cs" "is_digit c" using ok by (cases ip) (auto simp: literal_ok_def literal_def)
  have "of_char c \<noteq> (45 :: nat)" using l(2) by (simp add: is_digit_def)
  then have "read_sign (ascii_runes (literal ip fp ex)) = ([], ascii_runes (literal ip fp ex))" by (simp add: read_sign_def l)
  moreover have "read_sign (ascii_runes (CHR ''-'' # literal ip fp ex)) = ([45], ascii_runes (literal ip fp ex))" by (simp add: read_sign_def)
  ultimately show "json_number (CHR ''-'' # literal ip fp ex)"
    using r unfolding json_number_def read_number_def by (auto split: option.splits)
qed

lemma literal_mag_literal:
  assumes "literal_ok ip fp ex"
  shows "literal_mag (literal ip fp ex) = of_nat (digits_val 0 (ip @ fp)) * 10 powi (exponent ex - int (length fp))"
proof -
  note d = digits_then [of ip "(if fp = [] then [] else CHR ''.'' # fp) @ ex", OF _ literal_stop(2) [OF assms]]
    and e = digits_then [of fp ex, OF _ literal_stop(1) [OF assms]]
  have "list_all is_digit ip" "list_all is_digit fp" using assms by (simp_all add: literal_ok_def)
  moreover have "\<not> (ex \<noteq> [] \<and> hd ex = CHR ''.'')" using assms by (auto simp: literal_ok_def)
  ultimately show ?thesis using d e
    by (cases "fp = []"; cases "ex = []") (simp_all add: literal_mag_def literal_def Let_def list_all_iff
        takeWhile_eq_all_conv [THEN iffD2] dropWhile_eq_Nil_conv [THEN iffD2])
qed


lemma show_nat_hd: "0 < n \<Longrightarrow> hd (show_nat n) \<noteq> CHR ''0''"
proof (induction n rule: show_nat.induct)
  case (1 n)
  show ?case
  proof (cases "n < 10")
    case True
    have "digit_val (digit_char n) \<noteq> 0" using 1(2) True by simp
    then have "digit_char n \<noteq> CHR ''0''" by (auto simp: digit_val_def)
    then show ?thesis using True by (subst show_nat.simps) simp
  next
    case False
    then show ?thesis using 1(1) show_nat_digits [of "n div 10"] by (subst show_nat.simps) (simp add: hd_append)
  qed
qed

lemma exp_val_show_nat: "n < 10 ^ 5 \<Longrightarrow> exp_val (show_nat n) = n"
proof (induction n rule: show_nat.induct)
  case (1 n)
  show ?case
  proof (cases "n < 10")
    case True
    then show ?thesis by (subst show_nat.simps) (simp add: exp_val_def)
  next
    case False
    have "n div 10 < 10 ^ 4" using 1(2) by auto
    then have "exp_val (show_nat (n div 10)) = n div 10" "n div 10 < 10000" using 1(1) [OF False] by simp_all
    then show ?thesis using False by (subst show_nat.simps) (simp add: exp_val_def)
  qed
qed

text \<open>Digits with the point at position \<open>dp\<close>, in both formats.\<close>

lemma digits_val_replicate: "digits_val n (replicate k CHR ''0'') = n * 10 ^ k"
  by (induction k arbitrary: n) (simp_all add: digits_val_def digit_val_def)

lemma digits_val_0: "digits_val 0 (CHR ''0'' # s) = digits_val 0 s"
  by (simp add: digits_val_def digit_val_def)

lemma zeros_digits: "list_all is_digit (replicate k CHR ''0'')"
  by (simp add: list_all_iff is_digit_def)

lemma fmtF_literal:
  assumes ds: "ds \<noteq> []" "list_all is_digit ds" "hd ds \<noteq> CHR ''0''"
  obtains ip fp where "fmtF ds dp = literal ip fp []" "literal_ok ip fp []"
    "of_nat (digits_val 0 (ip @ fp)) * 10 powi (- int (length fp)) = (of_nat (digits_val 0 ds) * 10 powi (dp - int (length ds)) :: rat)"
proof -
  consider "dp \<le> 0" | "0 < dp" "length ds \<le> nat dp" | "0 < dp" "nat dp < length ds" by linarith
  then show ?thesis
  proof cases
    case 1
    let ?fp = "replicate (nat (- dp)) CHR ''0'' @ ds"
    have "fmtF ds dp = literal ''0'' ?fp []" using 1 ds(1) by (simp add: fmtF_def literal_def)
    moreover have "literal_ok ''0'' ?fp []" using ds zeros_digits by (simp add: literal_ok_def is_digit_def)
    moreover have "- int (length ?fp) = dp - int (length ds)" using 1 by simp
    then have "of_nat (digits_val 0 (''0'' @ ?fp)) * 10 powi (- int (length ?fp)) = (of_nat (digits_val 0 ds) * 10 powi (dp - int (length ds)) :: rat)"
      using digits_val_zeros [of "nat (- dp)" ds] by (simp add: digits_val_0)
    ultimately show ?thesis by (intro that)
  next
    case 2
    let ?ip = "ds @ replicate (nat dp - length ds) CHR ''0''"
    have "fmtF ds dp = literal ?ip [] []" using 2 by (simp add: fmtF_def literal_def)
    moreover have "literal_ok ?ip [] []" using ds zeros_digits by (simp add: literal_ok_def)
    moreover have e: "dp - int (length ds) = int (nat dp - length ds)" using 2 by linarith
    have "of_nat (digits_val 0 (?ip @ [])) * 10 powi (- int (length [])) = (of_nat (digits_val 0 ds) * 10 powi (dp - int (length ds)) :: rat)"
      unfolding e by (simp add: digits_val_append digits_val_replicate)
    ultimately show ?thesis by (intro that)
  next
    case 3
    let ?ip = "take (nat dp) ds" and ?fp = "drop (nat dp) ds"
    have "fmtF ds dp = literal ?ip ?fp []" using 3 by (simp add: fmtF_def literal_def)
    moreover have "?ip \<noteq> []" "hd ?ip = hd ds" using 3 ds(1) by (cases ds; cases "nat dp"; simp)+
    moreover have "list_all is_digit ?ip" "list_all is_digit ?fp" using ds(2) by (auto simp: list_all_iff dest: in_set_takeD in_set_dropD)
    moreover have "- int (length ?fp) = dp - int (length ds)" using 3 by simp
    ultimately show ?thesis using that [of ?ip ?fp] ds(3) by (simp add: literal_ok_def)
  qed
qed

lemma fmtE_literal:
  assumes ds: "ds \<noteq> []" "list_all is_digit ds" "hd ds \<noteq> CHR ''0''" and dp: "\<bar>dp - 1\<bar> < 10 ^ 5"
  obtains ex where "fmtE ds dp = literal [hd ds] (tl ds) ex" "literal_ok [hd ds] (tl ds) ex" "exponent ex = dp - 1"
proof -
  let ?ex = "''e'' @ (if dp - 1 < 0 then ''-'' else ''+'') @ show_nat (nat \<bar>dp - 1\<bar>)"
  have "fmtE ds dp = literal [hd ds] (tl ds) ?ex" by (simp add: fmtE_def literal_def)
  moreover have "literal_ok [hd ds] (tl ds) ?ex"
    using ds show_nat_digits [of "nat \<bar>dp - 1\<bar>"] by (cases ds) (auto simp: literal_ok_def)
  moreover have "exponent ?ex = dp - 1"
    using exp_val_show_nat [of "nat \<bar>dp - 1\<bar>"] dp by (cases "dp < 1") (simp_all add: exponent_def nat_less_iff abs_if)
  ultimately show ?thesis by (rule that)
qed

lemma trim_zeros_split: "\<exists>k. s = trim_zeros s @ replicate k CHR ''0''"
proof -
  have "rev s = takeWhile (\<lambda>c. c = CHR ''0'') (rev s) @ dropWhile (\<lambda>c. c = CHR ''0'') (rev s)" by simp
  then have "s = trim_zeros s @ rev (takeWhile (\<lambda>c. c = CHR ''0'') (rev s))"
    unfolding trim_zeros_def by (metis rev_append rev_rev_ident)
  moreover have "takeWhile (\<lambda>c. c = CHR ''0'') t = replicate (length (takeWhile (\<lambda>c. c = CHR ''0'') t)) CHR ''0''" for t :: string
    by (induction t) simp_all
  ultimately show ?thesis by (metis rev_replicate)
qed

lemma trim_show_nat:
  assumes "0 < d"
  obtains k where "show_nat d = trim_zeros (show_nat d) @ replicate k CHR ''0''" "d = digits_val 0 (trim_zeros (show_nat d)) * 10 ^ k"
    "trim_zeros (show_nat d) \<noteq> []" "list_all is_digit (trim_zeros (show_nat d))" "hd (trim_zeros (show_nat d)) \<noteq> CHR ''0''"
proof -
  obtain k where k: "show_nat d = trim_zeros (show_nat d) @ replicate k CHR ''0''" using trim_zeros_split by blast
  note sd = show_nat_digits [of d]
  have d: "d = digits_val 0 (trim_zeros (show_nat d)) * 10 ^ k"
    using sd k digits_val_append [of 0 "trim_zeros (show_nat d)"] digits_val_replicate by metis
  have ne: "trim_zeros (show_nat d) \<noteq> []" using d assms by (auto simp: digits_val_def)
  moreover have "hd (trim_zeros (show_nat d)) = hd (show_nat d)" using ne k by (metis hd_append2)
  moreover have "list_all is_digit (trim_zeros (show_nat d))" using sd k by (metis list_all_append)
  ultimately show ?thesis using that [OF k d] show_nat_hd [OF assms] by simp
qed

section \<open>Formatting and parsing back\<close>

text \<open>The decimal exponents of finite numbers.\<close>

lemma powers_2_10: "(2::rat) powi 1024 \<le> 10 powi 309" "10 powi (- 324) \<le> (2::rat) powi (- 1074)"
proof -
  have "(2::nat) ^ 1024 \<le> 10 ^ 309" "(2::nat) ^ 1074 \<le> 10 ^ 324" by simp_all
  then have "(2::rat) ^ 1024 \<le> 10 ^ 309" "(2::rat) ^ 1074 \<le> 10 ^ 324" by (metis of_nat_le_iff of_nat_numeral of_nat_power)+
  then show "(2::rat) powi 1024 \<le> 10 powi 309" "10 powi (- 324) \<le> (2::rat) powi (- 1074)"
    by (simp_all add: power_int_minus le_imp_inverse_le)
qed

lemma ilog10_finite:
  assumes "0 < m" "m < inf_mag"
  shows "- 325 \<le> ilog10 (mag_val m)" "ilog10 (mag_val m) \<le> 309"
proof -
  obtain E M where x: "mag_val m = of_int M * 2 powi (E - 52)" and M: "0 < M" and E: "- 1022 \<le> E"
    and m: "int m = (E + 1022) * 2 ^ 52 + M" "mag_val m < 2 powi (E + 1)" "E = - 1022 \<or> 2 ^ 52 \<le> M"
    by (rule mag_val_parts [OF assms(1)])
  have "int m < 2047 * 2 ^ 52" using assms(2) by (simp add: inf_mag_def)
  then have "E + 1 \<le> 1024" using m(1,3) by (cases "E = - 1022") simp_all
  then have "mag_val m < 2 powi 1024" using m(2) powi_le_powi_iff [of "E + 1" 1024] by linarith
  then have "10 powi (ilog10 (mag_val m)) < (10 :: rat) powi 309"
    using ilog10_bounds(1) [OF mag_val_pos [OF assms(1)]] powers_2_10(1) by linarith
  then show "ilog10 (mag_val m) \<le> 309" unfolding powi10_le_iff by simp
  have "(2::rat) powi (- 1074) \<le> 2 powi (E - 52)" using E unfolding powi_le_powi_iff by simp
  moreover have "(2::rat) powi (E - 52) \<le> of_int M * 2 powi (E - 52)" using M by simp
  ultimately have "(10::rat) powi (- 324) < 10 powi (ilog10 (mag_val m) + 1)"
    using ilog10_bounds(2) [OF mag_val_pos [OF assms(1)]] powers_2_10(2) unfolding x by linarith
  then show "- 325 \<le> ilog10 (mag_val m)" unfolding powi10_le_iff by simp
qed

text \<open>The text of a magnitude is a JSON number that is converted back to it.\<close>

lemma mag_text_back:
  assumes "m < inf_mag"
  obtains ip fp ex where "mag_text m = literal ip fp ex" "literal_ok ip fp ex" "round_mag (literal_mag (mag_text m)) = m"
proof (cases "m = 0")
  case True
  have ok: "literal_ok ''0'' [] []" by (simp add: literal_ok_def is_digit_def)
  have t: "mag_text m = literal ''0'' [] []" using True by (simp add: mag_text_def literal_def)
  have "literal_mag (mag_text m) = 0" unfolding t literal_mag_literal [OF ok] by (simp add: digits_val_def digit_val_def)
  then show ?thesis using that [OF t ok] True by (simp add: round_mag_def)
next
  case False
  then have pos: "0 < m" by simp
  obtain d q where s: "shortest m = (d, q)" by fastforce
  obtain n where n: "0 < n" "n \<le> 17" "decimal_of m n = Some (d, q)" by (rule shortest_back [OF pos s])
  note dec = decimal_of_Some [OF pos n(3,1)]
  obtain k where k: "show_nat d = trim_zeros (show_nat d) @ replicate k CHR ''0''" "d = digits_val 0 (trim_zeros (show_nat d)) * 10 ^ k"
    and ds: "trim_zeros (show_nat d) \<noteq> []" "list_all is_digit (trim_zeros (show_nat d))" "hd (trim_zeros (show_nat d)) \<noteq> CHR ''0''"
    by (rule trim_show_nat [OF dec(2)])
  define dp ds where "dp = int (length (show_nat d)) + q" and "ds = trim_zeros (show_nat d)"
  have "length (show_nat d) = length ds + k" using arg_cong [OF k(1), of length] by (simp add: ds_def)
  then have "dp - int (length ds) = int k + q" by (simp add: dp_def)
  then have val: "of_nat (digits_val 0 ds) * 10 powi (dp - int (length ds)) = (of_nat d * 10 powi q :: rat)"
    using arg_cong [OF k(2), of "of_nat :: nat \<Rightarrow> rat"] by (simp add: power_int_add ds_def)
  have "d < 10 ^ Suc 17" using dec(3) power_increasing [of n 17 "10::nat"] n(2) by simp
  then have "length (show_nat d) \<le> 18" using show_nat_length [of d 17] by simp
  then have dp: "\<bar>dp - 1\<bar> < 10 ^ 5" using ilog10_finite [OF pos assms] n(2) unfolding dp_def dec(4) unit_of_def by simp
  show ?thesis
  proof (cases "m < 0x3EB0C6F7A0B5ED8D \<or> 0x444B1AE4D6E2EF50 \<le> m")
    case True
    have t: "mag_text m = fmtE ds dp" using False True by (simp add: mag_text_def s dp_def ds_def Let_def)
    obtain ex where ex: "fmtE ds dp = literal [hd ds] (tl ds) ex" "literal_ok [hd ds] (tl ds) ex" "exponent ex = dp - 1"
      using fmtE_literal [OF _ _ _ dp] ds unfolding ds_def by blast
    have "exponent ex - int (length (tl ds)) = dp - int (length ds)" using ds(1) ex(3) by (cases ds) (simp_all add: ds_def)
    moreover have "[hd ds] @ tl ds = ds" using ds(1) by (simp add: ds_def)
    ultimately have "literal_mag (mag_text m) = of_nat d * 10 powi q"
      unfolding t ex(1) literal_mag_literal [OF ex(2)] by (simp only: val)
    then show ?thesis using that [of "[hd ds]" "tl ds" ex] t ex dec(1) by simp
  next
    case F: False
    have t: "mag_text m = fmtF ds dp" using False F by (simp add: mag_text_def s dp_def ds_def Let_def)
    obtain ip fp where f: "fmtF ds dp = literal ip fp []" "literal_ok ip fp []"
      "of_nat (digits_val 0 (ip @ fp)) * 10 powi (- int (length fp)) = (of_nat (digits_val 0 ds) * 10 powi (dp - int (length ds)) :: rat)"
      using ds unfolding ds_def [symmetric] by (rule fmtF_literal)
    have "literal_mag (mag_text m) = of_nat d * 10 powi q"
      unfolding t f(1) literal_mag_literal [OF f(2)] using f(3) val by (simp add: exponent_def)
    then show ?thesis using that [of ip fp "[]"] t f dec(1) by simp
  qed
qed

lemma bits_split: "(if bits_neg b then 2 ^ 63 else 0) + of_nat (bits_mag b) = b"
proof -
  have "unat b < 2 ^ 64" using unsigned_less [of b] by simp
  then have "unat b = (if bits_neg b then 2 ^ 63 else 0) + bits_mag b"
    by (cases "2 ^ 63 \<le> unat b") (simp_all add: bits_neg_def bits_mag_def le_mod_geq)
  then have "(of_nat (unat b) :: 64 word) = of_nat ((if bits_neg b then 2 ^ 63 else 0) + bits_mag b)" by simp
  then show ?thesis by (cases "bits_neg b") simp_all
qed

lemma split_sign_literal: "literal_ok ip fp ex \<Longrightarrow> split_sign (literal ip fp ex) = (False, literal ip fp ex)"
  by (cases ip) (auto simp: literal_ok_def literal_def dest: is_digit_not_sign)

theorem ParseFloat_FormatFloat:
  assumes "finite_float b"
  shows "json_number (FormatFloat b)" "ParseFloat (FormatFloat b) = Some b"
proof -
  have fin: "bits_mag b < inf_mag" using assms by (simp add: finite_float_def)
  then obtain ip fp ex where t: "mag_text (bits_mag b) = literal ip fp ex" "literal_ok ip fp ex"
    "round_mag (literal_mag (mag_text (bits_mag b))) = bits_mag b" by (rule mag_text_back)
  show "json_number (FormatFloat b)" using json_number_literal [OF t(2)] by (simp add: FormatFloat_def t(1))
  show "ParseFloat (FormatFloat b) = Some b"
    using split_sign_literal [OF t(2)] t(3) fin bits_split [of b]
    by (cases "bits_neg b") (simp_all add: FormatFloat_def ParseFloat_def t(1) Let_def)
qed

section \<open>Lengths\<close>

lemma float_mag_mag_val:
  assumes "0 < m"
  shows "float_mag (mag_val m) = m"
proof -
  obtain E M where x: "mag_val m = of_int M * 2 powi (E - 52)" "float_exp (mag_val m) = E" and m: "int m = (E + 1022) * 2 ^ 52 + M"
    by (rule mag_val_parts [OF assms])
  have "\<lfloor>mag_val m / 2 powi (E - 52)\<rfloor> = M" unfolding x(1) by simp
  then have "float_mag (mag_val m) = nat (int m)"
    unfolding float_mag_def x(2) m using mag_val_pos [OF assms] by simp
  then show ?thesis by simp
qed

text \<open>Where the format without exponent is used, the decimal exponents are small.\<close>

lemma ilog10_plain:
  assumes "0x3EB0C6F7A0B5ED8D \<le> m" "m < 0x444B1AE4D6E2EF50"
  shows "- 7 \<le> ilog10 (mag_val m)" "ilog10 (mag_val m) \<le> 21"
proof -
  have pos: "0 < m" using assms(1) by simp
  note b = ilog10_bounds [OF mag_val_pos [OF pos]] and fm = float_mag_mag_val [OF pos]
  have p: "(2::rat) powi (- 24) = 1 / 2 ^ 24" "(2::rat) powi (- 24 + 1) = 1 / 2 ^ 23" "(2::rat) powi (- 24 - 52) = 1 / 2 ^ 76"
    by (simp_all add: power_int_minus)
  have "ilog2 (1 / 10 ^ 7) = - 24" by (rule ilog2_unique, unfold p, simp_all)
  moreover have "ilog2 (10 ^ 22) = 73" by (rule ilog2_unique) simp_all
  ultimately have e: "float_exp (1 / 10 ^ 7) = - 24" "float_exp (10 ^ 22) = 73" by (simp_all add: float_exp_def)
  have low: "float_mag (1 / 10 ^ 7) < 0x3EB0C6F7A0B5ED8D" unfolding float_mag_def e p by (simp add: nat_less_iff)
  have high: "0x444B1AE4D6E2EF50 \<le> float_mag (10 ^ 22)" unfolding float_mag_def e by simp
  have "1 / 10 ^ 7 < mag_val m"
  proof (rule ccontr)
    assume "\<not> 1 / 10 ^ 7 < mag_val m"
    then have "float_mag (mag_val m) \<le> float_mag (1 / 10 ^ 7)" using mag_val_pos [OF pos] by (intro float_mag_mono) linarith+
    then show False using fm low assms(1) by linarith
  qed
  then have "(10::rat) powi (- 7) < 10 powi (ilog10 (mag_val m) + 1)" using b(2) by (simp add: power_int_minus)
  then show "- 7 \<le> ilog10 (mag_val m)" unfolding powi10_le_iff by simp
  have "mag_val m < 10 ^ 22"
  proof (rule ccontr)
    assume "\<not> mag_val m < 10 ^ 22"
    then have "float_mag (10 ^ 22) \<le> float_mag (mag_val m)" by (intro float_mag_mono) simp_all
    then show False using fm high assms(2) by linarith
  qed
  then have "10 powi (ilog10 (mag_val m)) < (10::rat) powi 22" using b(1) by simp
  then show "ilog10 (mag_val m) \<le> 21" unfolding powi10_le_iff by simp
qed

lemma show_nat_length_ge: "10 ^ k \<le> n \<Longrightarrow> k < length (show_nat n)"
proof (induction k arbitrary: n)
  case 0
  then show ?case using show_nat_digits [of n] by simp
next
  case (Suc k)
  have ge: "\<not> n < 10" using Suc.prems by (simp add: not_less) (metis le_add1 mult.right_neutral mult_le_mono2 one_le_numeral one_le_power order_trans)
  have "10 ^ k \<le> n div 10" using Suc.prems by (simp add: less_eq_div_iff_mult_less_eq mult.commute)
  from Suc.IH [OF this] show ?case using ge by (subst show_nat.simps) simp
qed

lemma trim_zeros_length: "length (trim_zeros s) \<le> length s"
  using trim_zeros_split [of s] by (metis le_add1 length_append)

lemma mag_text_length:
  assumes "m < inf_mag"
  shows "length (mag_text m) \<le> 26"
proof (cases "m = 0")
  case False
  then have pos: "0 < m" by simp
  obtain d q where s: "shortest m = (d, q)" by fastforce
  obtain n where n: "0 < n" "n \<le> 17" "decimal_of m n = Some (d, q)" by (rule shortest_back [OF pos s])
  note dec = decimal_of_Some [OF pos n(3,1)]
  define L dp ds where "L = length (show_nat d)" and "dp = int L + q" and "ds = trim_zeros (show_nat d)"
  have "d < 10 ^ Suc n" using dec(3) by (rule le_less_trans) simp
  then have L: "L \<le> Suc n" "n \<le> L" using show_nat_length [of d n] show_nat_length_ge [OF dec(5)] n(1) by (simp_all add: L_def)
  have ds: "length ds \<le> 18" using trim_zeros_length [of "show_nat d"] L(1) n(2) by (simp add: ds_def L_def)
  have dp: "ilog10 (mag_val m) + 1 \<le> dp" "dp \<le> ilog10 (mag_val m) + 2" using L unfolding dp_def dec(4) unit_of_def by simp_all
  show ?thesis
  proof (cases "m < 0x3EB0C6F7A0B5ED8D \<or> 0x444B1AE4D6E2EF50 \<le> m")
    case True
    have t: "mag_text m = fmtE ds dp" using False True by (simp add: mag_text_def s dp_def ds_def L_def Let_def)
    have "nat \<bar>dp - 1\<bar> < 10 ^ Suc 2" using ilog10_finite [OF pos assms] dp by simp
    then have "length (show_nat (nat \<bar>dp - 1\<bar>)) \<le> 3" using show_nat_length [of _ 2] by simp
    moreover have "length (fmtE ds dp) \<le> length ds + 4 + length (show_nat (nat \<bar>dp - 1\<bar>))" by (simp add: fmtE_def del: nat_abs_int_diff)
    ultimately show ?thesis unfolding t using ds by linarith
  next
    case plain: False
    have t: "mag_text m = fmtF ds dp" using False plain by (simp add: mag_text_def s dp_def ds_def L_def Let_def)
    have "- 6 \<le> dp" "dp \<le> 23" using ilog10_plain [of m] plain dp by linarith+
    then show ?thesis unfolding t using ds
      by (cases "dp \<le> 0"; cases "length ds \<le> nat dp") (simp add: fmtF_def, linarith?)+
  qed
qed (simp add: mag_text_def)

lemma FormatFloat_length: "finite_float b \<Longrightarrow> length (FormatFloat b) \<le> 27"
  using mag_text_length [of "bits_mag b"] by (simp add: finite_float_def FormatFloat_def)

end
