(* ===== verification/Wire.thy ===== *)
theory Wire
  imports Lifecycle Go_Float
begin

text \<open>
  The bytes on the wire: how \<^verbatim>\<open>handleBatch\<close> of \<^verbatim>\<open>src/server.go\<close> decodes a body into its
  \<^verbatim>\<open>[]BatchRequestItem\<close>, with the rules of \<^verbatim>\<open>encoding/json\<close> for structs, and how \<^verbatim>\<open>writeJSON\<close> and
  \<^verbatim>\<open>writeError\<close> produce the answer.
\<close>

section \<open>Decoding of structs\<close>

text \<open>
  Field names match exactly or else up to case folding, under which \<^verbatim>\<open>U+017F\<close> is an S and \<^verbatim>\<open>U+212A\<close> a
  K; \<open>None\<close> stands for the other runes outside ASCII, which no field name has.
\<close>

definition fold_rune :: "nat \<Rightarrow> nat option" where
  "fold_rune r = (if 97 \<le> r \<and> r \<le> 122 then Some (r - 32) else if r < 128 then Some r
     else if r = 383 then Some 83 else if r = 8490 then Some 75 else None)"

definition fold_name :: "string \<Rightarrow> nat option list" where
  "fold_name k = map fold_rune (runes k)"

definition match_field :: "string list \<Rightarrow> string \<Rightarrow> string option" where
  "match_field names k = (if k \<in> set names then Some k else find (\<lambda>n. fold_name n = fold_name k) names)"

text \<open>Numbers are converted from their literals; a literal that does not fit the type is an error.\<close>

definition ParseUint :: "string \<Rightarrow> uint64 option" where
  "ParseUint lit = (if list_all is_digit lit \<and> digits_val 0 lit < 2 ^ 64 then Some (of_nat (digits_val 0 lit)) else None)"

definition ParseInt :: "string \<Rightarrow> int64 option" where
  "ParseInt lit = map_option word_of_int (Atoi lit)"

text \<open>
  The members of an object in their order, a later one overwriting an earlier one; an error anywhere
  makes the whole decoding fail.  \<^verbatim>\<open>null\<close> leaves a field that is no pointer as it is.
\<close>

fun decode_members :: "(string \<Rightarrow> json \<Rightarrow> 'a \<Rightarrow> 'a option) \<Rightarrow> (string \<times> json) list \<Rightarrow> 'a \<Rightarrow> 'a option" where
  "decode_members f [] a = Some a"
| "decode_members f ((k, v) # kvs) a = Option.bind (f k v a) (decode_members f kvs)"

definition zero_update :: RiderUpdate where
  "zero_update = \<lparr>OrderID = [], Latitude = 0, Longitude = 0, CurrentStatus = [], ETAMinutes = 0\<rparr>"

definition update_fields :: "string list" where
  "update_fields = [''order_id'', ''latitude'', ''longitude'', ''current_status'', ''eta_minutes'']"

definition decode_update_field :: "string \<Rightarrow> json \<Rightarrow> RiderUpdate \<Rightarrow> RiderUpdate option" where
  "decode_update_field f v u = (case v of
     JNull \<Rightarrow> Some u
   | JStr s \<Rightarrow> if f = ''order_id'' then Some (u\<lparr>OrderID := s\<rparr>)
               else if f = ''current_status'' then Some (u\<lparr>CurrentStatus := s\<rparr>) else None
   | JNum lit \<Rightarrow> if f = ''latitude'' then map_option (\<lambda>x. u\<lparr>Latitude := x\<rparr>) (ParseFloat lit)
                 else if f = ''longitude'' then map_option (\<lambda>x. u\<lparr>Longitude := x\<rparr>) (ParseFloat lit)
                 else if f = ''eta_minutes'' then map_option (\<lambda>i. u\<lparr>ETAMinutes := i\<rparr>) (ParseInt lit) else None
   | _ \<Rightarrow> None)"

text \<open>Unknown fields are an error (\<^verbatim>\<open>DisallowUnknownFields\<close>).\<close>

definition decode_update_member :: "string \<Rightarrow> json \<Rightarrow> RiderUpdate \<Rightarrow> RiderUpdate option" where
  "decode_update_member k v u = Option.bind (match_field update_fields k) (\<lambda>f. decode_update_field f v u)"

definition zero_item :: BatchRequestItem where
  "zero_item = \<lparr>req_SeqID = 0, req_OperationType = [], req_RiderID = [], req_Payload = None\<rparr>"

definition item_fields :: "string list" where
  "item_fields = [''seq_id'', ''operation_type'', ''rider_id'', ''payload'']"

definition decode_item_field :: "string \<Rightarrow> json \<Rightarrow> BatchRequestItem \<Rightarrow> BatchRequestItem option" where
  "decode_item_field f v it = (case v of
     JNull \<Rightarrow> Some (if f = ''payload'' then it\<lparr>req_Payload := None\<rparr> else it)
   | JStr s \<Rightarrow> if f = ''operation_type'' then Some (it\<lparr>req_OperationType := s\<rparr>)
               else if f = ''rider_id'' then Some (it\<lparr>req_RiderID := s\<rparr>) else None
   | JNum lit \<Rightarrow> if f = ''seq_id'' then map_option (\<lambda>n. it\<lparr>req_SeqID := n\<rparr>) (ParseUint lit) else None
   | JObj kvs \<Rightarrow>
       if f = ''payload''
       then map_option (\<lambda>u. it\<lparr>req_Payload := Some u\<rparr>)
              (decode_members decode_update_member kvs (case req_Payload it of None \<Rightarrow> zero_update | Some u \<Rightarrow> u))
       else None
   | _ \<Rightarrow> None)"

definition decode_item_member :: "string \<Rightarrow> json \<Rightarrow> BatchRequestItem \<Rightarrow> BatchRequestItem option" where
  "decode_item_member k v it = Option.bind (match_field item_fields k) (\<lambda>f. decode_item_field f v it)"

definition decode_item :: "json \<Rightarrow> BatchRequestItem option" where
  "decode_item v = (case v of
     JNull \<Rightarrow> Some zero_item
   | JObj kvs \<Rightarrow> decode_members decode_item_member kvs zero_item
   | _ \<Rightarrow> None)"

definition decode_items :: "json \<Rightarrow> BatchRequestItem list option" where
  "decode_items v = (case v of JNull \<Rightarrow> Some [] | JArr vs \<Rightarrow> those (map decode_item vs) | _ \<Rightarrow> None)"

text \<open>
  \<^verbatim>\<open>dec.Decode(&items)\<close> on what the body yields: bytes and possibly an error after them.  The
  end of an array or an object is recognised at once; after any other value the decoder has to see
  another byte or the end of the body.
\<close>

definition Decode :: "string \<times> error option \<Rightarrow> error + BatchRequestItem list" where
  "Decode = (\<lambda>(data, err).
     case read_front data of
       None \<Rightarrow> Inl (External ''json'')
     | Some (v, rest) \<Rightarrow>
         if err \<noteq> None \<and> rest = [] \<and> (case v of JArr _ \<Rightarrow> False | JObj _ \<Rightarrow> False | _ \<Rightarrow> True) then Inl (External ''json'')
         else (case decode_items v of None \<Rightarrow> Inl (External ''json'') | Some items \<Rightarrow> Inr items))"

text \<open>The handler from the bytes of the body on.\<close>

definition serve_batch ::
  "nat \<Rightarrow> ServerConfig \<Rightarrow> 's \<Rightarrow> ctx_err \<Rightarrow> string \<Rightarrow> go_value response + ('s, go_value) pool" where
  "serve_batch numCPU cfg st c = withMaxBody Decode (MaxBodyBytes cfg) (handleBatch_start numCPU cfg st c)"

section \<open>Encoding\<close>

text \<open>
  The fields in the order of the structs; \<open>fmt\<close> writes \<^verbatim>\<open>float64\<close> numbers.
\<close>

definition update_json :: "(float64 \<Rightarrow> string) \<Rightarrow> 'a RiderUpdate_scheme \<Rightarrow> (string \<times> json) list" where
  "update_json fmt u =
     [(''order_id'', JStr (OrderID u)), (''latitude'', JNum (fmt (Latitude u))), (''longitude'', JNum (fmt (Longitude u))),
      (''current_status'', JStr (CurrentStatus u)), (''eta_minutes'', JNum (show_int (sint (ETAMinutes u))))]"

definition item_json :: "(float64 \<Rightarrow> string) \<Rightarrow> BatchRequestItem \<Rightarrow> json" where
  "item_json fmt it = JObj
     ([(''seq_id'', JNum (show_nat (unat (req_SeqID it)))), (''operation_type'', JStr (req_OperationType it)),
       (''rider_id'', JStr (req_RiderID it))]
      @ (case req_Payload it of None \<Rightarrow> [] | Some u \<Rightarrow> [(''payload'', JObj (update_json fmt u))]))"

text \<open>
  \<^verbatim>\<open>json.Marshal\<close> of the values of type \<^verbatim>\<open>any\<close>: it fails on infinities and NaN, and on a time
  whose text does not exist (\<open>ft\<close>).  Values of other dynamic types are encoded by \<open>other\<close>.
\<close>

definition finite_update :: "'a RiderUpdate_scheme \<Rightarrow> bool" where
  "finite_update u \<longleftrightarrow> finite_float (Latitude u) \<and> finite_float (Longitude u)"

fun value_json :: "(int \<Rightarrow> string option) \<Rightarrow> (string \<Rightarrow> json option) \<Rightarrow> go_value \<Rightarrow> json option" where
  "value_json ft other (GoRiderUpdate u) = (if finite_update u then Some (JObj (update_json FormatFloat u)) else None)"
| "value_json ft other (GoRiderUpdatePtr None) = Some JNull"
| "value_json ft other (GoRiderUpdatePtr (Some u)) = (if finite_update u then Some (JObj (update_json FormatFloat u)) else None)"
| "value_json ft other (GoRiderRecord r) =
     (case ft (UpdatedAt r) of
        None \<Rightarrow> None
      | Some t \<Rightarrow> if finite_update r then Some (JObj (update_json FormatFloat r @ [(''updated_at'', JStr t)])) else None)"
| "value_json ft other (GoOther s) = other s"

text \<open>\<^verbatim>\<open>omitempty\<close> leaves out a \<^verbatim>\<open>nil\<close> result and an empty error text; \<open>Error\<close> gives the text of an error.\<close>

definition response_json ::
  "(int \<Rightarrow> string option) \<Rightarrow> (string \<Rightarrow> json option) \<Rightarrow> (error \<Rightarrow> string) \<Rightarrow> go_value BatchResponseItem \<Rightarrow> json option" where
  "response_json ft other Error it =
     (let err = (case resp_Error it of None \<Rightarrow> [] | Some e \<Rightarrow> Error e);
          tail = (if err = [] then [] else [(''error'', JStr err)]);
          seq = (''seq_id'', JNum (show_nat (unat (resp_SeqID it))))
      in case resp_Result it of
           None \<Rightarrow> Some (JObj (seq # tail))
         | Some v \<Rightarrow> map_option (\<lambda>j. JObj (seq # (''result'', j) # tail)) (value_json ft other v))"

text \<open>
  \<^verbatim>\<open>writeJSON\<close>: header and status are written before the payload is encoded, so a payload that
  cannot be encoded leaves an empty body.  The encoder ends its output with a line feed.
\<close>

record answer =
  ans_status :: nat
  ans_type :: string
  ans_body :: string

definition writeJSON :: "nat \<Rightarrow> json option \<Rightarrow> answer" where
  "writeJSON st payload = \<lparr>ans_status = st, ans_type = ''application/json'',
     ans_body = (case payload of None \<Rightarrow> [] | Some v \<Rightarrow> Marshal v @ [CHR 0x0A])\<rparr>"

definition writeError :: "nat \<Rightarrow> string \<Rightarrow> answer" where
  "writeError st message = writeJSON st (Some (JObj [(''error'', JStr message)]))"

fun respond :: "(int \<Rightarrow> string option) \<Rightarrow> (string \<Rightarrow> json option) \<Rightarrow> (error \<Rightarrow> string) \<Rightarrow> go_value response \<Rightarrow> answer option" where
  "respond ft other Error (WriteJSON st items) = Some (writeJSON st (map_option JArr (those (map (response_json ft other Error) items))))"
| "respond ft other Error (WriteError st e) = Some (writeError st (Error e))"
| "respond ft other Error NoResponse = None"

section \<open>What was written is decoded\<close>

lemma ascii_valid: "list_all (\<lambda>c. of_char c < (128 :: nat)) s \<Longrightarrow> utf8_valid s"
proof -
  have "list_all (\<lambda>b. b < 128) bs \<Longrightarrow> utf8_units bs = map Some bs" for bs by (induction bs) simp_all
  from this [of "bytes s"] show "list_all (\<lambda>c. of_char c < (128 :: nat)) s \<Longrightarrow> utf8_valid s"
    by (auto simp: utf8_valid_def bytes_def list_all_iff)
qed

lemma clean_key: "list_all (\<lambda>c. of_char c < (128 :: nat)) s \<Longrightarrow> ToValidUTF8 s = s"
  by (simp add: ToValidUTF8_id ascii_valid)

lemma ParseUint_show: "ParseUint (show_nat (unat n)) = Some n"
  using show_nat_digits [of "unat n"] unsigned_less [of n] by (simp add: ParseUint_def)

lemma ParseInt_show: "ParseInt (show_int (sint i)) = Some i"
proof -
  have "int64_range (sint i)" using sint_ge [of i] sint_lt [of i] by (simp add: int64_range_def)
  then show ?thesis by (simp add: ParseInt_def Atoi_show_int)
qed

lemma show_nat_literal: "literal_ok (show_nat n) [] []"
  using show_nat_digits [of n] show_nat_hd [of n]
  by (cases "n = 0") (auto simp: literal_ok_def show_nat.simps [of 0] digit_char_def)

lemma json_number_show: "json_number (show_nat n)" "json_number (show_int i)"
  using json_number_literal [OF show_nat_literal] by (simp_all add: literal_def show_int_def)

text \<open>The strings and numbers an item consists of can be written.\<close>

definition update_ok :: "'a RiderUpdate_scheme \<Rightarrow> bool" where
  "update_ok u \<longleftrightarrow> utf8_valid (OrderID u) \<and> utf8_valid (CurrentStatus u) \<and> finite_update u"

definition item_ok :: "BatchRequestItem \<Rightarrow> bool" where
  "item_ok it \<longleftrightarrow> utf8_valid (req_OperationType it) \<and> utf8_valid (req_RiderID it) \<and> pred_option update_ok (req_Payload it)"

text \<open>
  What a client has to guarantee of its way to write \<^verbatim>\<open>float64\<close> numbers: a JSON number that is
  converted back to the same number.
\<close>

locale float_text =
  fixes fmt :: "float64 \<Rightarrow> string"
  assumes number: "finite_float x \<Longrightarrow> json_number (fmt x)"
    and parses: "finite_float x \<Longrightarrow> ParseFloat (fmt x) = Some x"
begin

lemma update_json_ok: "finite_update u \<Longrightarrow> list_all (\<lambda>(k, v). json_ok v) (update_json fmt u)"
  by (simp add: update_json_def finite_update_def number json_number_show)

lemma item_json_ok: "item_ok it \<Longrightarrow> json_ok (item_json fmt it)"
  using update_json_ok by (auto simp: item_json_def item_ok_def update_ok_def json_number_show split: option.splits)

lemma decode_update:
  assumes "update_ok u"
  shows "decode_members decode_update_member (map (\<lambda>(k, v). (ToValidUTF8 k, clean v)) (update_json fmt u)) u0
    = Some (RiderUpdate.truncate u)"
  using assms
  by (simp add: update_json_def update_ok_def finite_update_def clean_key ToValidUTF8_id decode_update_member_def match_field_def
      update_fields_def decode_update_field_def parses ParseInt_show RiderUpdate.defs)

lemma decode_item_json:
  assumes "item_ok it"
  shows "decode_item (clean (item_json fmt it)) = Some it"
proof -
  have "RiderUpdate.truncate u = u" for u :: RiderUpdate by (simp add: RiderUpdate.defs)
  then have "decode_members decode_update_member (map (\<lambda>(k, v). (ToValidUTF8 k, clean v)) (update_json fmt u)) u0 = Some u"
    if "req_Payload it = Some u" for u u0
    using decode_update [of u u0] assms that by (simp add: item_ok_def)
  then show ?thesis
    using assms
    by (cases "req_Payload it")
      (simp_all add: item_json_def item_ok_def clean_key ToValidUTF8_id decode_item_def decode_item_member_def match_field_def
        item_fields_def decode_item_field_def ParseUint_show zero_item_def)
qed

lemma decode_items_json:
  assumes "list_all item_ok its"
  shows "decode_items (clean (JArr (map (item_json fmt) its))) = Some its"
  using assms by (induction its) (simp_all add: decode_items_def decode_item_json)

end

interpretation go_float: float_text FormatFloat
  by unfold_locales (fact ParseFloat_FormatFloat)+

section \<open>Requests\<close>

lemma MaxBytesReader_front:
  assumes "int (length s) \<le> limit"
  shows "\<exists>t err. MaxBytesReader limit (s @ trailing) = (s @ t, err)"
proof (cases "int (length (s @ trailing)) \<le> max 0 limit")
  case False
  have "length s \<le> nat limit" using assms by linarith
  then have "take (nat limit) (s @ trailing) = s @ take (nat limit - length s) trailing" by simp
  then show ?thesis using False by (simp add: MaxBytesReader_def)
qed (simp add: MaxBytesReader_def)

text \<open>
  A request that a client writes with any correct encoder is decoded to what it was, when it fits into the
  limit, and whatever follows it.
\<close>

lemma Decode_written:
  assumes wr: "string_writer wr" and fmt: "float_text fmt" and ok: "list_all item_ok its"
    and txt_def: "text = utf8_encode (write_json wr (JArr (map (item_json fmt) its)))" and fits: "int (length text) \<le> limit"
  shows "Decode (MaxBytesReader limit (text @ trailing)) = Inr its"
proof -
  obtain t err where r: "MaxBytesReader limit (text @ trailing) = (text @ t, err)"
    using MaxBytesReader_front [OF fits] by blast
  have "json_ok (JArr (map (item_json fmt) its))"
    using ok float_text.item_json_ok [OF fmt] by (auto simp: list_all_iff)
  then have "read_front (text @ t) = Some (clean (JArr (map (item_json fmt) its)), runes t)"
    unfolding txt_def by (rule string_writer.read_front_written [OF wr]) simp
  then show ?thesis
    using float_text.decode_items_json [OF fmt ok] by (simp add: r Decode_def)
qed

text \<open>A member with a name that is none of the struct's, up to case folding.\<close>

definition unknown_field :: "string list \<Rightarrow> string \<Rightarrow> bool" where
  "unknown_field names k \<longleftrightarrow> (\<forall>n \<in> set names. fold_name n \<noteq> fold_name k)"

definition unknown_member :: "(string \<times> json) list \<Rightarrow> bool" where
  "unknown_member kvs \<longleftrightarrow> (\<exists>(k, v) \<in> set kvs. unknown_field item_fields k
     \<or> (\<exists>us. v = JObj us \<and> (\<exists>(f, w) \<in> set us. unknown_field update_fields f)))"

lemma match_unknown: "unknown_field names k \<Longrightarrow> match_field names k = None"
  by (auto simp: unknown_field_def match_field_def find_None_iff)

lemma decode_members_None:
  assumes "(k, v) \<in> set kvs" "\<And>a. f k v a = None"
  shows "decode_members f kvs a = None"
  using assms(1)
proof (induction kvs arbitrary: a)
  case (Cons x kvs)
  obtain k' v' where x: "x = (k', v')" by fastforce
  show ?case using Cons assms(2) by (cases "f k' v' a") (auto simp: x)
qed simp

lemma store_unknown:
  assumes "(f, w) \<in> set us" "unknown_field update_fields f"
  shows "decode_item_field g (JObj us) it = None"
proof -
  have "decode_update_member f w u = None" for u by (simp add: decode_update_member_def match_unknown [OF assms(2)])
  then show ?thesis using decode_members_None [of f w us decode_update_member] assms(1) by (simp add: decode_item_field_def)
qed

lemma decode_unknown:
  assumes "unknown_member kvs"
  shows "decode_item (JObj kvs) = None"
proof -
  obtain k v where kv: "(k, v) \<in> set kvs"
    "unknown_field item_fields k \<or> (\<exists>us f w. v = JObj us \<and> (f, w) \<in> set us \<and> unknown_field update_fields f)"
    using assms unfolding unknown_member_def by fast
  have "decode_item_member k v it = None" for it
    using kv(2)
  proof
    assume "unknown_field item_fields k"
    then show ?thesis by (simp add: decode_item_member_def match_unknown)
  next
    assume "\<exists>us f w. v = JObj us \<and> (f, w) \<in> set us \<and> unknown_field update_fields f"
    then obtain us f w where "v = JObj us" "(f, w) \<in> set us" "unknown_field update_fields f" by (elim exE conjE)
    then have "decode_item_field g v it = None" for g using store_unknown [of f w us g it] by simp
    then show ?thesis by (cases "match_field item_fields k") (simp_all add: decode_item_member_def)
  qed
  then show ?thesis using decode_members_None [OF kv(1), of decode_item_member] by (simp add: decode_item_def)
qed

lemma those_None: "None \<in> set xs \<Longrightarrow> those xs = None"
  by (induction xs) (auto split: option.splits)

text \<open>
  C39: unknown fields are refused.  A body that holds an array in which some object has a member that is no
  field of the request item, or whose payload has one that is no field of the update, is answered
  with status 400 before anything is executed.
\<close>

theorem unknown_field_rejected:
  assumes "read_front (fst (MaxBytesReader (MaxBodyBytes cfg) body)) = Some (JArr vs, rest)"
    and "JObj kvs \<in> set vs" "unknown_member kvs"
  shows "serve_batch numCPU cfg st c body = Inl (WriteError 400 (Wrap ''invalid JSON body'' (External ''json'')))"
proof -
  obtain data err where r: "MaxBytesReader (MaxBodyBytes cfg) body = (data, err)" by fastforce
  have "None \<in> set (map decode_item vs)" using assms(2) decode_unknown [OF assms(3)] by (force simp: image_iff)
  then have "decode_items (JArr vs) = None" by (simp add: decode_items_def those_None)
  then show ?thesis using assms(1) by (simp add: serve_batch_def withMaxBody_def r Decode_def handleBatch_start_def)
qed

theorem unknown_field_rejected_witness:
  "serve_batch 4 (NewServer example_config) Map.empty None (Marshal (JArr [JObj [(''lat'', JNull)]]))
     = (Inl (WriteError 400 (Wrap ''invalid JSON body'' (External ''json''))) :: go_value response + (string \<rightharpoonup> go_value, go_value) pool)"
proof -
  have short: "length (Marshal (JArr [JObj [(''lat'', JNull)]])) \<le> 100" by code_simp
  have "read_front (Marshal (JArr [JObj [(''lat'', JNull)]]) @ []) = Some (clean (JArr [JObj [(''lat'', JNull)]]), runes [])"
    unfolding Marshal_def by (rule go_string.read_front_written) simp_all
  moreover have "fst (MaxBytesReader (MaxBodyBytes (NewServer example_config)) (Marshal (JArr [JObj [(''lat'', JNull)]]))) = Marshal (JArr [JObj [(''lat'', JNull)]])"
    using short by (simp add: MaxBytesReader_def NewServer_def example_config_def orDefault_def)
  moreover have "unknown_member [(''lat'', JNull)]"
    by (simp add: unknown_member_def unknown_field_def item_fields_def fold_name_def runes_def fold_rune_def)
  ultimately show ?thesis
    by (intro unknown_field_rejected [of _ _ "[JObj [(''lat'', JNull)]]" _ "[(''lat'', JNull)]"]) (simp_all add: clean_key)
qed

section \<open>Answers\<close>

text \<open>An answer is one JSON value and a line feed, except that a payload that cannot be encoded leaves no body.\<close>

lemma line_feed: "runes [CHR 0x0A] = [10]"
  by (simp add: runes_def)

lemma number_stop_feed: "number_stop (runes [CHR 0x0A])"
  by (simp add: line_feed number_stop_def is_digit_rune_def)

lemma writeJSON_read: "json_ok v \<Longrightarrow> read_front (ans_body (writeJSON st (Some v))) = Some (clean v, [10])"
  using go_string.read_front_written [of v "[CHR 0x0A]"] number_stop_feed
  by (simp add: writeJSON_def Marshal_def line_feed)

lemma value_json_ok:
  assumes "value_json ft other v = Some j" "\<And>s j. other s = Some j \<Longrightarrow> json_ok j"
  shows "json_ok j"
  using assms(1)
proof (cases v)
  case (GoRiderUpdatePtr p)
  then show ?thesis using assms(1) go_float.update_json_ok by (cases p) (auto split: if_splits)
qed (use assms go_float.update_json_ok in \<open>auto split: if_splits option.splits\<close>)

lemma response_json_ok:
  assumes "response_json ft other Error it = Some j" "\<And>s j. other s = Some j \<Longrightarrow> json_ok j"
  shows "json_ok j"
  using assms(1) value_json_ok [OF _ assms(2)]
  by (fastforce simp: response_json_def Let_def json_number_show split: option.splits if_splits)

lemma those_map_Some: "those (map (Some \<circ> f) xs) = Some (map f xs)"
  by (induction xs) simp_all

lemma those_set: "those xs = Some ys \<Longrightarrow> y \<in> set ys \<Longrightarrow> Some y \<in> set xs"
  by (induction xs arbitrary: ys) (auto split: option.splits)

text \<open>
  C40: every answer can be read.  The body of an answer is one JSON value followed by a line feed, and a client that
  reads it gets exactly what was encoded, with invalid bytes in strings replaced: for a
  success the array of the response items, for a failure an object with the one member \<^verbatim>\<open>error\<close>.
  Only a success whose items cannot be encoded has an empty body, and then still the status it was
  given.
\<close>

theorem answers_readable:
  assumes other: "\<forall>s j. other s = Some j \<longrightarrow> json_ok j"
  shows "(\<exists>a. respond ft other Error (WriteError st e) = Some a \<and> ans_status a = st
      \<and> read_front (ans_body a) = Some (JObj [(''error'', JStr (ToValidUTF8 (Error e)))], [10]))
    \<and> (\<exists>a. respond ft other Error (WriteJSON st its) = Some a \<and> ans_status a = st
      \<and> (case those (map (response_json ft other Error) its) of
            Some vs \<Rightarrow> read_front (ans_body a) = Some (JArr (map clean vs), [10])
          | None \<Rightarrow> ans_body a = []))"
proof -
  have "json_ok (JObj [(''error'', JStr (Error e))])" by simp
  from writeJSON_read [OF this, of st] have err: "read_front (ans_body (writeError st (Error e))) = Some (JObj [(''error'', JStr (ToValidUTF8 (Error e)))], [10])"
    by (simp add: writeError_def clean_key)
  have "read_front (ans_body (writeJSON st (Some (JArr vs)))) = Some (JArr (map clean vs), [10])"
    if vs: "those (map (response_json ft other Error) its) = Some vs" for vs
  proof -
    have "json_ok v" if "v \<in> set vs" for v
      using those_set [OF vs that] response_json_ok [of ft other Error _ v] other by (auto simp: image_iff)
    then have "json_ok (JArr vs)" by (simp add: list_all_iff)
    from writeJSON_read [OF this, of st] show ?thesis by simp
  qed
  moreover have "ans_body (writeJSON st None) = []" by (simp add: writeJSON_def)
  moreover have "ans_status (writeJSON st p) = st" for p by (simp add: writeJSON_def)
  moreover have "ans_status (writeError st m) = st" for m by (simp add: writeError_def writeJSON_def)
  ultimately show ?thesis using err by (auto split: option.splits)
qed

theorem answers_readable_witness:
  "(\<exists>a. respond (\<lambda>_. None) (\<lambda>_. None) (\<lambda>_. ''late'') (WriteError 504 DeadlineExceeded) = Some a \<and> ans_status a = 504
      \<and> read_front (ans_body a) = Some (JObj [(''error'', JStr ''late'')], [10]))
    \<and> (\<exists>a. respond (\<lambda>_. None) (\<lambda>_. None) (\<lambda>_. ''late'') (WriteJSON 200 [\<lparr>resp_SeqID = 7, resp_Result = None, resp_Error = None\<rparr>]) = Some a
      \<and> read_front (ans_body a) = Some (JArr [JObj [(''seq_id'', JNum ''7'')]], [10]))"
proof -
  have seven: "digit_char 7 = CHR ''7''" by code_simp
  have "those (map (response_json (\<lambda>_. None) (\<lambda>_. None) (\<lambda>_. ''late'')) [\<lparr>resp_SeqID = 7, resp_Result = None, resp_Error = None\<rparr>])
      = Some [JObj [(''seq_id'', JNum ''7'')]]"
    using seven by (simp add: response_json_def show_nat.simps)
  then show ?thesis
    using answers_readable [of "\<lambda>_. None" "\<lambda>_. None" "\<lambda>_. ''late''" 504 DeadlineExceeded "[]"]
      answers_readable [of "\<lambda>_. None" "\<lambda>_. None" "\<lambda>_. ''late''" 200 Canceled "[\<lparr>resp_SeqID = 7, resp_Result = None, resp_Error = None\<rparr>]"]
    by (simp add: clean_key)
qed

section \<open>From bytes to a run\<close>

lemma translated_starts:
  assumes "translates its ops" "its \<noteq> []" "length its \<le> 2 ^ 63"
  shows "\<exists>s. handleBatch_start numCPU cfg st c (Inr its) = Inr s"
proof -
  have "translateRequest its = Inr ops" using translateRequest_Inr [of its ops] assms by simp
  moreover obtain h a r where "Build ops = Inr (h, a, r)"
    using translates_valid_batch [OF assms(1,3)] Build_ok_iff [of ops] by (metis surj_pair)
  ultimately show ?thesis using assms(2) by (simp add: handleBatch_start_def)
qed

lemma written_request_starts:
  assumes "string_writer wr" "float_text fmt" "list_all item_ok its" "translates its ops" "its \<noteq> []" "length its \<le> 2 ^ 63"
    and "text = utf8_encode (write_json wr (JArr (map (item_json fmt) its)))" "int (length text) \<le> MaxBodyBytes cfg"
  shows "\<exists>s. serve_batch numCPU cfg st c text = Inr s"
  using translated_starts [OF assms(4-6)] Decode_written [OF assms(1-3,7,8), of "[]"] by (simp add: serve_batch_def withMaxBody_def)

lemma translates_in_order:
  assumes "length its < 2 ^ 64" "length ops = length its"
    and "\<And>i. i < length its \<Longrightarrow> req_SeqID (its ! i) = of_nat i \<and> translate_item (its ! i) = Inr (ops ! i)"
  shows "translates its ops"
proof -
  have idx: "req_index (its ! i) = i" if "i < length its" for i using assms(1) assms(3) [OF that] that by (simp add: unat_of_nat_64)
  then have "map req_index its = [0..<length its]" by (intro nth_equalityI) simp_all
  moreover have "\<forall>it \<in> set its. req_index it < length its \<and> translate_item it = Inr (ops ! req_index it)"
    using idx assms(3) by (auto simp: in_set_conv_nth)
  ultimately show ?thesis unfolding translates_def using assms(2) by simp
qed

end
