(* ===== verification/Rider_Answer.thy ===== *)
theory Rider_Answer
  imports Wire Batch
begin

text \<open>
  Answers over the PostgreSQL engine: the constraints of the table exclude infinities and NaN, so what a
  batch reads and writes can always be encoded.
\<close>

section \<open>Results that can be encoded\<close>

fun result_finite :: "go_value any \<Rightarrow> bool" where
  "result_finite None \<longleftrightarrow> True"
| "result_finite (Some (GoRiderUpdate u)) \<longleftrightarrow> finite_update u"
| "result_finite (Some (GoRiderUpdatePtr p)) \<longleftrightarrow> pred_option finite_update p"
| "result_finite (Some (GoRiderRecord r)) \<longleftrightarrow> finite_update r"
| "result_finite (Some (GoOther s)) \<longleftrightarrow> False"

lemma coordinate_finite: "lat_ok b \<Longrightarrow> finite_float b" "lng_ok b \<Longrightarrow> finite_float b"
proof -
  have "unat (take_bit 63 b) = unat b mod 2 ^ 63"
    by (simp only: unsigned_take_bit_eq) (simp only: take_bit_eq_mod)
  then have mag: "bits_mag b = nat \<bar>float_ord b\<bar>" by (simp add: bits_mag_def float_ord_def Let_def)
  have lim: "float_ord 0x4056800000000000 = 0x4056800000000000" "float_ord 0x4066800000000000 = 0x4066800000000000"
    by (simp_all add: float_ord_def Let_def)
  show "lat_ok b \<Longrightarrow> finite_float b" "lng_ok b \<Longrightarrow> finite_float b"
    by (simp_all add: finite_float_def mag lat_ok_def lng_ok_def lim inf_mag_def nat_less_iff)
qed

lemma row_finite: "row_check r \<Longrightarrow> finite_update (row_record uuid_out r)"
  by (simp add: row_check_def finite_update_def row_record_def coordinate_finite)

lemma pg_Get_finite:
  assumes "rider_invar d" "pg_Get (rider_stmts uuid_in uuid_out) c k d = (d', v, found, e)"
  shows "result_finite v"
  using assms by (auto simp: pg_Get_def getQuery_def rider_invar_def row_finite split: option.splits)

lemma pg_Set_finite:
  assumes "pg_Set (rider_stmts uuid_in uuid_out) c k v d = (d', None)"
  shows "result_finite v"
proof -
  obtain u where u: "v = Some (GoRiderUpdate u) \<or> v = Some (GoRiderUpdatePtr (Some u))" "lat_ok (Latitude u)" "lng_ok (Longitude u)"
    using assms
    by (auto simp: pg_Set_def setQuery_def row_check_def Let_def asRiderUpdate_Inr split: sum.splits if_splits option.splits)
  then show ?thesis by (auto simp: finite_update_def coordinate_finite)
qed

lemma execute_finite:
  assumes "rider_invar d" "executeNode (rider_engine uuid_in uuid_out) c d p = (d', p')" "Result p = None"
  shows "rider_invar d'" "result_finite (Result p')"
proof -
  have "rider_invar d' \<and> result_finite (Result p')"
  proof (cases "Type p = OpRead")
    case True
    obtain d1 v found e where g: "pg_Get (rider_stmts uuid_in uuid_out) c (Key p) d = (d1, v, found, e)" by (metis prod_cases4)
    show ?thesis
      using assms True g pg_Get_finite [OF assms(1) g] rider_invar_ops(1) [OF assms(1) g]
      by (auto simp: executeNode_def split: option.splits if_splits)
  next
    case nr: False
    show ?thesis
    proof (cases "Type p = OpWrite")
      case True
      obtain d1 e where g: "pg_Set (rider_stmts uuid_in uuid_out) c (Key p) (Value p) d = (d1, e)" by fastforce
      show ?thesis
        using assms True g pg_Set_finite rider_invar_ops(2) [OF assms(1) g]
        by (auto simp: executeNode_def OpRead_def OpWrite_def split: option.splits)
    next
      case False
      obtain d1 e where g: "pg_Delete (rider_stmts uuid_in uuid_out) c (Key p) d = (d1, e)" by fastforce
      show ?thesis
        using assms nr False g rider_invar_ops(3) [OF assms(1) g]
        by (auto simp: executeNode_def split: option.splits if_splits)
    qed
  qed
  then show "rider_invar d'" "result_finite (Result p')" by blast+
qed

lemma sequential_finite:
  assumes "rider_invar d" "\<forall>p \<in> set ops. Result p = None"
  shows "\<forall>r \<in> set (snd (runSequential (rider_engine uuid_in uuid_out) d ops)). result_finite (Result r)"
  using assms
proof (induction ops arbitrary: d)
  case (Cons p ops)
  obtain d' p' where e: "executeNode (rider_engine uuid_in uuid_out) None d p = (d', p')" by fastforce
  have r: "rider_invar d'" "result_finite (Result p')" using execute_finite [OF Cons.prems(1) e] Cons.prems(2) by simp_all
  show ?case using Cons.IH [OF r(1)] Cons.prems(2) r(2) e by (auto split: prod.splits)
qed simp

lemma seq_op_SeqID: "SeqID (seq_op eng d ops i) = SeqID (ops ! i)"
  using executeNode_frame(2) [of eng None "seq_state eng d ops i" "ops ! i"] by (simp add: seq_op_def) (metis prod.collapse)

lemma norm_op_Result: "Result (norm_op f p) = f (Result p)"
  by (simp add: norm_op_def)

lemma erase_time_finite: "result_finite (erase_time v) = result_finite v"
  by (cases v rule: result_finite.cases) (simp_all add: erase_time_def finite_update_def)

lemma response_json_finite:
  assumes "result_finite (resp_Result it)" "\<And>t. ft t \<noteq> None"
  shows "response_json ft other Error it \<noteq> None"
proof -
  have "value_json ft other v \<noteq> None" if "resp_Result it = Some v" for v
  proof (cases v)
    case (GoRiderUpdatePtr p)
    then show ?thesis using assms(1) that by (cases p) simp_all
  qed (use assms that in \<open>auto split: option.splits\<close>)
  then show ?thesis by (cases "resp_Result it") (auto simp: response_json_def Let_def)
qed

lemma response_json_seq:
  assumes "response_json ft other Error it = Some j"
  shows "\<exists>more. clean j = JObj ((''seq_id'', JNum (show_nat (unat (resp_SeqID it)))) # more)"
proof -
  have "\<exists>more. j = JObj ((''seq_id'', JNum (show_nat (unat (resp_SeqID it)))) # more)"
    using assms by (auto simp: response_json_def Let_def split: option.splits)
  then show ?thesis by (elim exE) (simp add: clean_key)
qed

lemma those_Some: "\<forall>x \<in> set xs. x \<noteq> None \<Longrightarrow> \<exists>ys. those xs = Some ys \<and> length ys = length xs"
  by (induction xs) auto

lemma those_nth: "those xs = Some ys \<Longrightarrow> i < length xs \<Longrightarrow> xs ! i = Some (ys ! i)"
proof (induction xs arbitrary: ys i)
  case (Cons x xs)
  then show ?case by (cases i) (auto split: option.splits)
qed simp

end
