(* ===== verification/Simulator.thy ===== *)
theory Simulator
  imports Server Rider_Table Go_Float "HOL-Library.Multiset"
begin

text \<open>
  Model of \<^verbatim>\<open>src/cmd/simulator/main.go\<close>: the generated batches, the clients with their
  metrics, and the report.  The random generator and the outcome of each client's HTTP call
  are arguments.  The clients run concurrently; their updates of the metrics are atomic, and a
  run is any interleaving of the clients' sequences of updates.  Latencies and times are nanoseconds.
\<close>

section \<open>Workload\<close>

record riderUpdatePayload =
  pl_OrderID :: string
  pl_Latitude :: rat
  pl_Longitude :: rat
  pl_CurrentStatus :: string
  pl_ETAMinutes :: int

record batchRequestItem =
  it_SeqID :: uint64
  it_OperationType :: string
  it_RiderID :: string
  it_Payload :: "riderUpdatePayload option"

definition riderStatuses :: "string list" where
  "riderStatuses = [''AT_VENDOR'', ''EN_ROUTE'', ''ARRIVED'', ''DELIVERED'']"

text \<open>
  The \<open>k\<close>-th values that \<^verbatim>\<open>rng.Float64()\<close> and \<^verbatim>\<open>rng.Intn(n)\<close> return.  A product that is added
  to something may be compiled to one fused operation (\<open>fma\<close>) or be rounded first.
\<close>

record rng =
  Float64 :: "nat \<Rightarrow> rat"
  Intn :: "nat \<Rightarrow> int \<Rightarrow> int"

definition mul_add :: "bool \<Rightarrow> rat \<Rightarrow> rat \<Rightarrow> rat \<Rightarrow> rat" where
  "mul_add fma x y z = (if fma then fl (z + x * y) else fl (z + fl (x * y)))"

text \<open>Arithmetic on \<^verbatim>\<open>int\<close> wraps around; \<^verbatim>\<open>%012d\<close> counts the sign.\<close>

definition wrap64 :: "int \<Rightarrow> int" where
  "wrap64 i = (i + 2 ^ 63) mod 2 ^ 64 - 2 ^ 63"

definition show_012d :: "int \<Rightarrow> string" where
  "show_012d i = (if i < 0 then CHR ''-'' # show_padded 11 (nat (- i)) else show_padded 12 (nat i))"

definition build_item :: "bool \<Rightarrow> rng \<Rightarrow> int \<Rightarrow> nat \<Rightarrow> batchRequestItem" where
  "build_item fma rng clientID i =
     (let id = show_012d (wrap64 (clientID * 1000 + int i))
      in \<lparr>it_SeqID = of_nat i, it_OperationType = ''WRITE'',
          it_RiderID = ''00000000-0000-0000-0000-'' @ id,
          it_Payload = Some
            \<lparr>pl_OrderID = ''11111111-1111-1111-1111-'' @ id,
             pl_Latitude = mul_add fma (Float64 rng (2 * i)) 180 (- 90),
             pl_Longitude = mul_add fma (Float64 rng (2 * i + 1)) 360 (- 180),
             pl_CurrentStatus = riderStatuses ! nat (Intn rng (2 * i) (int (length riderStatuses))),
             pl_ETAMinutes = Intn rng (2 * i + 1) 60\<rparr>\<rparr>)"

text \<open>\<open>None\<close> is the panic of \<^verbatim>\<open>make\<close> with a negative length.\<close>

definition buildBatch :: "bool \<Rightarrow> rng \<Rightarrow> int \<Rightarrow> int \<Rightarrow> batchRequestItem list option" where
  "buildBatch fma rng batchSize clientID =
     (if batchSize < 0 then None else Some (map (build_item fma rng clientID) [0..<nat batchSize]))"

section \<open>Metrics\<close>

record metrics =
  requestsSent :: int
  successCount :: int
  serverErrorCount :: int
  clientErrorCount :: int
  timeoutCount :: int
  networkErrCount :: int
  statusCodes :: "int \<rightharpoonup> int"
  latencies :: "int list"

definition newMetrics :: metrics where
  "newMetrics = \<lparr>requestsSent = 0, successCount = 0, serverErrorCount = 0, clientErrorCount = 0,
     timeoutCount = 0, networkErrCount = 0, statusCodes = Map.empty, latencies = []\<rparr>"

text \<open>
  One atomic update: an atomic counter, or a critical section of one of the two mutexes.  No
  counter exceeds the number of clients, an \<^verbatim>\<open>int\<close>, so none wraps around.
\<close>

datatype metric_update =
    AddSent | AddSuccess | AddServerError | AddClientError | AddTimeout | AddNetworkErr
  | CountStatus int
  | AppendLatency int

fun apply_update :: "metric_update \<Rightarrow> metrics \<Rightarrow> metrics" where
  "apply_update AddSent m = m\<lparr>requestsSent := requestsSent m + 1\<rparr>"
| "apply_update AddSuccess m = m\<lparr>successCount := successCount m + 1\<rparr>"
| "apply_update AddServerError m = m\<lparr>serverErrorCount := serverErrorCount m + 1\<rparr>"
| "apply_update AddClientError m = m\<lparr>clientErrorCount := clientErrorCount m + 1\<rparr>"
| "apply_update AddTimeout m = m\<lparr>timeoutCount := timeoutCount m + 1\<rparr>"
| "apply_update AddNetworkErr m = m\<lparr>networkErrCount := networkErrCount m + 1\<rparr>"
| "apply_update (CountStatus code) m =
     m\<lparr>statusCodes := (statusCodes m)(code \<mapsto> (case statusCodes m code of None \<Rightarrow> 0 | Some n \<Rightarrow> n) + 1)\<rparr>"
| "apply_update (AppendLatency l) m = m\<lparr>latencies := latencies m @ [l]\<rparr>"

definition recordStatus :: "int \<Rightarrow> int \<Rightarrow> metric_update list" where
  "recordStatus code latency =
     [CountStatus code, AppendLatency latency]
     @ (if code = 200 then [AddSuccess]
        else if 500 \<le> code then [AddServerError]
        else if 400 \<le> code then [AddClientError]
        else [])"

section \<open>A client\<close>

text \<open>
  \<^verbatim>\<open>errors.As\<close> into a \<^verbatim>\<open>net.Error\<close>: what \<^verbatim>\<open>Timeout()\<close> of the first such error in the chain answers.
  An exceeded deadline is one, and so is a \<^verbatim>\<open>*url.Error\<close>, which asks the error inside.
\<close>

fun net_timeout :: "error \<Rightarrow> bool" where
  "net_timeout DeadlineExceeded = True"
| "net_timeout (NetError t) = t"
| "net_timeout (UrlError e) = net_timeout e"
| "net_timeout _ = False"

fun as_net_error :: "error \<Rightarrow> bool option" where
  "as_net_error DeadlineExceeded = Some True"
| "as_net_error (NetError t) = Some t"
| "as_net_error (UrlError e) = Some (net_timeout e)"
| "as_net_error (Wrap m e) = as_net_error e"
| "as_net_error (AtSeq q e) = as_net_error e"
| "as_net_error (Joined es) = (case filter (\<lambda>r. r \<noteq> None) (map as_net_error es) of [] \<Rightarrow> None | r # _ \<Rightarrow> r)"
| "as_net_error _ = None"

definition isTimeout :: "error \<Rightarrow> bool" where
  "isTimeout err = (if errors_Is err DeadlineExceeded then True
     else case as_net_error err of Some t \<Rightarrow> t | None \<Rightarrow> False)"

datatype client_outcome =
    MarshalFailed
  | RequestFailed
  | DoFailed error
  | Responded int int

definition runClient :: "client_outcome \<Rightarrow> metric_update list" where
  "runClient outcome =
     (case outcome of
        MarshalFailed \<Rightarrow> [AddNetworkErr]
      | RequestFailed \<Rightarrow> [AddNetworkErr]
      | DoFailed err \<Rightarrow> [AddSent, if isTimeout err then AddTimeout else AddNetworkErr]
      | Responded code latency \<Rightarrow> AddSent # recordStatus code latency)"

text \<open>The interleavings of the clients' updates.\<close>

inductive interleaving :: "'a list list \<Rightarrow> 'a list \<Rightarrow> bool" where
  finished: "\<forall>xs \<in> set xss. xs = [] \<Longrightarrow> interleaving xss []"
| turn: "i < length xss \<Longrightarrow> xss ! i = x # xs \<Longrightarrow> interleaving (xss[i := xs]) ys \<Longrightarrow> interleaving xss (x # ys)"

definition run_clients :: "metric_update list \<Rightarrow> metrics" where
  "run_clients es = fold apply_update es newMetrics"

text \<open>
  How the process ends: \<^verbatim>\<open>wg.Add\<close> panics on a negative count, \<^verbatim>\<open>buildBatch\<close> in a client on a
  negative size.
\<close>

datatype sim_exit = Panic | Exit nat

definition sim_main :: "int \<Rightarrow> int \<Rightarrow> metrics \<Rightarrow> sim_exit" where
  "sim_main concurrency batchSize m =
     (if concurrency < 0 \<or> 0 < concurrency \<and> batchSize < 0 then Panic
      else if successCount m \<noteq> concurrency then Exit 1 else Exit 0)"

section \<open>The report\<close>

definition percentile_index :: "rat \<Rightarrow> nat \<Rightarrow> nat" where
  "percentile_index p n =
     (let i = \<lfloor>fl (fl p * fl (of_int (int n - 1)))\<rfloor>;
          i = (if i < 0 then 0 else i);
          i = (if int n \<le> i then int n - 1 else i)
      in nat i)"

definition percentiles :: "int list \<Rightarrow> int \<times> int \<times> int" where
  "percentiles lats =
     (if lats = [] then (0, 0, 0)
      else let sorted_lats = sort lats; n = length lats
           in (sorted_lats ! percentile_index (1 / 2) n, sorted_lats ! percentile_index (95 / 100) n,
               sorted_lats ! percentile_index (99 / 100) n))"

text \<open>\<^verbatim>\<open>Duration.Round(time.Millisecond)\<close> and \<^verbatim>\<open>Duration.Seconds()\<close> of a time that is not negative.\<close>

definition Round_ms :: "int \<Rightarrow> int" where
  "Round_ms d =
     (let r = d mod 1000000
      in if r + r < 1000000 then d - r
         else let d1 = d + 1000000 - r in if d1 < 2 ^ 63 then d1 else 2 ^ 63 - 1)"

definition Seconds :: "int \<Rightarrow> rat" where
  "Seconds d = fl (of_int (d div second) + fl (of_int (d mod second) / 1000000000))"

datatype verdict = NonSuccess | CleanSweep | NoVerdict

record report =
  totalTime :: int
  totalRequests :: int
  totalUpdates :: int
  requestRate :: "rat option"
  updateRate :: "rat option"
  successRate :: rat
  p50 :: int
  p95 :: int
  p99 :: int
  conclusion :: verdict

text \<open>A rate over a time of zero is not a number of the model (\<open>None\<close>).\<close>

definition rate :: "int \<Rightarrow> int \<Rightarrow> rat option" where
  "rate n elapsed = (if Seconds elapsed = 0 then None else Some (fl (fl (of_int n) / Seconds elapsed)))"

definition printReport :: "metrics \<Rightarrow> int \<Rightarrow> int \<Rightarrow> int \<Rightarrow> report" where
  "printReport m elapsed concurrency batchSize =
     (let total = requestsSent m; updates = wrap64 (concurrency * batchSize)
      in case percentiles (latencies m) of (q50, q95, q99) \<Rightarrow>
        \<lparr>totalTime = Round_ms elapsed, totalRequests = total, totalUpdates = updates,
         requestRate = rate total elapsed, updateRate = rate updates elapsed,
         successRate = (if 0 < total then fl (fl (fl (of_int (successCount m)) / fl (of_int total)) * 100) else 0),
         p50 = Round_ms q50, p95 = Round_ms q95, p99 = Round_ms q99,
         conclusion =
           (if 0 < serverErrorCount m \<or> 0 < timeoutCount m \<or> 0 < networkErrCount m then NonSuccess
            else if successCount m = concurrency then CleanSweep
            else NoVerdict)\<rparr>)"

section \<open>Interleavings and counters\<close>

lemma mset_concat_update:
  "i < length xss \<Longrightarrow> xss ! i = x # xs \<Longrightarrow> mset (concat xss) = add_mset x (mset (concat (xss[i := xs])))"
proof (induction xss arbitrary: i)
  case (Cons ys xss)
  then show ?case by (cases i) auto
qed simp

lemma interleaving_mset: "interleaving xss ys \<Longrightarrow> mset ys = mset (concat xss)"
proof (induction rule: interleaving.induct)
  case (turn i xss x xs ys)
  then show ?case using mset_concat_update [OF turn(1,2)] by simp
qed simp

lemma interleaving_count: "interleaving xss ys \<Longrightarrow> count_list ys x = count_list (concat xss) x"
  using interleaving_mset [of xss ys] by (metis count_mset)

text \<open>The updates commute up to the order of the latencies: each field counts its own updates.\<close>

lemma apply_update_fields:
  "requestsSent (apply_update e m) = requestsSent m + (if e = AddSent then 1 else 0)"
  "successCount (apply_update e m) = successCount m + (if e = AddSuccess then 1 else 0)"
  "serverErrorCount (apply_update e m) = serverErrorCount m + (if e = AddServerError then 1 else 0)"
  "clientErrorCount (apply_update e m) = clientErrorCount m + (if e = AddClientError then 1 else 0)"
  "timeoutCount (apply_update e m) = timeoutCount m + (if e = AddTimeout then 1 else 0)"
  "networkErrCount (apply_update e m) = networkErrCount m + (if e = AddNetworkErr then 1 else 0)"
  "latencies (apply_update e m) = latencies m @ (case e of AppendLatency l \<Rightarrow> [l] | _ \<Rightarrow> [])"
  by (cases e; simp)+

lemma fold_updates:
  "requestsSent (fold apply_update es m) = requestsSent m + int (count_list es AddSent)"
  "successCount (fold apply_update es m) = successCount m + int (count_list es AddSuccess)"
  "serverErrorCount (fold apply_update es m) = serverErrorCount m + int (count_list es AddServerError)"
  "clientErrorCount (fold apply_update es m) = clientErrorCount m + int (count_list es AddClientError)"
  "timeoutCount (fold apply_update es m) = timeoutCount m + int (count_list es AddTimeout)"
  "networkErrCount (fold apply_update es m) = networkErrCount m + int (count_list es AddNetworkErr)"
  "latencies (fold apply_update es m) = latencies m @ [l. AppendLatency l \<leftarrow> es]"
  by (induction es arbitrary: m; simp add: apply_update_fields)+

lemma fold_status:
  "(case statusCodes (fold apply_update es m) code of None \<Rightarrow> 0 | Some n \<Rightarrow> n) =
     (case statusCodes m code of None \<Rightarrow> 0 | Some n \<Rightarrow> n) + int (count_list es (CountStatus code))"
proof (induction es arbitrary: m)
  case (Cons e es)
  show ?case by (cases e) (simp_all add: Cons)
qed simp

lemma count_list_append: "count_list (xs @ ys) x = count_list xs x + count_list ys x"
  by (induction xs) simp_all

lemma count_clients:
  assumes "\<And>c. count_list (f c) x = (if P c then 1 else 0)"
  shows "count_list (concat (map f cs)) x = length (filter P cs)"
  by (induction cs) (simp_all add: count_list_append assms)

section \<open>Classes of outcomes\<close>

definition sent :: "client_outcome \<Rightarrow> bool" where
  "sent c \<longleftrightarrow> c \<noteq> MarshalFailed \<and> c \<noteq> RequestFailed"

definition responded :: "(int \<Rightarrow> bool) \<Rightarrow> client_outcome \<Rightarrow> bool" where
  "responded P c \<longleftrightarrow> (case c of Responded code latency \<Rightarrow> P code | _ \<Rightarrow> False)"

definition timed_out :: "client_outcome \<Rightarrow> bool" where
  "timed_out c \<longleftrightarrow> (case c of DoFailed e \<Rightarrow> isTimeout e | _ \<Rightarrow> False)"

definition net_failed :: "client_outcome \<Rightarrow> bool" where
  "net_failed c \<longleftrightarrow> (case c of DoFailed e \<Rightarrow> \<not> isTimeout e | Responded _ _ \<Rightarrow> False | _ \<Rightarrow> True)"

lemmas outcome_defs = sent_def responded_def timed_out_def net_failed_def

lemma runClient_counts:
  "count_list (runClient c) AddSent = (if sent c then 1 else 0)"
  "count_list (runClient c) AddSuccess = (if responded (\<lambda>code. code = 200) c then 1 else 0)"
  "count_list (runClient c) AddServerError = (if responded (\<lambda>code. 500 \<le> code) c then 1 else 0)"
  "count_list (runClient c) AddClientError = (if responded (\<lambda>code. 400 \<le> code \<and> code < 500) c then 1 else 0)"
  "count_list (runClient c) AddTimeout = (if timed_out c then 1 else 0)"
  "count_list (runClient c) AddNetworkErr = (if net_failed c then 1 else 0)"
  "count_list (runClient c) (CountStatus code) = (if responded (\<lambda>c. c = code) c then 1 else 0)"
  by (cases c; simp add: runClient_def recordStatus_def outcome_defs)+

lemma runClient_latency: "[l. AppendLatency l \<leftarrow> runClient c] = (case c of Responded code l \<Rightarrow> [l] | _ \<Rightarrow> [])"
  by (cases c) (simp_all add: runClient_def recordStatus_def)

lemma mset_concat_map: "mset xs = mset ys \<Longrightarrow> mset (concat (map g xs)) = mset (concat (map g ys))"
proof -
  have "mset (concat (map g zs)) = \<Sum>\<^sub># (image_mset (\<lambda>z. mset (g z)) (mset zs))" for zs
    by (induction zs) simp_all
  then show "mset xs = mset ys \<Longrightarrow> ?thesis" by simp
qed

lemma run_clients_counts:
  assumes "interleaving (map runClient outcomes) es"
  shows "requestsSent (run_clients es) = int (length (filter sent outcomes))"
    "successCount (run_clients es) = int (length (filter (responded (\<lambda>code. code = 200)) outcomes))"
    "serverErrorCount (run_clients es) = int (length (filter (responded (\<lambda>code. 500 \<le> code)) outcomes))"
    "clientErrorCount (run_clients es) = int (length (filter (responded (\<lambda>code. 400 \<le> code \<and> code < 500)) outcomes))"
    "timeoutCount (run_clients es) = int (length (filter timed_out outcomes))"
    "networkErrCount (run_clients es) = int (length (filter net_failed outcomes))"
    "(case statusCodes (run_clients es) code of None \<Rightarrow> 0 | Some n \<Rightarrow> n) = int (length (filter (responded (\<lambda>c. c = code)) outcomes))"
    "mset (latencies (run_clients es)) = mset [l. Responded code l \<leftarrow> outcomes]"
proof -
  note cnt = interleaving_count [OF assms] count_clients [OF runClient_counts(1)] count_clients [OF runClient_counts(2)]
    count_clients [OF runClient_counts(3)] count_clients [OF runClient_counts(4)] count_clients [OF runClient_counts(5)]
    count_clients [OF runClient_counts(6)] count_clients [OF runClient_counts(7)]
  show "requestsSent (run_clients es) = int (length (filter sent outcomes))"
    "successCount (run_clients es) = int (length (filter (responded (\<lambda>code. code = 200)) outcomes))"
    "serverErrorCount (run_clients es) = int (length (filter (responded (\<lambda>code. 500 \<le> code)) outcomes))"
    "clientErrorCount (run_clients es) = int (length (filter (responded (\<lambda>code. 400 \<le> code \<and> code < 500)) outcomes))"
    "timeoutCount (run_clients es) = int (length (filter timed_out outcomes))"
    "networkErrCount (run_clients es) = int (length (filter net_failed outcomes))"
    unfolding run_clients_def fold_updates newMetrics_def by (simp_all add: cnt)
  show "(case statusCodes (run_clients es) code of None \<Rightarrow> 0 | Some n \<Rightarrow> n) = int (length (filter (responded (\<lambda>c. c = code)) outcomes))"
    unfolding run_clients_def fold_status newMetrics_def by (simp add: cnt)
  have "mset [l. AppendLatency l \<leftarrow> es] = mset [l. AppendLatency l \<leftarrow> concat (map runClient outcomes)]"
    by (rule mset_concat_map) (rule interleaving_mset [OF assms])
  also have "[l. AppendLatency l \<leftarrow> concat (map runClient outcomes)] = [l. Responded code l \<leftarrow> outcomes]"
    using runClient_latency by (induction outcomes) simp_all
  finally show "mset (latencies (run_clients es)) = mset [l. Responded code l \<leftarrow> outcomes]"
    unfolding run_clients_def fold_updates newMetrics_def by simp
qed

lemma filter_length_0: "length (filter P xs) = 0 \<longleftrightarrow> (\<forall>x \<in> set xs. \<not> P x)"
  by (simp add: filter_empty_conv)

lemma filter_length_all: "length (filter P xs) = length xs \<longleftrightarrow> (\<forall>x \<in> set xs. P x)"
  by (metis filter_True filter_id_conv length_filter_less linorder_neq_iff)

section \<open>Percentiles\<close>

lemma percentile_index_floor:
  assumes n: "0 < n" "n \<le> 2 ^ 40" and c: "0 < c" "c \<le> 100"
    and a: "0 < fl p" "\<bar>fl p - of_nat c / 100\<bar> \<le> 1 / 2 ^ 54" "of_nat c / 100 - fl p \<le> fl p / 2 ^ 54"
  shows "percentile_index p n = c * (n - 1) div 100"
proof -
  obtain k where k: "n = Suc k" using n(1) by (cases n) auto
  have k40: "int k \<le> 2 ^ 40" using n(2) unfolding k by simp
  then have "fl (of_int (int n - 1)) = of_int (int k)" using fl_of_int [of "int k"] by (simp add: k)
  moreover have "\<lfloor>fl (fl p * of_int (int k))\<rfloor> = int c * int k div 100"
    using floor_fl_percentage [of "int c" "int k" "fl p"] c k40 a by simp
  moreover have "int c * int k div 100 = int (c * k div 100)" by (simp add: zdiv_int)
  moreover have "c * k div 100 \<le> k"
  proof -
    have "c * k \<le> 100 * k" using c(2) by (rule mult_right_mono) simp
    then have "c * k div 100 \<le> 100 * k div 100" by (rule div_le_mono)
    then show ?thesis by simp
  qed
  ultimately show ?thesis by (simp add: percentile_index_def Let_def k)
qed

lemma percentile_indices:
  assumes "0 < n" "n \<le> 2 ^ 40"
  shows "percentile_index (1 / 2) n = 50 * (n - 1) div 100" "percentile_index (95 / 100) n = 95 * (n - 1) div 100"
    "percentile_index (99 / 100) n = 99 * (n - 1) div 100"
proof -
  have f: "0 < fl (1 / 2)" "\<bar>fl (1 / 2) - of_nat 50 / 100\<bar> \<le> 1 / 2 ^ 54" "of_nat 50 / 100 - fl (1 / 2) \<le> fl (1 / 2) / 2 ^ 54"
    "0 < fl (95 / 100)" "\<bar>fl (95 / 100) - of_nat 95 / 100\<bar> \<le> 1 / 2 ^ 54" "of_nat 95 / 100 - fl (95 / 100) \<le> fl (95 / 100) / 2 ^ 54"
    "0 < fl (99 / 100)" "\<bar>fl (99 / 100) - of_nat 99 / 100\<bar> \<le> 1 / 2 ^ 54" "of_nat 99 / 100 - fl (99 / 100) \<le> fl (99 / 100) / 2 ^ 54"
    unfolding fl_percentages by simp_all
  show "percentile_index (1 / 2) n = 50 * (n - 1) div 100" by (rule percentile_index_floor [OF assms _ _ f(1-3)]) simp_all
  show "percentile_index (95 / 100) n = 95 * (n - 1) div 100" by (rule percentile_index_floor [OF assms _ _ f(4-6)]) simp_all
  show "percentile_index (99 / 100) n = 99 * (n - 1) div 100" by (rule percentile_index_floor [OF assms _ _ f(7-9)]) simp_all
qed

section \<open>Properties\<close>

text \<open>
  C34: the metrics count every client, in whatever order their updates interleave.  Each
  counter is the number of clients with the outcome it stands for, each status code is counted
  as often as it was received, and the latencies are those of the answered requests.
\<close>

theorem metrics_exact:
  assumes "interleaving (map runClient outcomes) es"
  shows "requestsSent (run_clients es) = int (length (filter sent outcomes))
    \<and> successCount (run_clients es) = int (length (filter (responded (\<lambda>code. code = 200)) outcomes))
    \<and> serverErrorCount (run_clients es) = int (length (filter (responded (\<lambda>code. 500 \<le> code)) outcomes))
    \<and> clientErrorCount (run_clients es) = int (length (filter (responded (\<lambda>code. 400 \<le> code \<and> code < 500)) outcomes))
    \<and> timeoutCount (run_clients es) = int (length (filter timed_out outcomes))
    \<and> networkErrCount (run_clients es) = int (length (filter net_failed outcomes))
    \<and> (\<forall>code. (case statusCodes (run_clients es) code of None \<Rightarrow> 0 | Some n \<Rightarrow> n)
          = int (length (filter (responded (\<lambda>c. c = code)) outcomes)))
    \<and> mset (latencies (run_clients es)) = mset [l. Responded code l \<leftarrow> outcomes]"
  using run_clients_counts [OF assms] by blast

definition example_outcomes :: "client_outcome list" where
  "example_outcomes = [Responded 200 5, DoFailed (UrlError DeadlineExceeded)]"

definition example_updates :: "metric_update list" where
  "example_updates = [AddSent, AddSent, CountStatus 200, AddTimeout, AppendLatency 5, AddSuccess]"

lemma example_interleaving: "interleaving (map runClient example_outcomes) example_updates"
proof -
  have start: "map runClient example_outcomes = [[AddSent, CountStatus 200, AppendLatency 5, AddSuccess], [AddSent, AddTimeout]]"
    by (simp add: example_outcomes_def runClient_def recordStatus_def isTimeout_def)
  show ?thesis
    unfolding start example_updates_def
    by (rule turn [of 0], simp, simp, rule turn [of 1], simp, simp, rule turn [of 0], simp, simp, rule turn [of 1], simp, simp,
        rule turn [of 0], simp, simp, rule turn [of 0], simp, simp, rule finished) simp
qed

theorem metrics_exact_witness:
  "successCount (run_clients example_updates) = 1 \<and> timeoutCount (run_clients example_updates) = 1"
  using metrics_exact [OF example_interleaving] by (simp add: example_outcomes_def outcome_defs isTimeout_def)

text \<open>
  C36: exit status and conclusion.  The process exits with 0 exactly when every client was
  answered 200, and exactly then the report announces a clean sweep.  It announces failures when
  a client timed out, failed on the network or was answered 5xx; when the only other answers are
  below 500 (such as 400) it announces nothing, although the exit status is 1.  The success rate
  is a percentage.
\<close>

theorem report_conclusion:
  assumes "interleaving (map runClient outcomes) es" "0 \<le> batchSize"
  shows "let m = run_clients es; n = int (length outcomes); r = printReport m elapsed n batchSize in
    (sim_main n batchSize m = Exit 0 \<longleftrightarrow> list_all (responded (\<lambda>code. code = 200)) outcomes)
    \<and> (conclusion r = CleanSweep \<longleftrightarrow> sim_main n batchSize m = Exit 0)
    \<and> (conclusion r = NoVerdict \<longleftrightarrow> sim_main n batchSize m = Exit 1 \<and> list_all (responded (\<lambda>code. code < 500)) outcomes)
    \<and> 0 \<le> successRate r \<and> successRate r \<le> 100"
proof -
  define m n where "m = run_clients es" and "n = int (length outcomes)"
  define r where "r = printReport m elapsed n batchSize"
  note cnt = run_clients_counts [OF assms(1), folded m_def]
  have r: "conclusion r = (if 0 < serverErrorCount m \<or> 0 < timeoutCount m \<or> 0 < networkErrCount m then NonSuccess
      else if successCount m = n then CleanSweep else NoVerdict)"
    "successRate r = (if 0 < requestsSent m
       then fl (fl (fl (of_int (successCount m)) / fl (of_int (requestsSent m))) * 100) else 0)"
    by (simp_all add: r_def printReport_def Let_def split: prod.split)
  have ok: "successCount m = n \<longleftrightarrow> list_all (responded (\<lambda>code. code = 200)) outcomes"
    using filter_length_all [of "responded (\<lambda>code. code = 200)" outcomes] by (simp add: cnt n_def list_all_iff)
  have exit: "sim_main n batchSize m = Exit 0 \<longleftrightarrow> successCount m = n" "sim_main n batchSize m = Exit 1 \<longleftrightarrow> successCount m \<noteq> n"
    using assms(2) by (simp_all add: sim_main_def n_def)
  have bad: "0 < serverErrorCount m \<or> 0 < timeoutCount m \<or> 0 < networkErrCount m \<longleftrightarrow> \<not> list_all (responded (\<lambda>code. code < 500)) outcomes"
  proof -
    have "(\<not> responded (\<lambda>code. 500 \<le> code) c \<and> \<not> timed_out c \<and> \<not> net_failed c) \<longleftrightarrow> responded (\<lambda>code. code < 500) c" for c
      by (cases c) (auto simp: outcome_defs)
    then show ?thesis
      using filter_length_0 [of "responded (\<lambda>code. 500 \<le> code)" outcomes] filter_length_0 [of timed_out outcomes]
        filter_length_0 [of net_failed outcomes]
      by (simp add: cnt list_all_iff) blast
  qed
  have imp: "list_all (responded (\<lambda>code. code = 200)) outcomes \<Longrightarrow> list_all (responded (\<lambda>code. code < 500)) outcomes"
    by (auto simp: list_all_iff responded_def split: client_outcome.splits)
  have "length (filter (responded (\<lambda>code. code = 200)) outcomes) \<le> length (filter sent outcomes)"
    by (induction outcomes) (auto simp: outcome_defs split: client_outcome.splits)
  then have sub: "0 \<le> successCount m" "successCount m \<le> requestsSent m" by (simp_all add: cnt)
  have "0 \<le> successRate r \<and> successRate r \<le> 100"
  proof (cases "0 < requestsSent m")
    case True
    let ?s = "fl (of_int (successCount m))" and ?t = "fl (of_int (requestsSent m))"
    have st: "0 \<le> ?s" "?s \<le> ?t" using fl_mono [of 0 "of_int (successCount m)"] fl_mono [of "of_int (successCount m)" "of_int (requestsSent m)"] sub
      by (simp_all add: fl_def [of 0])
    then have q: "0 \<le> ?s / ?t" "?s / ?t \<le> 1" using order_trans [OF st] by (auto simp: divide_le_eq_1)
    have one: "fl 0 = 0" "fl 1 = 1" "fl 100 = 100" using fl_of_int [of 1] fl_of_int [of 100] by (simp_all add: fl_def [of 0])
    have "0 \<le> fl (?s / ?t)" "fl (?s / ?t) \<le> 1" using fl_mono [OF q(1)] fl_mono [OF q(2)] one by simp_all
    then have "0 \<le> fl (?s / ?t) * 100" "fl (?s / ?t) * 100 \<le> 100" by simp_all
    then show ?thesis using r(2) True fl_mono [of 0 "fl (?s / ?t) * 100"] fl_mono [of "fl (?s / ?t) * 100" 100] one by simp
  qed (simp add: r(2))
  then show ?thesis
    unfolding Let_def m_def [symmetric] n_def [symmetric] r_def [symmetric] using r(1) ok exit bad imp by auto
qed

theorem report_conclusion_witness:
  "conclusion (printReport (run_clients [AddSent, CountStatus 400, AppendLatency 7, AddClientError]) 1000 1 50) = NoVerdict
    \<and> sim_main 1 50 (run_clients [AddSent, CountStatus 400, AppendLatency 7, AddClientError]) = Exit 1"
proof -
  have il: "interleaving (map runClient [Responded 400 7]) [AddSent, CountStatus 400, AppendLatency 7, AddClientError]"
    by (simp add: runClient_def recordStatus_def,
        rule turn [of 0], simp, simp, rule turn [of 0], simp, simp, rule turn [of 0], simp, simp, rule turn [of 0], simp, simp,
        rule finished, simp)
  have exit: "sim_main 1 50 (run_clients [AddSent, CountStatus 400, AppendLatency 7, AddClientError]) = Exit 1"
    by (simp add: sim_main_def run_clients_def newMetrics_def)
  show ?thesis
    using report_conclusion [OF il, of 50 1000] exit by (simp add: responded_def Let_def)
qed

text \<open>
  C35: the percentiles.  For up to \<open>2\<^sup>4\<^sup>0\<close> samples the indices computed in \<^verbatim>\<open>float64\<close> are exact: the
  report takes the elements of rank \<open>\<lfloor>p (n - 1)\<rfloor>\<close> of the sorted latencies, which are in range and
  in increasing order.
\<close>

theorem percentiles_exact:
  assumes "lats \<noteq> []" "length lats \<le> 2 ^ 40"
  shows "case percentiles lats of (q50, q95, q99) \<Rightarrow>
     q50 = sort lats ! ((length lats - 1) div 2)
     \<and> q95 = sort lats ! (95 * (length lats - 1) div 100)
     \<and> q99 = sort lats ! (99 * (length lats - 1) div 100)
     \<and> q50 \<le> q95 \<and> q95 \<le> q99 \<and> {q50, q95, q99} \<subseteq> set lats"
proof -
  let ?n = "length lats" and ?s = "sort lats"
  have n: "0 < ?n" using assms(1) by simp
  have half: "50 * (?n - 1) div 100 = (?n - 1) div 2" by linarith
  have idx: "(?n - 1) div 2 \<le> 95 * (?n - 1) div 100" "95 * (?n - 1) div 100 \<le> 99 * (?n - 1) div 100"
    "99 * (?n - 1) div 100 < ?n" using n by linarith+
  have "?s ! i \<le> ?s ! j" if "i \<le> j" "j < ?n" for i j using sorted_nth_mono [of ?s i j] that by simp
  moreover have "?s ! i \<in> set lats" if "i < ?n" for i using nth_mem [of i ?s] that by simp
  ultimately show ?thesis
    using idx percentile_indices [OF n assms(2)] assms(1) half by (simp add: percentiles_def Let_def)
qed

theorem percentiles_exact_witness: "percentiles [30, 10, 20] = (20, 20, 20)"
proof -
  obtain q50 q95 q99 where q: "percentiles [30, 10, 20] = (q50, q95, q99)" by (metis surj_pair)
  have "length [30, 10, 20 :: int] \<le> 2 ^ 40" by simp
  from percentiles_exact [OF _ this, unfolded q prod.case] have "q50 = sort [30, 10, 20] ! ((length [30, 10, 20 :: int] - 1) div 2)"
    "q95 = sort [30, 10, 20] ! (95 * (length [30, 10, 20 :: int] - 1) div 100)"
    "q99 = sort [30, 10, 20] ! (99 * (length [30, 10, 20 :: int] - 1) div 100)" by (simp_all only: list.distinct not_False_eq_True simp_thms)
  then show ?thesis using q by simp
qed

section \<open>Floating-point numbers on the wire\<close>

text \<open>
  What the server decodes of an item: both ends use \<^verbatim>\<open>encoding/json\<close> on the same field names,
  and its numbers are exact, as \<open>Clients\<close> shows for the bytes.
\<close>

definition wire_payload :: "riderUpdatePayload \<Rightarrow> RiderUpdate" where
  "wire_payload p = \<lparr>OrderID = pl_OrderID p, Latitude = float_bits (pl_Latitude p), Longitude = float_bits (pl_Longitude p),
     CurrentStatus = pl_CurrentStatus p, ETAMinutes = word_of_int (pl_ETAMinutes p)\<rparr>"

definition wire_item :: "batchRequestItem \<Rightarrow> BatchRequestItem" where
  "wire_item it = \<lparr>req_SeqID = it_SeqID it, req_OperationType = it_OperationType it, req_RiderID = it_RiderID it,
     req_Payload = map_option wire_payload (it_Payload it)\<rparr>"

lemma float_mag_limits: "float_mag 90 = 0x4056800000000000" "float_mag 180 = 0x4066800000000000"
proof -
  have "ilog2 90 = 6" "ilog2 180 = 7" by (rule ilog2_unique; simp)+
  then have e: "float_exp 90 = 6" "float_exp 180 = 7" by (simp_all add: float_exp_def)
  have "(2::rat) powi (- 46) = 1 / 2 ^ 46" "(2::rat) powi (- 45) = 1 / 2 ^ 45" by (simp_all add: power_int_minus)
  then show "float_mag 90 = 0x4056800000000000" "float_mag 180 = 0x4066800000000000"
    unfolding float_mag_def e by simp_all
qed

lemma float_ord_bits:
  assumes "float_mag \<bar>x\<bar> < 2 ^ 63"
  shows "\<bar>float_ord (float_bits x)\<bar> = int (float_mag \<bar>x\<bar>)"
proof -
  have "unat (take_bit 63 b) = unat b mod 2 ^ 63" for b :: float64
    by (simp only: unsigned_take_bit_eq) (simp only: take_bit_eq_mod)
  moreover have "unat (float_bits x) mod 2 ^ 63 = float_mag \<bar>x\<bar>"
    using assms by (auto simp: float_bits_def unat_word_ariths unat_of_nat_64 mod_mod_cancel)
  ultimately show ?thesis by (simp add: float_ord_def Let_def)
qed

lemma coordinates_ok:
  "\<bar>x\<bar> \<le> 90 \<Longrightarrow> lat_ok (float_bits x)" "\<bar>x\<bar> \<le> 180 \<Longrightarrow> lng_ok (float_bits x)"
proof -
  have lim: "float_ord 0x4056800000000000 = 0x4056800000000000" "float_ord 0x4066800000000000 = 0x4066800000000000"
    by (simp_all add: float_ord_def Let_def)
  show "\<bar>x\<bar> \<le> 90 \<Longrightarrow> lat_ok (float_bits x)"
    using float_mag_mono [of "\<bar>x\<bar>" 90] float_ord_bits [of x] float_mag_limits lim by (simp add: lat_ok_def)
  show "\<bar>x\<bar> \<le> 180 \<Longrightarrow> lng_ok (float_bits x)"
    using float_mag_mono [of "\<bar>x\<bar>" 180] float_ord_bits [of x] float_mag_limits lim by (simp add: lng_ok_def)
qed

lemma mul_add_range:
  assumes "0 \<le> f" "f < 1" "0 < w" "2 * w < 2 ^ 53"
  shows "\<bar>mul_add fma f (of_int (2 * w)) (- of_int w)\<bar> \<le> of_int w"
proof -
  let ?w = "of_int w :: rat"
  have "\<bar>w\<bar> < 2 ^ 53" "\<bar>2 * w\<bar> < 2 ^ 53" using assms(3,4) by simp_all
  then have w: "fl ?w = ?w" "fl (of_int (2 * w)) = of_int (2 * w)" by (blast intro: fl_of_int)+
  have prod: "0 \<le> f * of_int (2 * w)" "f * of_int (2 * w) \<le> of_int (2 * w)"
    using assms by (simp_all add: mult_left_le_one_le)
  have fl_prod: "0 \<le> fl (f * of_int (2 * w))" "fl (f * of_int (2 * w)) \<le> of_int (2 * w)"
    using fl_mono [OF prod(1)] fl_mono [OF prod(2)] w(2) by (simp_all add: fl_def [of 0])
  have shift: "\<bar>fl (- ?w + z)\<bar> \<le> ?w" if "0 \<le> z" "z \<le> of_int (2 * w)" for z
    using fl_mono [of "- ?w" "- ?w + z"] fl_mono [of "- ?w + z" ?w] that w(1) by (simp add: fl_neg abs_le_iff)
  show ?thesis unfolding mul_add_def using shift [OF prod] shift [OF fl_prod] by simp
qed

section \<open>What the server makes of a generated batch\<close>

text \<open>What the workload relies on: the documented ranges of the random generator.\<close>

definition rng_ok :: "rng \<Rightarrow> bool" where
  "rng_ok rng \<longleftrightarrow> (\<forall>k. 0 \<le> Float64 rng k \<and> Float64 rng k < 1)
     \<and> (\<forall>k n. 0 < n \<longrightarrow> 0 \<le> Intn rng k n \<and> Intn rng k n < n)"

text \<open>PostgreSQL reads the two patterns of the generator as UUIDs, and prints the first in the same spelling.\<close>

definition reads_simulated :: "(string \<Rightarrow> 'u option) \<Rightarrow> bool" where
  "reads_simulated uuid_in \<longleftrightarrow> (\<forall>ds. length ds = 12 \<longrightarrow> list_all is_digit ds \<longrightarrow>
     uuid_in (''00000000-0000-0000-0000-'' @ ds) \<noteq> None \<and> uuid_in (''11111111-1111-1111-1111-'' @ ds) \<noteq> None)"

definition prints_simulated :: "(string \<Rightarrow> 'u option) \<Rightarrow> ('u \<Rightarrow> string) \<Rightarrow> bool" where
  "prints_simulated uuid_in uuid_out \<longleftrightarrow> (\<forall>ds. length ds = 12 \<longrightarrow> list_all is_digit ds \<longrightarrow>
     ''00000000-0000-0000-0000-'' @ ds \<in> canonical_keys uuid_in uuid_out)"

definition sim_op :: "batchRequestItem \<Rightarrow> go_value Operation" where
  "sim_op it = zeroOperation\<lparr>SeqID := it_SeqID it, Key := it_RiderID it, Type := OpWrite,
     Value := Some (GoRiderUpdate (wire_payload (the (it_Payload it))))\<rparr>"

lemma wrap64_id: "0 \<le> j \<Longrightarrow> j < 2 ^ 63 \<Longrightarrow> wrap64 j = j"
  by (simp add: wrap64_def)

lemma sim_id:
  assumes "0 \<le> j" "j < 10 ^ 12"
  shows "length (show_012d (wrap64 j)) = 12" "list_all is_digit (show_012d (wrap64 j))"
proof -
  have "wrap64 j = j" using assms by (intro wrap64_id) simp_all
  moreover have "nat j < 10 ^ Suc 11" using assms by (simp add: nat_less_iff)
  ultimately show "length (show_012d (wrap64 j)) = 12" "list_all is_digit (show_012d (wrap64 j))"
    using assms(1) show_padded_length [of "nat j" 11] show_padded_digits [of 12 "nat j"] by (simp_all add: show_012d_def)
qed

lemma show_012d_inject: "0 \<le> i \<Longrightarrow> 0 \<le> j \<Longrightarrow> show_012d i = show_012d j \<longleftrightarrow> i = j"
  by (simp add: show_012d_def show_padded_inject eq_nat_nat_iff)

lemma rider_id_eq:
  assumes "0 \<le> c * 1000 + int i" "c * 1000 + int i < 2 ^ 63" "0 \<le> c' * 1000 + int i'" "c' * 1000 + int i' < 2 ^ 63"
  shows "it_RiderID (build_item fma rng c i) = it_RiderID (build_item fma' rng' c' i') \<longleftrightarrow> c * 1000 + int i = c' * 1000 + int i'"
  using assms by (simp add: build_item_def Let_def wrap64_id show_012d_inject)

lemma sim_key:
  assumes "0 \<le> c * 1000 + int i" "c * 1000 + int i < 10 ^ 12"
  obtains ds where "length ds = 12" "list_all is_digit ds" "it_RiderID (build_item fma rng c i) = ''00000000-0000-0000-0000-'' @ ds"
  using that [of "show_012d (wrap64 (c * 1000 + int i))"] sim_id [OF assms] by (simp add: build_item_def Let_def)

lemma translate_sim_item: "translate_item (wire_item (build_item fma rng c i)) = Inr (sim_op (build_item fma rng c i))"
proof -
  have "parseOperationType ''WRITE'' = Inr OpWrite"
    by (simp add: parseOperationType_def runes_def TrimSpace_def IsSpace_def ToUpper_def ascii_def)
  then show ?thesis by (simp add: translate_item_def wire_item_def build_item_def sim_op_def Let_def)
qed

lemma translate_sim_batch:
  assumes n: "n < 2 ^ 63"
  shows "translateRequest (map wire_item (map (build_item fma rng c) [0..<n])) = Inr (map (\<lambda>i. sim_op (build_item fma rng c i)) [0..<n])"
    (is "translateRequest ?items = Inr ?ops")
proof -
  have idx: "req_index (wire_item (build_item fma rng c i)) = i" if "i < n" for i
    using that n by (simp add: wire_item_def build_item_def Let_def unat_of_nat_64)
  then have "map req_index ?items = [0..<n]" by (intro nth_equalityI) simp_all
  then have "translates ?items ?ops"
    unfolding translates_def using idx translate_sim_item by simp
  then show ?thesis using translateRequest_Inr [of ?items ?ops] n by simp
qed

lemma sim_payload:
  assumes rng: "rng_ok rng" and u_def: "u = wire_payload (the (it_Payload (build_item fma rng c i)))"
  shows "accepted (Some (GoRiderUpdate u)) u" "lat_ok (Latitude u)" "lng_ok (Longitude u)"
    "CurrentStatus u \<in> set riderStatuses" "0 \<le> sint (ETAMinutes u)" "int32_ok (ETAMinutes u)"
proof -
  have f: "0 \<le> Float64 rng k" "Float64 rng k < 1" for k using rng by (simp_all add: rng_ok_def)
  have n: "0 \<le> Intn rng k n \<and> Intn rng k n < n" if "0 < n" for k n using rng that by (simp add: rng_ok_def)
  show "lat_ok (Latitude u)"
    unfolding u_def using mul_add_range [OF f(1) [of "2 * i"] f(2), of 90 fma] by (simp add: wire_payload_def build_item_def Let_def coordinates_ok)
  show "lng_ok (Longitude u)"
    unfolding u_def using mul_add_range [OF f(1) [of "2 * i + 1"] f(2), of 180 fma] by (simp add: wire_payload_def build_item_def Let_def coordinates_ok)
  have "nat (Intn rng (2 * i) (int (length riderStatuses))) < length riderStatuses"
    using n [of "int (length riderStatuses)" "2 * i"] by (simp add: riderStatuses_def nat_less_iff)
  then show st: "CurrentStatus u \<in> set riderStatuses"
    unfolding u_def by (simp add: wire_payload_def build_item_def Let_def)
  have eta: "sint (word_of_int j :: int64) = j" if "0 \<le> j" "j < 60" for j
    using that sint_of_nat_64 [of "nat j"] by (simp add: of_nat_nat)
  then show "0 \<le> sint (ETAMinutes u)" "int32_ok (ETAMinutes u)"
    unfolding u_def using n [of 60 "2 * i + 1"] by (simp_all add: wire_payload_def build_item_def Let_def int32_ok_def)
  then show "accepted (Some (GoRiderUpdate u)) u"
    using st by (simp add: accepted_def riderStatuses_def validRiderStatuses_def)
qed

lemma sim_write_succeeds:
  assumes "rng_ok rng" "reads_simulated uuid_in" "0 \<le> c * 1000 + int i" "c * 1000 + int i < 10 ^ 12"
    and p_def: "p = sim_op (build_item fma rng c i)"
  shows "snd (pg_Set (rider_stmts uuid_in uuid_out) None (Key p) (Value p) d) = None"
proof -
  note pl = sim_payload [OF assms(1) refl, of fma c i]
  have id: "Key p = ''00000000-0000-0000-0000-'' @ show_012d (wrap64 (c * 1000 + int i))"
    by (simp add: p_def sim_op_def build_item_def Let_def)
  have ord: "OrderID (wire_payload (the (it_Payload (build_item fma rng c i)))) = ''11111111-1111-1111-1111-'' @ show_012d (wrap64 (c * 1000 + int i))"
    by (simp add: wire_payload_def build_item_def Let_def)
  have "uuid_in (Key p) \<noteq> None" "uuid_in (OrderID (wire_payload (the (it_Payload (build_item fma rng c i))))) \<noteq> None"
    unfolding id ord using assms(2) sim_id [OF assms(3,4)] unfolding reads_simulated_def by blast+
  then obtain u o_id where uu: "uuid_in (Key p) = Some u" "uuid_in (OrderID (wire_payload (the (it_Payload (build_item fma rng c i))))) = Some o_id"
    by blast
  have v: "Value p = Some (GoRiderUpdate (wire_payload (the (it_Payload (build_item fma rng c i)))))" by (simp add: p_def sim_op_def)
  show ?thesis
    unfolding v pg_Set_accepted [OF pl(1)] using uu pl(2-6)
    by (simp add: setQuery_def row_check_def riderStatuses_def Let_def)
qed

text \<open>
  The server accepts the simulator's batches.  Whatever the generator draws, as long as the
  ids fit into their twelve digits, the request of a client is translated, its riders are
  distinct, every operation is a write, and PostgreSQL executes each of them without error:
  coordinates, status and ETA satisfy the validation and the constraints of the table.
\<close>

theorem simulator_batch_accepted:
  assumes "rng_ok rng" "reads_simulated uuid_in" "0 \<le> clientID" "0 \<le> batchSize" "clientID * 1000 + batchSize \<le> 10 ^ 12"
  shows "\<exists>items ops. buildBatch fma rng batchSize clientID = Some items
    \<and> translateRequest (map wire_item items) = Inr ops
    \<and> length ops = nat batchSize \<and> distinct (map Key ops)
    \<and> (\<forall>p \<in> set ops. Type p = OpWrite \<and> (\<forall>d. snd (pg_Set (rider_stmts uuid_in uuid_out) None (Key p) (Value p) d) = None))"
proof -
  let ?items = "map (build_item fma rng clientID) [0..<nat batchSize]"
  let ?ops = "map (\<lambda>i. sim_op (build_item fma rng clientID i)) [0..<nat batchSize]"
  have range: "0 \<le> clientID * 1000 + int i" "clientID * 1000 + int i < 10 ^ 12" if "i < nat batchSize" for i
    using assms(3-5) that by linarith+
  have "nat batchSize < 2 ^ 63" using assms(3,5) by (simp add: nat_less_iff)
  then have tr: "translateRequest (map wire_item ?items) = Inr ?ops" by (rule translate_sim_batch)
  have "it_RiderID (build_item fma rng clientID i) \<noteq> it_RiderID (build_item fma rng clientID j)"
    if "i < nat batchSize" "j < nat batchSize" "i \<noteq> j" for i j
    using range [OF that(1)] range [OF that(2)] that(3) by (subst rider_id_eq) simp_all
  then have "distinct (map Key ?ops)" by (fastforce simp: distinct_map inj_on_def sim_op_def)
  moreover have "\<forall>p \<in> set ?ops. Type p = OpWrite \<and> (\<forall>d. snd (pg_Set (rider_stmts uuid_in uuid_out) None (Key p) (Value p) d) = None)"
    using sim_write_succeeds [OF assms(1,2) range refl] by (auto simp: sim_op_def)
  ultimately show ?thesis
    using tr assms(4) by (intro exI [of _ ?items] exI [of _ ?ops]) (simp add: buildBatch_def)
qed

definition example_rng :: rng where
  "example_rng = \<lparr>Float64 = (\<lambda>_. 1 / 2), Intn = (\<lambda>_ n. n - 1)\<rparr>"

definition example_table :: "string rider_db" where
  "example_table = \<lparr>rows = Map.empty, now_at = (\<lambda>_. 0), stmts = 0\<rparr>"

theorem simulator_batch_accepted_witness:
  "\<exists>items ops. buildBatch False example_rng 3 7 = Some items \<and> translateRequest (map wire_item items) = Inr ops \<and> length ops = 3"
proof -
  have "rng_ok example_rng" by (simp add: rng_ok_def example_rng_def)
  moreover have "reads_simulated (Some :: string \<Rightarrow> string option)" by (simp add: reads_simulated_def)
  ultimately show ?thesis using simulator_batch_accepted [of example_rng Some 7 3 False id] by auto
qed

text \<open>
  Which clients write to the same riders.  The riders of two clients overlap exactly when the
  batch is longer than one thousand items per client between them; so up to a batch size of 1000
  all clients work on different riders, and beyond it neighbours collide.
\<close>

theorem clients_share_riders:
  assumes "0 \<le> c" "c < c'" "c' * 1000 + int n < 2 ^ 63"
  shows "(\<exists>i < n. \<exists>j < n. it_RiderID (build_item fma rng c i) = it_RiderID (build_item fma' rng' c' j))
    \<longleftrightarrow> (c' - c) * 1000 < int n"
proof -
  have "it_RiderID (build_item fma rng c i) = it_RiderID (build_item fma' rng' c' j) \<longleftrightarrow> c * 1000 + int i = c' * 1000 + int j"
    if "i < n" "j < n" for i j
    using assms that by (intro rider_id_eq) linarith+
  then have "(\<exists>i < n. \<exists>j < n. it_RiderID (build_item fma rng c i) = it_RiderID (build_item fma' rng' c' j))
    \<longleftrightarrow> (\<exists>i < n. \<exists>j < n. c * 1000 + int i = c' * 1000 + int j)" by blast
  also have "\<dots> \<longleftrightarrow> (c' - c) * 1000 < int n"
  proof
    assume less: "(c' - c) * 1000 < int n"
    have "c * 1000 + int (nat ((c' - c) * 1000)) = c' * 1000 + int 0" using assms(2) by simp
    moreover have "nat ((c' - c) * 1000) < n" "0 < n" using less assms(2) by (simp_all add: nat_less_iff)
    ultimately show "\<exists>i < n. \<exists>j < n. c * 1000 + int i = c' * 1000 + int j" by blast
  next
    assume "\<exists>i < n. \<exists>j < n. c * 1000 + int i = c' * 1000 + int j"
    then obtain i j where "i < n" "j < n" "c * 1000 + int i = c' * 1000 + int j" by blast
    then show "(c' - c) * 1000 < int n" by (simp add: left_diff_distrib)
  qed
  finally show ?thesis .
qed

theorem clients_share_riders_witness:
  "\<exists>i < 1001. \<exists>j < 1001. it_RiderID (build_item False example_rng 0 i) = it_RiderID (build_item False example_rng 1 j)"
  using clients_share_riders [of 0 1 1001 False example_rng False example_rng] by simp

end
