(* ===== verification/Clients.thy ===== *)
theory Clients
  imports Wire Simulator
begin

text \<open>
  The bodies that the load simulator of \<^verbatim>\<open>src/cmd/simulator/main.go\<close> sends: \<^verbatim>\<open>json.Marshal\<close> of its batch,
  what the gateway decodes of it, and how long it is.
\<close>

section \<open>The request body\<close>

definition payload_json :: "riderUpdatePayload \<Rightarrow> json" where
  "payload_json p = JObj
     [(''order_id'', JStr (pl_OrderID p)), (''latitude'', JNum (FormatFloat (float_bits (pl_Latitude p)))),
      (''longitude'', JNum (FormatFloat (float_bits (pl_Longitude p)))), (''current_status'', JStr (pl_CurrentStatus p)),
      (''eta_minutes'', JNum (show_int (pl_ETAMinutes p)))]"

definition sim_item_json :: "batchRequestItem \<Rightarrow> json" where
  "sim_item_json it = JObj
     ([(''seq_id'', JNum (show_nat (unat (it_SeqID it)))), (''operation_type'', JStr (it_OperationType it)),
       (''rider_id'', JStr (it_RiderID it))]
      @ (case it_Payload it of None \<Rightarrow> [] | Some p \<Rightarrow> [(''payload'', payload_json p)]))"

definition sim_body :: "batchRequestItem list \<Rightarrow> string" where
  "sim_body batch = Marshal (JArr (map sim_item_json batch))"

section \<open>What the gateway decodes\<close>

lemma digits_ascii: "list_all is_digit s \<Longrightarrow> list_all (\<lambda>c. of_char c < (128 :: nat)) s"
  by (auto simp: list_all_iff is_digit_def)

lemma show_012d_ascii: "list_all (\<lambda>c. of_char c < (128 :: nat)) (show_012d i)"
  using digits_ascii [OF show_padded_digits] by (simp add: show_012d_def)

lemma float_bits_finite: "\<bar>x\<bar> \<le> 180 \<Longrightarrow> finite_float (float_bits x)"
proof -
  assume "\<bar>x\<bar> \<le> 180"
  then have "float_mag \<bar>x\<bar> \<le> 0x4066800000000000" using float_mag_mono [of "\<bar>x\<bar>" 180] float_mag_limits by simp
  moreover from this have "bits_mag (float_bits x) = float_mag \<bar>x\<bar>"
    by (auto simp: bits_mag_def float_bits_def unat_word_ariths unat_of_nat_64 mod_mod_cancel)
  ultimately show ?thesis by (simp add: finite_float_def inf_mag_def)
qed

lemma sim_item_parts:
  assumes "rng_ok rng" and it_def: "it = build_item fma rng c i"
  obtains p where "it_Payload it = Some p" "\<bar>pl_Latitude p\<bar> \<le> 90" "\<bar>pl_Longitude p\<bar> \<le> 180" "pl_CurrentStatus p \<in> set riderStatuses"
    "0 \<le> pl_ETAMinutes p" "pl_ETAMinutes p < 60" "pl_OrderID p = ''11111111-1111-1111-1111-'' @ show_012d (wrap64 (c * 1000 + int i))"
proof -
  have f: "0 \<le> Float64 rng k" "Float64 rng k < 1" for k using assms(1) by (simp_all add: rng_ok_def)
  have n: "0 \<le> Intn rng k n \<and> Intn rng k n < n" if "0 < n" for k n using assms(1) that by (simp add: rng_ok_def)
  have "nat (Intn rng (2 * i) (int (length riderStatuses))) < length riderStatuses"
    using n [of "int (length riderStatuses)" "2 * i"] by (simp add: riderStatuses_def nat_less_iff)
  then show ?thesis
    using that mul_add_range [OF f(1) [of "2 * i"] f(2), of 90 fma] mul_add_range [OF f(1) [of "2 * i + 1"] f(2), of 180 fma] n [of 60 "2 * i + 1"]
    by (simp add: it_def build_item_def Let_def)
qed

lemma status_valid: "s \<in> set riderStatuses \<Longrightarrow> utf8_valid s"
  by (auto simp: riderStatuses_def ascii_valid)

lemma sint_small: "0 \<le> j \<Longrightarrow> j < 60 \<Longrightarrow> sint (word_of_int j :: int64) = j"
  using sint_of_nat_64 [of "nat j"] by (simp add: of_nat_nat)

lemma payload_wire:
  assumes "0 \<le> pl_ETAMinutes p" "pl_ETAMinutes p < 60"
  shows "payload_json p = JObj (update_json FormatFloat (wire_payload p))"
  using sint_small [OF assms] by (simp add: payload_json_def update_json_def wire_payload_def)

lemma sim_item_wire:
  assumes "rng_ok rng" and it_def: "it = build_item fma rng c i"
  shows "sim_item_json it = item_json FormatFloat (wire_item it)" "item_ok (wire_item it)"
proof -
  obtain p where p: "it_Payload it = Some p" "\<bar>pl_Latitude p\<bar> \<le> 90" "\<bar>pl_Longitude p\<bar> \<le> 180" "pl_CurrentStatus p \<in> set riderStatuses"
    "0 \<le> pl_ETAMinutes p" "pl_ETAMinutes p < 60" "pl_OrderID p = ''11111111-1111-1111-1111-'' @ show_012d (wrap64 (c * 1000 + int i))"
    by (rule sim_item_parts [OF assms])
  show "sim_item_json it = item_json FormatFloat (wire_item it)"
    using p(1) payload_wire [OF p(5,6)] by (simp add: sim_item_json_def item_json_def wire_item_def)
  have "utf8_valid (it_OperationType it)" "utf8_valid (it_RiderID it)" "utf8_valid (pl_OrderID p)"
    using show_012d_ascii unfolding p(7) by (simp_all add: it_def build_item_def Let_def ascii_valid)
  then show "item_ok (wire_item it)"
    using p(1-4) status_valid float_bits_finite by (simp add: item_ok_def wire_item_def update_ok_def wire_payload_def finite_update_def)
qed

lemma sim_body_request:
  assumes "rng_ok rng" "buildBatch fma rng batchSize clientID = Some items"
  shows "sim_body items = utf8_encode (write_json write_string (JArr (map (item_json FormatFloat) (map wire_item items))))"
    and "list_all item_ok (map wire_item items)"
proof -
  have items: "items = map (build_item fma rng clientID) [0..<nat batchSize]" using assms(2) by (simp add: buildBatch_def split: if_splits)
  note w = sim_item_wire [OF assms(1) refl, of fma clientID]
  show "sim_body items = utf8_encode (write_json write_string (JArr (map (item_json FormatFloat) (map wire_item items))))"
    unfolding sim_body_def Marshal_def items by (simp add: w(1) comp_def)
  show "list_all item_ok (map wire_item items)" using w(2) by (simp add: items list_all_iff)
qed

lemmas go_encoding = go_string.string_writer_axioms go_float.float_text_axioms

lemma sim_body_decoded:
  assumes "rng_ok rng" "buildBatch fma rng batchSize clientID = Some items" "int (length (sim_body items)) \<le> limit"
  shows "Decode (MaxBytesReader limit (sim_body items @ trailing)) = Inr (map wire_item items)"
  by (rule Decode_written [OF go_encoding sim_body_request(2,1) [OF assms(1,2)] assms(3)])

lemma sim_keys_canonical:
  assumes "0 \<le> c * 1000 + int i" "c * 1000 + int i < 10 ^ 12" "prints_simulated uuid_in uuid_out"
  shows "req_RiderID (wire_item (build_item fma rng c i)) \<in> canonical_keys uuid_in uuid_out"
proof -
  obtain ds where "length ds = 12" "list_all is_digit ds" "it_RiderID (build_item fma rng c i) = ''00000000-0000-0000-0000-'' @ ds"
    using assms(1,2) by (rule sim_key)
  then show ?thesis using assms(3) unfolding prints_simulated_def by (simp add: wire_item_def)
qed

text \<open>
  The simulator and the gateway agree on the bytes.  The body that a client marshals is decoded by the gateway, as
  long as it fits into the limit, to exactly the items that were generated, every coordinate bit for bit, and
  the gateway starts to run the batch.  Bytes that follow the array are not looked at.
\<close>

theorem simulator_request_decoded:
  assumes "rng_ok rng" "0 < batchSize" "batchSize \<le> 2 ^ 63" "buildBatch fma rng batchSize clientID = Some items"
    and "int (length (sim_body items)) \<le> MaxBodyBytes cfg"
  shows "Decode (MaxBytesReader (MaxBodyBytes cfg) (sim_body items @ trailing)) = Inr (map wire_item items)
    \<and> (\<exists>s. serve_batch numCPU cfg st c (sim_body items) = Inr s)"
proof
  have items: "items = map (build_item fma rng clientID) [0..<nat batchSize]" using assms(2,4) by (simp add: buildBatch_def)
  have "nat batchSize \<le> 2 ^ 63" using assms(3) by (simp add: nat_le_iff)
  then have n: "length (map wire_item items) \<le> 2 ^ 63" "map wire_item items \<noteq> []" using assms(2) by (simp_all add: items)
  have tr: "translates (map wire_item items) (map (\<lambda>i. sim_op (build_item fma rng clientID i)) [0..<nat batchSize])"
    using n translate_sim_item
    by (intro translates_in_order) (simp_all add: items, simp add: wire_item_def build_item_def Let_def)
  show "\<exists>s. serve_batch numCPU cfg st c (sim_body items) = Inr s"
    by (rule written_request_starts [OF go_encoding sim_body_request(2) [OF assms(1,4)] tr n(2,1) sim_body_request(1) [OF assms(1,4)] assms(5)])
qed (rule sim_body_decoded [OF assms(1,4,5)])

theorem simulator_request_decoded_witness:
  "\<exists>items. buildBatch False example_rng 3 7 = Some items
    \<and> Decode (MaxBytesReader (int (length (sim_body items))) (sim_body items)) = Inr (map wire_item items)"
proof -
  have "rng_ok example_rng" by (simp add: rng_ok_def example_rng_def)
  moreover obtain items where b: "buildBatch False example_rng 3 7 = Some items" by (simp add: buildBatch_def)
  ultimately have "Decode (MaxBytesReader (MaxBodyBytes (example_config\<lparr>MaxBodyBytes := int (length (sim_body items))\<rparr>)) (sim_body items @ []))
      = Inr (map wire_item items)"
    by (intro simulator_request_decoded [THEN conjunct1, of example_rng 3 False 7]) simp_all
  then show ?thesis using b by simp
qed

section \<open>The length of a body\<close>

text \<open>ASCII text that is written as it is.\<close>

definition plain :: "char \<Rightarrow> bool" where
  "plain c \<longleftrightarrow> 32 \<le> (of_char c :: nat) \<and> (of_char c :: nat) < 128 \<and> (of_char c :: nat) \<notin> {34, 92, 60, 62, 38}"

definition ascii_text :: "nat list \<Rightarrow> bool" where
  "ascii_text rs \<longleftrightarrow> list_all (\<lambda>r. r < 128) rs"

lemma ascii_text_simps [simp]:
  "ascii_text []" "ascii_text (r # rs) \<longleftrightarrow> r < 128 \<and> ascii_text rs" "ascii_text (rs @ ts) \<longleftrightarrow> ascii_text rs \<and> ascii_text ts"
  by (simp_all add: ascii_text_def)

lemma length_encode_ascii: "ascii_text rs \<Longrightarrow> length (utf8_encode rs) = length rs"
proof -
  have "ascii_text rs \<Longrightarrow> concat (map encode_rune rs) = rs" by (induction rs) (simp_all add: encode_rune_def)
  then show "ascii_text rs \<Longrightarrow> length (utf8_encode rs) = length rs" by (simp add: utf8_encode_def)
qed

lemma ascii_text_runes: "list_all (\<lambda>c. of_char c < (128 :: nat)) s \<Longrightarrow> ascii_text (ascii_runes s)"
  by (simp add: ascii_text_def ascii_runes_def list_all_iff)

lemma length_ascii_runes [simp]: "length (ascii_runes s) = length s"
  by (simp add: ascii_runes_def)

lemma write_plain:
  assumes "list_all plain s"
  shows "write_string s = 34 # ascii_runes s @ [34]"
proof -
  have "list_all (\<lambda>b. b < 128) bs \<Longrightarrow> utf8_units bs = map Some bs" for bs by (induction bs) simp_all
  then have "utf8_units (bytes s) = map Some (bytes s)" using assms by (auto simp: bytes_def list_all_iff plain_def)
  moreover have "concat (map (escape_unit \<circ> Some \<circ> of_char) s) = map of_char s"
    using assms by (induction s) (simp_all add: plain_def escape_unit_def)
  ultimately show ?thesis by (simp add: write_string_def bytes_def ascii_runes_def comp_def)
qed

lemma write_plain_text: "list_all plain s \<Longrightarrow> ascii_text (write_string s)" "list_all plain s \<Longrightarrow> length (write_string s) = length s + 2"
  by (auto simp: write_plain plain_def list_all_iff intro!: ascii_text_runes)

lemma plain_digits: "list_all is_digit s \<Longrightarrow> list_all plain s"
  by (auto simp: list_all_iff is_digit_def plain_def)

lemma literal_ascii: "literal_ok ip fp ex \<Longrightarrow> list_all (\<lambda>c. of_char c < (128 :: nat)) (literal ip fp ex)"
  using digits_ascii by (auto simp: literal_ok_def literal_def)

lemma FormatFloat_ascii:
  assumes "finite_float b"
  shows "ascii_text (ascii_runes (FormatFloat b))"
proof -
  have "bits_mag b < inf_mag" using assms by (simp add: finite_float_def)
  then obtain ip fp ex where "mag_text (bits_mag b) = literal ip fp ex" "literal_ok ip fp ex" by (rule mag_text_back)
  then show ?thesis using literal_ascii by (intro ascii_text_runes) (simp add: FormatFloat_def)
qed

lemma show_nat_ascii: "ascii_text (ascii_runes (show_nat n))"
  using show_nat_digits [of n] by (intro ascii_text_runes digits_ascii) simp

lemma separated_length: "\<forall>x \<in> set xs. length x \<le> k \<Longrightarrow> length (separated xs) \<le> length xs * Suc k"
  by (induction xs rule: separated.induct) auto

lemma separated_ascii: "\<forall>x \<in> set xs. ascii_text x \<Longrightarrow> ascii_text (separated xs)"
  by (induction xs rule: separated.induct) auto

lemma status_plain: "s \<in> set riderStatuses \<Longrightarrow> list_all plain s \<and> length s \<le> 9"
  by (auto simp: riderStatuses_def plain_def)

lemma sim_item_length:
  assumes "rng_ok rng" "0 \<le> c * 1000 + int i" "c * 1000 + int i < 10 ^ 12" "i < 10 ^ 7" and it_def: "it = build_item fma rng c i"
  shows "ascii_text (write_json write_string (sim_item_json it))" "length (write_json write_string (sim_item_json it)) \<le> 280"
proof -
  obtain p where p: "it_Payload it = Some p" "\<bar>pl_Latitude p\<bar> \<le> 90" "\<bar>pl_Longitude p\<bar> \<le> 180" "pl_CurrentStatus p \<in> set riderStatuses"
    "0 \<le> pl_ETAMinutes p" "pl_ETAMinutes p < 60" "pl_OrderID p = ''11111111-1111-1111-1111-'' @ show_012d (wrap64 (c * 1000 + int i))"
    by (rule sim_item_parts [OF assms(1,5)])
  have id: "length (show_012d (wrap64 (c * 1000 + int i))) = 12" "list_all plain (show_012d (wrap64 (c * 1000 + int i)))"
    using sim_id [OF assms(2,3)] plain_digits by simp_all
  have rid: "it_RiderID it = ''00000000-0000-0000-0000-'' @ show_012d (wrap64 (c * 1000 + int i))" "it_OperationType it = ''WRITE''"
    "it_SeqID it = of_nat i" by (simp_all add: it_def build_item_def Let_def)
  have strs: "list_all plain (it_RiderID it)" "length (it_RiderID it) = 36" "list_all plain (pl_OrderID p)" "length (pl_OrderID p) = 36"
    using id unfolding rid(1) p(7) by (simp_all add: plain_def)
  have fin: "finite_float (float_bits (pl_Latitude p))" "finite_float (float_bits (pl_Longitude p))" using p(2,3) float_bits_finite by simp_all
  have eta: "show_int (pl_ETAMinutes p) = show_nat (nat (pl_ETAMinutes p))" "length (show_nat (nat (pl_ETAMinutes p))) \<le> 2"
    using p(5,6) show_nat_length [of "nat (pl_ETAMinutes p)" 1] by (simp_all add: show_int_def nat_less_iff)
  have seq: "length (show_nat (unat (it_SeqID it))) \<le> 7" using assms(4) show_nat_length [of i 6] by (simp add: rid(3) unat_of_nat_64)
  have keys: "list_all plain ''seq_id''" "list_all plain ''operation_type''" "list_all plain ''WRITE''" "list_all plain ''rider_id''" "list_all plain ''payload''"
    "list_all plain ''order_id''" "list_all plain ''latitude''" "list_all plain ''longitude''" "list_all plain ''current_status''" "list_all plain ''eta_minutes''"
    by (simp_all add: plain_def)
  note status = status_plain [OF p(4), THEN conjunct1] status_plain [OF p(4), THEN conjunct2]
  note num = FormatFloat_ascii [OF fin(1)] FormatFloat_ascii [OF fin(2)] show_nat_ascii
  show "ascii_text (write_json write_string (sim_item_json it))"
    using write_plain_text(1) [OF strs(1)] write_plain_text(1) [OF strs(3)] write_plain_text(1) [OF status(1)] num
    by (simp add: sim_item_json_def payload_json_def p(1) eta(1) rid(2) write_plain_text(1) [OF keys(1)] keys [THEN write_plain_text(1)])
  show "length (write_json write_string (sim_item_json it)) \<le> 280"
    using FormatFloat_length [OF fin(1)] FormatFloat_length [OF fin(2)] seq eta(2) status(2)
    by (simp add: sim_item_json_def payload_json_def p(1) eta(1) rid(2) keys [THEN write_plain_text(2)] write_plain_text(2) [OF strs(1)]
        write_plain_text(2) [OF strs(3)] write_plain_text(2) [OF status(1)] strs(2,4))
qed

lemma sim_body_length:
  assumes "rng_ok rng" "0 \<le> clientID" "0 \<le> batchSize" "batchSize \<le> 10 ^ 7" "clientID * 1000 + batchSize \<le> 10 ^ 12"
    and "buildBatch fma rng batchSize clientID = Some items"
  shows "int (length (sim_body items)) \<le> 281 * batchSize + 2"
proof -
  let ?texts = "map (write_json write_string \<circ> sim_item_json \<circ> build_item fma rng clientID) [0..<nat batchSize]"
  have items: "items = map (build_item fma rng clientID) [0..<nat batchSize]" using assms(3,6) by (simp add: buildBatch_def)
  have "ascii_text x \<and> length x \<le> 280" if x: "x \<in> set ?texts" for x
  proof -
    obtain i where i: "i < nat batchSize" "x = write_json write_string (sim_item_json (build_item fma rng clientID i))" using x by auto
    have "int i < batchSize" using i(1) by simp
    then have "0 \<le> clientID * 1000 + int i" "clientID * 1000 + int i < 10 ^ 12" using assms(2,5) by linarith+
    moreover have "i < 10 ^ 7" using i(1) assms(4) by simp
    ultimately have r: "0 \<le> clientID * 1000 + int i" "clientID * 1000 + int i < 10 ^ 12" "i < 10 ^ 7" by blast+
    from sim_item_length [OF assms(1) r refl] show ?thesis by (simp add: i(2))
  qed
  then have t: "ascii_text (separated ?texts)" "length (separated ?texts) \<le> length ?texts * Suc 280"
    by (intro separated_ascii separated_length; blast)+
  have "write_json write_string (JArr (map sim_item_json items)) = 91 # separated ?texts @ [93]" by (simp add: items comp_assoc)
  then have "length (sim_body items) = length (separated ?texts) + 2"
    using t(1) by (simp add: sim_body_def Marshal_def length_encode_ascii)
  then show ?thesis using t(2) assms(3) by simp
qed

text \<open>
  How large a request is.  A body has at most 281 bytes for each update and two more; with the limit that a server
  has by default, 2 MiB, a batch of up to 7463 updates always gets through.
\<close>

theorem simulator_body_bound:
  assumes "rng_ok rng" "0 \<le> clientID" "0 \<le> batchSize" "batchSize \<le> 10 ^ 7" "clientID * 1000 + batchSize \<le> 10 ^ 12"
    and "buildBatch fma rng batchSize clientID = Some items"
  shows "int (length (sim_body items)) \<le> 281 * batchSize + 2
    \<and> (batchSize \<le> 7463 \<longrightarrow> int (length (sim_body items)) \<le> MaxBodyBytes (NewServer (cfg\<lparr>MaxBodyBytes := 0\<rparr>)))"
  using sim_body_length [OF assms] by (simp add: NewServer_def orDefault_def)

theorem simulator_body_bound_witness:
  "\<exists>items. buildBatch False example_rng 50 7 = Some items \<and> int (length (sim_body items)) \<le> 14052"
proof -
  have "rng_ok example_rng" by (simp add: rng_ok_def example_rng_def)
  moreover obtain items where "buildBatch False example_rng 50 7 = Some items" by (simp add: buildBatch_def)
  ultimately show ?thesis using simulator_body_bound [of example_rng 7 50 False items example_config] by auto
qed

section \<open>The answer\<close>

text \<open>What the gateway answers for an item of a batch that succeeded: its number and the update it wrote.\<close>

definition echo_json :: "batchRequestItem \<Rightarrow> json" where
  "echo_json it = JObj [(''seq_id'', JNum (show_nat (unat (it_SeqID it)))), (''result'', payload_json (the (it_Payload it)))]"

lemma response_echo:
  assumes "rng_ok rng" and p_def: "p = sim_op (build_item fma rng c i)"
  shows "response_json ft other Error (response_item (p\<lparr>Result := Value p\<rparr>)) = Some (echo_json (build_item fma rng c i))"
proof -
  obtain q where q: "it_Payload (build_item fma rng c i) = Some q" "\<bar>pl_Latitude q\<bar> \<le> 90" "\<bar>pl_Longitude q\<bar> \<le> 180"
    "0 \<le> pl_ETAMinutes q" "pl_ETAMinutes q < 60" by (rule sim_item_parts [OF assms(1) refl])
  have "finite_update (wire_payload q)" using q(2,3) float_bits_finite by (simp add: finite_update_def wire_payload_def)
  then show ?thesis
    using q(1) payload_wire [OF q(4,5)]
    by (simp add: response_json_def response_item_def p_def sim_op_def zeroOperation_def echo_json_def Let_def)
qed

end
