(* ===== verification/Sim_Flags.thy ===== *)
theory Sim_Flags
  imports Simulator
begin

text \<open>
  The start of \<^verbatim>\<open>main\<close> in \<^verbatim>\<open>src/cmd/simulator/main.go\<close>: the four command-line flags, read by the package
  \<^verbatim>\<open>flag\<close>, the numbers of the banner and the settings of the HTTP client.
\<close>

section \<open>Integers with a base prefix\<close>

text \<open>
  \<^verbatim>\<open>strconv.ParseInt(s, 0, 64)\<close>: a prefix selects the base, and underscores may separate digits.
\<close>

definition lower :: "char \<Rightarrow> char" where
  "lower c = (if 65 \<le> (of_char c :: nat) \<and> (of_char c :: nat) \<le> 90 then char_of ((of_char c :: nat) + 32) else c)"

definition alnum_val :: "char \<Rightarrow> nat option" where
  "alnum_val c =
     (if is_digit c then Some (digit_val c)
      else let l = of_char (lower c) in if 97 \<le> l \<and> l \<le> (122 :: nat) then Some (l - 87) else None)"

definition base_prefix :: "string \<Rightarrow> nat \<times> string" where
  "base_prefix s =
     (if s = [] \<or> hd s \<noteq> CHR ''0'' then (10, s)
      else if 3 \<le> length s \<and> lower (s ! 1) = CHR ''b'' then (2, drop 2 s)
      else if 3 \<le> length s \<and> lower (s ! 1) = CHR ''o'' then (8, drop 2 s)
      else if 3 \<le> length s \<and> lower (s ! 1) = CHR ''x'' then (16, drop 2 s)
      else (8, tl s))"

fun uint_digits :: "nat \<Rightarrow> nat \<Rightarrow> string \<Rightarrow> nat option" where
  "uint_digits base n [] = Some n"
| "uint_digits base n (c # s) =
     (if c = CHR ''_'' then uint_digits base n s
      else (case alnum_val c of
          None \<Rightarrow> None
        | Some d \<Rightarrow> if base \<le> d then None else if 2 ^ 64 \<le> n * base + d then None else uint_digits base (n * base + d) s))"

datatype seen = Start | Digit | Underscore | Junk

fun underscores :: "bool \<Rightarrow> seen \<Rightarrow> string \<Rightarrow> bool" where
  "underscores hex i [] \<longleftrightarrow> i \<noteq> Underscore"
| "underscores hex i (c # s) =
     (if is_digit c \<or> hex \<and> lower c \<in> {CHR ''a'', CHR ''b'', CHR ''c'', CHR ''d'', CHR ''e'', CHR ''f''} then underscores hex Digit s
      else if c = CHR ''_'' then i = Digit \<and> underscores hex Underscore s
      else i \<noteq> Underscore \<and> underscores hex Junk s)"

definition underscoreOK :: "string \<Rightarrow> bool" where
  "underscoreOK s =
     (let prefix = 2 \<le> length s \<and> hd s = CHR ''0'' \<and> lower (s ! 1) \<in> {CHR ''b'', CHR ''o'', CHR ''x''}
      in if prefix then underscores (lower (s ! 1) = CHR ''x'') Digit (drop 2 s) else underscores False Start s)"

definition ParseInt0 :: "string \<Rightarrow> int option" where
  "ParseInt0 s =
     (case split_sign s of (neg, t) \<Rightarrow>
        if t = [] then None
        else (case base_prefix t of (base, ds) \<Rightarrow>
          (case uint_digits base 0 ds of
             None \<Rightarrow> None
           | Some n \<Rightarrow>
               if CHR ''_'' \<in> set ds \<and> \<not> underscoreOK t then None
               else let i = (if neg then - int n else int n) in if int64_range i then Some i else None)))"

section \<open>Flags\<close>

record sim_config =
  targetURL :: string
  concurrency :: int
  batch_size :: int
  requestTimeout :: int

definition flag_defaults :: sim_config where
  "flag_defaults = \<lparr>targetURL = ''http://localhost:8080/api/v1/riders/batch'', concurrency = 100, batch_size = 50,
     requestTimeout = 10 * second\<rparr>"

datatype flag_error = BadSyntax string | NotDefined string | NeedsArgument string | InvalidValue string string | Help

text \<open>Setting a flag: an unknown name and a value that does not parse are errors.\<close>

definition set_flag :: "string \<Rightarrow> string \<Rightarrow> sim_config \<Rightarrow> flag_error + sim_config" where
  "set_flag name v cfg =
     (if name = ''url'' then Inr (cfg\<lparr>targetURL := v\<rparr>)
      else if name = ''concurrency'' then
        (case ParseInt0 v of None \<Rightarrow> Inl (InvalidValue name v) | Some i \<Rightarrow> Inr (cfg\<lparr>concurrency := i\<rparr>))
      else if name = ''batch-size'' then
        (case ParseInt0 v of None \<Rightarrow> Inl (InvalidValue name v) | Some i \<Rightarrow> Inr (cfg\<lparr>batch_size := i\<rparr>))
      else if name = ''request-timeout'' then
        (case ParseDuration v of None \<Rightarrow> Inl (InvalidValue name v) | Some i \<Rightarrow> Inr (cfg\<lparr>requestTimeout := i\<rparr>))
      else Inl (NotDefined name))"

definition flag_names :: "string list" where
  "flag_names = [''url'', ''concurrency'', ''batch-size'', ''request-timeout'']"

text \<open>The name of a flag and its value after an equals sign, which cannot be the first character.\<close>

definition split_flag :: "string \<Rightarrow> string \<times> string option" where
  "split_flag s = (let rest = dropWhile (\<lambda>c. c \<noteq> CHR ''='') s
     in (takeWhile (\<lambda>c. c \<noteq> CHR ''='') s, if rest = [] then None else Some (tl rest)))"

text \<open>
  \<^verbatim>\<open>flag.Parse\<close>: flags up to the first argument that is none or to \<^verbatim>\<open>--\<close>; one or two dashes, the value after an
  equals sign or in the next argument.  The names \<^verbatim>\<open>help\<close> and \<^verbatim>\<open>h\<close>, which are not defined, ask for the usage.
\<close>

function parse_flags :: "string list \<Rightarrow> sim_config \<Rightarrow> flag_error + sim_config" where
  "parse_flags [] cfg = Inr cfg"
| "parse_flags (s # args) cfg =
     (if length s < 2 \<or> hd s \<noteq> CHR ''-'' then Inr cfg
      else if s = ''--'' then Inr cfg
      else let body = (if s ! 1 = CHR ''-'' then drop 2 s else tl s)
           in if body = [] \<or> hd body = CHR ''-'' \<or> hd body = CHR ''='' then Inl (BadSyntax s)
              else (case split_flag body of (name, v) \<Rightarrow>
                if name \<notin> set flag_names then Inl (if name = ''help'' \<or> name = ''h'' then Help else NotDefined name)
                else (case v of
                    Some x \<Rightarrow> (case set_flag name x cfg of Inl e \<Rightarrow> Inl e | Inr cfg' \<Rightarrow> parse_flags args cfg')
                  | None \<Rightarrow>
                      (case args of
                         [] \<Rightarrow> Inl (NeedsArgument name)
                       | x # rest \<Rightarrow> (case set_flag name x cfg of Inl e \<Rightarrow> Inl e | Inr cfg' \<Rightarrow> parse_flags rest cfg')))))"
  by pat_completeness auto
termination by (relation "measure (\<lambda>(args, cfg). length args)") auto

text \<open>The settings of the client and the limit of the whole run; arithmetic on durations wraps around.\<close>

record http_client =
  cl_Timeout :: int
  cl_MaxIdleConns :: int
  cl_MaxIdleConnsPerHost :: int
  cl_IdleConnTimeout :: int

definition http_client_of :: "sim_config \<Rightarrow> http_client" where
  "http_client_of cfg = \<lparr>cl_Timeout = requestTimeout cfg, cl_MaxIdleConns = concurrency cfg,
     cl_MaxIdleConnsPerHost = concurrency cfg, cl_IdleConnTimeout = 30 * second\<rparr>"

definition overall_timeout :: "sim_config \<Rightarrow> int" where
  "overall_timeout cfg = wrap64 (requestTimeout cfg + 5 * second)"

text \<open>The number of updates the banner announces.\<close>

definition banner_updates :: "sim_config \<Rightarrow> int" where
  "banner_updates cfg = wrap64 (concurrency cfg * batch_size cfg)"

text \<open>
  The program: help ends it with status 0, any other error of the flags with 2; otherwise the clients
  run, \<open>world\<close> giving the metrics they collect.
\<close>

definition simulator :: "string list \<Rightarrow> (sim_config \<Rightarrow> metrics) \<Rightarrow> sim_exit" where
  "simulator args world =
     (case parse_flags args flag_defaults of
        Inl Help \<Rightarrow> Exit 0
      | Inl _ \<Rightarrow> Exit 2
      | Inr cfg \<Rightarrow> sim_main (concurrency cfg) (batch_size cfg) (world cfg))"

section \<open>Flags are read back\<close>

declare parse_flags.simps(2) [simp del]

lemma digits_val_ge: "n \<le> digits_val n s"
proof (induction s arbitrary: n)
  case (Cons c s)
  have "n \<le> n * 10 + digit_val c" by simp
  also have "\<dots> \<le> digits_val (n * 10 + digit_val c) s" by (rule Cons.IH)
  finally show ?case by (simp add: digits_val_def)
qed (simp add: digits_val_def)

lemma uint_digits_decimal: "list_all is_digit s \<Longrightarrow> digits_val n s < 2 ^ 64 \<Longrightarrow> uint_digits 10 n s = Some (digits_val n s)"
proof (induction s arbitrary: n)
  case (Cons c s)
  have v: "alnum_val c = Some (digit_val c)" "digit_val c < 10" "c \<noteq> CHR ''_''"
    using Cons.prems(1) by (auto simp: alnum_val_def is_digit_def digit_val_def)
  have d: "digits_val n (c # s) = digits_val (n * 10 + digit_val c) s" by (simp add: digits_val_def)
  then have "n * 10 + digit_val c < 2 ^ 64" using Cons.prems(2) digits_val_ge [of "n * 10 + digit_val c" s] by linarith
  then show ?case using Cons.IH [of "n * 10 + digit_val c"] Cons.prems d v by simp
qed (simp add: digits_val_def)

lemma ParseInt0_nat:
  assumes "n < 2 ^ 64"
  shows "uint_digits (fst (base_prefix (show_nat n))) 0 (snd (base_prefix (show_nat n))) = Some n" "CHR ''_'' \<notin> set (snd (base_prefix (show_nat n)))"
proof -
  note sd = show_nat_digits [of n]
  have sub: "set (snd (base_prefix s)) \<subseteq> set s" for s
    by (auto simp: base_prefix_def dest: in_set_dropD list.set_sel(2) split: if_splits)
  have "is_digit c" if "c \<in> set (show_nat n)" for c using sd that by (simp add: list_all_iff)
  then show "CHR ''_'' \<notin> set (snd (base_prefix (show_nat n)))" using sub [of "show_nat n"] by (fastforce simp: is_digit_def)
  show "uint_digits (fst (base_prefix (show_nat n))) 0 (snd (base_prefix (show_nat n))) = Some n"
  proof (cases "n = 0")
    case True
    moreover have "digit_char 0 = CHR ''0''" by code_simp
    ultimately show ?thesis by (simp add: show_nat.simps [of 0] base_prefix_def)
  next
    case False
    then have "base_prefix (show_nat n) = (10, show_nat n)" using show_nat_hd [of n] by (simp add: base_prefix_def)
    then show ?thesis using uint_digits_decimal [of "show_nat n" 0] sd assms by simp
  qed
qed

lemma ParseInt0_show:
  assumes "int64_range i"
  shows "ParseInt0 (show_int i) = Some i"
proof -
  have n: "nat i < 2 ^ 64" "nat (- i) < 2 ^ 64" using assms by (auto simp: int64_range_def nat_less_iff zless_nat_eq_int_zless)
  obtain c cs where sn: "show_nat (nat i) = c # cs" "is_digit c" using show_nat_digits [of "nat i"] by (cases "show_nat (nat i)") auto
  have "split_sign (show_nat (nat i)) = (False, show_nat (nat i))" using is_digit_not_sign [OF sn(2)] by (simp add: sn(1))
  then show ?thesis
    using assms ParseInt0_nat [OF n(1)] ParseInt0_nat [OF n(2)] show_nat_digits [of "nat i"] show_nat_digits [of "nat (- i)"]
    by (cases "i < 0") (auto simp: ParseInt0_def show_int_def split: prod.splits)
qed

lemma split_flag_eq: "CHR ''='' \<notin> set name \<Longrightarrow> split_flag (name @ CHR ''='' # v) = (name, Some v)" "CHR ''='' \<notin> set name \<Longrightarrow> split_flag name = (name, None)"
proof -
  assume a: "CHR ''='' \<notin> set name"
  have "takeWhile (\<lambda>c. c \<noteq> CHR ''='') (name @ CHR ''='' # v) = name" "dropWhile (\<lambda>c. c \<noteq> CHR ''='') (name @ CHR ''='' # v) = CHR ''='' # v"
    "takeWhile (\<lambda>c. c \<noteq> CHR ''='') name = name" "dropWhile (\<lambda>c. c \<noteq> CHR ''='') name = []"
    using a by (induction name) auto
  then show "split_flag (name @ CHR ''='' # v) = (name, Some v)" "split_flag name = (name, None)" by (simp_all add: split_flag_def Let_def)
qed

lemma parse_flag_eq:
  assumes "name \<in> set flag_names"
  shows "parse_flags ((CHR ''-'' # name @ CHR ''='' # v) # args) cfg = (case set_flag name v cfg of Inl e \<Rightarrow> Inl e | Inr cfg' \<Rightarrow> parse_flags args cfg')"
    and "parse_flags ((CHR ''-'' # name) # v # args) cfg = (case set_flag name v cfg of Inl e \<Rightarrow> Inl e | Inr cfg' \<Rightarrow> parse_flags args cfg')"
    and "parse_flags ((CHR ''-'' # CHR ''-'' # name @ CHR ''='' # v) # args) cfg = (case set_flag name v cfg of Inl e \<Rightarrow> Inl e | Inr cfg' \<Rightarrow> parse_flags args cfg')"
proof -
  have n: "CHR ''='' \<notin> set name" "name \<noteq> []" "hd name \<noteq> CHR ''-''" "hd name \<noteq> CHR ''=''" "name ! 0 = hd name" "\<not> length name < 1"
    using assms by (auto simp: flag_names_def)
  note sp = split_flag_eq(1) [OF n(1), of v] split_flag_eq(2) [OF n(1)]
  show "parse_flags ((CHR ''-'' # name @ CHR ''='' # v) # args) cfg = (case set_flag name v cfg of Inl e \<Rightarrow> Inl e | Inr cfg' \<Rightarrow> parse_flags args cfg')"
    using n sp assms by (cases name) (simp_all add: parse_flags.simps(2))
  show "parse_flags ((CHR ''-'' # name) # v # args) cfg = (case set_flag name v cfg of Inl e \<Rightarrow> Inl e | Inr cfg' \<Rightarrow> parse_flags args cfg')"
    using n sp assms by (cases name) (simp_all add: parse_flags.simps(2))
  show "parse_flags ((CHR ''-'' # CHR ''-'' # name @ CHR ''='' # v) # args) cfg = (case set_flag name v cfg of Inl e \<Rightarrow> Inl e | Inr cfg' \<Rightarrow> parse_flags args cfg')"
    using n sp assms by (cases name) (simp_all add: parse_flags.simps(2))
qed

text \<open>
  The flags of the simulator.  An address and two integers are read back from their decimal form, whether they are given after an
  equals sign or as the next argument and with one or two dashes, and everything that is not given has its default; the
  run is then that of these settings.
\<close>

theorem flags_round_trip:
  assumes "int64_range n" "int64_range b"
  shows "parse_flags [''-url='' @ u, ''--concurrency='' @ show_int n, ''-batch-size'', show_int b] flag_defaults
      = Inr (flag_defaults\<lparr>targetURL := u, concurrency := n, batch_size := b\<rparr>)
    \<and> simulator [''-url='' @ u, ''--concurrency='' @ show_int n, ''-batch-size'', show_int b] world
      = sim_main n b (world (flag_defaults\<lparr>targetURL := u, concurrency := n, batch_size := b\<rparr>))"
proof -
  have names: "''url'' \<in> set flag_names" "''concurrency'' \<in> set flag_names" "''batch-size'' \<in> set flag_names" by (simp_all add: flag_names_def)
  have "parse_flags [''-url='' @ u, ''--concurrency='' @ show_int n, ''-batch-size'', show_int b] flag_defaults
      = Inr (flag_defaults\<lparr>targetURL := u, concurrency := n, batch_size := b\<rparr>)"
    using parse_flag_eq(1) [OF names(1), of u "[''--concurrency='' @ show_int n, ''-batch-size'', show_int b]" flag_defaults]
      parse_flag_eq(3) [OF names(2), of "show_int n" "[''-batch-size'', show_int b]"] parse_flag_eq(2) [OF names(3), of "show_int b" "[]"]
      ParseInt0_show [OF assms(1)] ParseInt0_show [OF assms(2)]
    by (simp add: set_flag_def)
  then show ?thesis by (simp add: simulator_def)
qed

theorem flags_round_trip_witness:
  "\<exists>cfg. parse_flags [''-url=http://gw'', ''--concurrency='' @ show_int 20, ''-batch-size'', show_int (- 1)] flag_defaults = Inr cfg
    \<and> concurrency cfg = 20 \<and> requestTimeout cfg = 10 * second
    \<and> simulator [''-url=http://gw'', ''--concurrency='' @ show_int 20, ''-batch-size'', show_int (- 1)] (\<lambda>_. newMetrics) = Panic"
  using flags_round_trip [of 20 "- 1" "''http://gw''" "\<lambda>_. newMetrics"]
  by (simp add: int64_range_def flag_defaults_def sim_main_def)

end
