(* ===== verification/Dispatcher.thy ===== *)
theory Dispatcher
  imports Wire Rider_Table
begin

text \<open>
  Model of \<^verbatim>\<open>src/php/KhaosDispatcher.php\<close>: the queue of rider updates, its validation, and the dispatch of a
  batch.  What cURL answers to a request is an argument, and so are \<^verbatim>\<open>json_decode\<close> and the way PHP writes
  floating-point numbers; the rest of \<^verbatim>\<open>json_encode\<close> is modelled.
\<close>

section \<open>Data\<close>

record rider_update =
  up_riderId :: string
  up_orderId :: string
  up_lat :: float64
  up_lng :: float64
  up_status :: string
  up_eta :: int64

record dispatcher =
  apiUrl :: string
  timeoutSeconds :: int64
  connectTimeoutSeconds :: int64
  pending :: "rider_update list"

datatype php_error =
    InvalidArgument string
  | EncodeFailed
  | CurlInitFailed
  | TransportError int
  | HttpStatus int string
  | InvalidBody
  | DecodeFailed
  | UnexpectedShape

section \<open>PHP\<close>

text \<open>\<^verbatim>\<open>rtrim(s, '/')\<close>, and when \<^verbatim>\<open>trim(s) === ''\<close>.\<close>

definition rtrim_slash :: "string \<Rightarrow> string" where
  "rtrim_slash s = rev (dropWhile (\<lambda>c. c = CHR ''/'') (rev s))"

definition blank :: "string \<Rightarrow> bool" where
  "blank s \<longleftrightarrow> list_all (\<lambda>c. c \<in> {CHR '' '', CHR 0x09, CHR 0x0A, CHR 0x0D, CHR 0x00, CHR 0x0B}) s"

text \<open>The comparison of floating-point numbers, which is false whenever a NaN is involved.\<close>

definition is_nan :: "float64 \<Rightarrow> bool" where
  "is_nan x \<longleftrightarrow> inf_mag < bits_mag x"

definition float_lt :: "float64 \<Rightarrow> float64 \<Rightarrow> bool" where
  "float_lt x y \<longleftrightarrow> \<not> is_nan x \<and> \<not> is_nan y \<and> float_ord x < float_ord y"

text \<open>
  \<^verbatim>\<open>json_encode\<close> escapes slashes and everything outside ASCII, and fails on invalid UTF-8 and on infinite
  numbers and NaN.
\<close>

definition php_u :: "nat \<Rightarrow> nat list" where
  "php_u r = [92, 117, hex_digit (r div 4096), hex_digit (r div 256 mod 16), hex_digit (r div 16 mod 16), hex_digit (r mod 16)]"

definition php_escape :: "nat \<Rightarrow> nat list" where
  "php_escape r =
     (if r = 34 \<or> r = 92 \<or> r = 47 then [92, r]
      else if r = 8 then [92, 98] else if r = 12 then [92, 102] else if r = 10 then [92, 110]
      else if r = 13 then [92, 114] else if r = 9 then [92, 116]
      else if 32 \<le> r \<and> r < 128 then [r]
      else if r < 65536 then php_u r
      else php_u (55296 + (r - 65536) div 1024) @ php_u (56320 + (r - 65536) mod 1024))"

definition php_string :: "string \<Rightarrow> nat list" where
  "php_string s = 34 # concat (map php_escape (runes s)) @ [34]"

definition json_encode :: "(float64 \<Rightarrow> string) \<Rightarrow> BatchRequestItem list \<Rightarrow> string option" where
  "json_encode fmt its =
     (if list_all item_ok its then Some (utf8_encode (write_json php_string (JArr (map (item_json fmt) its)))) else None)"

section \<open>Operations\<close>

definition construct :: "string \<Rightarrow> int64 \<Rightarrow> int64 \<Rightarrow> php_error + dispatcher" where
  "construct url timeout connectTimeout =
     (let trimmed = rtrim_slash url
      in if trimmed = [] then Inl (InvalidArgument ''apiUrl must not be empty'')
         else Inr \<lparr>apiUrl = trimmed, timeoutSeconds = timeout, connectTimeoutSeconds = connectTimeout, pending = []\<rparr>)"

definition addRiderUpdate :: "rider_update \<Rightarrow> dispatcher \<Rightarrow> php_error + dispatcher" where
  "addRiderUpdate u d =
     (if blank (up_riderId u) then Inl (InvalidArgument ''riderId must not be empty'')
      else if blank (up_orderId u) then Inl (InvalidArgument ''orderId must not be empty'')
      else if float_lt (up_lat u) 0xC056800000000000 \<or> float_lt 0x4056800000000000 (up_lat u)
        then Inl (InvalidArgument ''lat must be between -90 and 90'')
      else if float_lt (up_lng u) 0xC066800000000000 \<or> float_lt 0x4066800000000000 (up_lng u)
        then Inl (InvalidArgument ''lng must be between -180 and 180'')
      else if blank (up_status u) then Inl (InvalidArgument ''status must not be empty'')
      else if sint (up_eta u) < 0 then Inl (InvalidArgument ''eta must be >= 0'')
      else Inr (d\<lparr>pending := pending d @ [u]\<rparr>))"

definition pendingCount :: "dispatcher \<Rightarrow> nat" where
  "pendingCount d = length (pending d)"

text \<open>The queue is a PHP list: the key of an update is its position.\<close>

definition request_item :: "nat \<Rightarrow> rider_update \<Rightarrow> BatchRequestItem" where
  "request_item seqId u =
     \<lparr>req_SeqID = of_nat seqId, req_OperationType = ''WRITE'', req_RiderID = up_riderId u,
      req_Payload = Some \<lparr>OrderID = up_orderId u, Latitude = up_lat u, Longitude = up_lng u,
                          CurrentStatus = up_status u, ETAMinutes = up_eta u\<rparr>\<rparr>"

definition requestItems :: "dispatcher \<Rightarrow> BatchRequestItem list" where
  "requestItems d = map (\<lambda>(i, u). request_item i u) (List.enumerate 0 (pending d))"

text \<open>The outcome of a cURL transfer; \<open>curl_response\<close> is \<open>None\<close> for \<^verbatim>\<open>false\<close>.\<close>

record curl_outcome =
  curl_init :: bool
  curl_errno :: int
  curl_code :: int
  curl_response :: "string option"

definition sendRequest :: "(string \<Rightarrow> string \<Rightarrow> curl_outcome) \<Rightarrow> dispatcher \<Rightarrow> string \<Rightarrow> php_error + string" where
  "sendRequest curl d requestBody =
     (let r = curl (apiUrl d @ ''/api/v1/riders/batch'') requestBody
      in if \<not> curl_init r then Inl CurlInitFailed
         else if curl_errno r \<noteq> 0 then Inl (TransportError (curl_errno r))
         else if curl_code r \<noteq> 200 then
           Inl (HttpStatus (curl_code r)
                  (case curl_response r of
                     None \<Rightarrow> ''(empty body)''
                   | Some s \<Rightarrow> if s = [] then ''(empty body)'' else take 500 s))
         else (case curl_response r of None \<Rightarrow> Inl InvalidBody | Some s \<Rightarrow> Inr s))"

definition decodeResponse :: "(string \<Rightarrow> json option) \<Rightarrow> string \<Rightarrow> php_error + json" where
  "decodeResponse json_decode responseBody =
     (case json_decode responseBody of
        None \<Rightarrow> Inl DecodeFailed
      | Some v \<Rightarrow> (case v of JArr _ \<Rightarrow> Inr v | JObj _ \<Rightarrow> Inr v | _ \<Rightarrow> Inl UnexpectedShape))"

definition dispatchBatch ::
  "(float64 \<Rightarrow> string) \<Rightarrow> (string \<Rightarrow> json option) \<Rightarrow> (string \<Rightarrow> string \<Rightarrow> curl_outcome) \<Rightarrow> dispatcher
     \<Rightarrow> dispatcher \<times> (php_error + json)" where
  "dispatchBatch fmt json_decode curl d =
     (if pending d = [] then (d, Inr (JArr []))
      else (case json_encode fmt (requestItems d) of
          None \<Rightarrow> (d, Inl EncodeFailed)
        | Some requestBody \<Rightarrow>
            (case sendRequest curl d requestBody of
               Inl e \<Rightarrow> (d, Inl e)
             | Inr responseBody \<Rightarrow>
                 (case decodeResponse json_decode responseBody of
                    Inl e \<Rightarrow> (d, Inl e)
                  | Inr decoded \<Rightarrow> (d\<lparr>pending := []\<rparr>, Inr decoded)))))"

text \<open>The life of a dispatcher: any sequence of calls, each with its own outcome of the transfer.\<close>

inductive dispatcher_step :: "(float64 \<Rightarrow> string) \<Rightarrow> (string \<Rightarrow> json option) \<Rightarrow> dispatcher \<Rightarrow> dispatcher \<Rightarrow> bool"
  for fmt :: "float64 \<Rightarrow> string" and json_decode :: "string \<Rightarrow> json option" where
  add: "addRiderUpdate u d = Inr d' \<Longrightarrow> dispatcher_step fmt json_decode d d'"
| dispatch: "dispatchBatch fmt json_decode curl d = (d', r) \<Longrightarrow> dispatcher_step fmt json_decode d d'"

inductive_cases dispatcher_stepE: "dispatcher_step fmt json_decode d d'"

section \<open>What is sent\<close>

lemma hex4_digits:
  assumes "r < 65536"
  shows "hex4 (hex_digit (r div 4096)) (hex_digit (r div 256 mod 16)) (hex_digit (r div 16 mod 16)) (hex_digit (r mod 16)) = Some r"
proof -
  have "r div 4096 < 16" using assms by simp
  moreover have "((r div 4096 * 16 + r div 256 mod 16) * 16 + r div 16 mod 16) * 16 + r mod 16 = r"
  proof -
    have "r div 256 div 16 = r div 4096" "r div 16 div 16 = r div 256" by (simp_all add: div_mult2_eq [symmetric])
    then have "r div 4096 * 16 + r div 256 mod 16 = r div 256" "r div 256 * 16 + r div 16 mod 16 = r div 16"
      using div_mult_mod_eq [of "r div 16" 16] div_mult_mod_eq [of "r div 256" 16] by simp_all
    then show ?thesis by (simp only: div_mult_mod_eq)
  qed
  ultimately show ?thesis by (simp add: hex4_def hex_val_digit)
qed

lemma low_half_php_u:
  assumes "h < 56320" "56320 \<le> l" "l < 57344"
  shows "low_half h (php_u l @ t) = Some (65536 + (h - 55296) * 1024 + (l - 56320), t)"
  using hex4_digits [of l] assms by (simp add: low_half_def php_u_def)

lemma read_php_escape:
  assumes "scalar r"
  shows "read_string (php_escape r @ t) = map_option (apfst (Cons r)) (read_string t)"
proof -
  consider "r \<in> {34, 92, 47, 8, 12, 10, 13, 9}" | "32 \<le> r" "r < 128" "r \<notin> {34, 92, 47}"
    | "r < 32 \<or> 128 \<le> r" "r < 65536" "r \<notin> {8, 12, 10, 13, 9}" | "65536 \<le> r" unfolding insert_iff empty_iff by linarith
  then show ?thesis
  proof cases
    case 3
    then have "php_escape r = php_u r" by (auto simp: php_escape_def)
    moreover have "\<not> surrogate r" using assms 3(2) by (auto simp: scalar_def surrogate_def)
    ultimately show ?thesis using hex4_digits [OF 3(2)] by (simp add: php_u_def read_string.simps(2))
  next
    case 4
    define x where "x = r - 65536"
    have x: "r = 65536 + x" "x < 2 ^ 20" using assms 4 by (auto simp: x_def scalar_def)
    define h l where "h = 55296 + x div 1024" and "l = 56320 + x mod 1024"
    have "x div 1024 < 1024" using x(2) by simp
    then have hl: "55296 \<le> h" "h < 56320" "56320 \<le> l" "l < 57344" by (simp_all add: h_def l_def)
    have e: "php_escape r = php_u h @ php_u l" using 4 by (simp add: php_escape_def h_def l_def x_def)
    have "65536 + (h - 55296) * 1024 + (l - 56320) = r" using div_mult_mod_eq [of x 1024] by (simp add: h_def l_def x(1))
    then have "low_half h (php_u l @ t) = Some (r, t)" using low_half_php_u [of h l t] hl by simp
    moreover have "surrogate h" "hex4 (hex_digit (h div 4096)) (hex_digit (h div 256 mod 16)) (hex_digit (h div 16 mod 16)) (hex_digit (h mod 16)) = Some h"
      using hl hex4_digits [of h] by (simp_all add: surrogate_def)
    ultimately show ?thesis unfolding e by (simp add: php_u_def [of h] read_string.simps(2))
  qed (auto simp: php_escape_def read_string.simps(2) escape_rune_def)
qed

lemma read_php_string: "list_all scalar rs \<Longrightarrow> read_string (concat (map php_escape rs) @ 34 # rest) = Some (rs, rest)"
  by (induction rs) (simp_all add: read_php_escape, simp add: read_string.simps(2))

lemma scalar_php_u: "r < 65536 \<Longrightarrow> list_all scalar (php_u r)"
proof -
  have hex: "scalar (hex_digit d)" if "d < 16" for d using that by (auto simp: hex_digit_def scalar_def)
  assume "r < 65536"
  then have "r div 4096 < 16" by simp
  then show ?thesis using hex by (simp add: php_u_def scalar_def [of 92] scalar_def [of 117])
qed

lemma scalar_php_escape:
  assumes "scalar r"
  shows "list_all scalar (php_escape r)"
proof (cases "r < 65536")
  case True
  then show ?thesis using scalar_php_u [OF True] by (auto simp: php_escape_def scalar_def)
next
  case False
  have "(r - 65536) div 1024 < 1024" using assms False by (auto simp: scalar_def)
  then show ?thesis using False scalar_php_u by (simp add: php_escape_def)
qed

interpretation php_string: string_writer php_string
proof
  fix s rest
  show "php_string s = 34 # tl (php_string s)" by (simp add: php_string_def)
  show "read_string (tl (php_string s) @ rest) = Some (runes s, rest)"
    using read_php_string [OF runes_scalar] by (simp add: php_string_def)
  show "list_all scalar (php_string s)"
    using runes_scalar [of s] scalar_php_escape by (auto simp: php_string_def list_all_iff scalar_def [of 34])
qed

section \<open>The queue\<close>

definition update_valid :: "rider_update \<Rightarrow> bool" where
  "update_valid u \<longleftrightarrow> \<not> blank (up_riderId u) \<and> \<not> blank (up_orderId u) \<and> \<not> blank (up_status u) \<and> 0 \<le> sint (up_eta u)
     \<and> \<not> float_lt (up_lat u) 0xC056800000000000 \<and> \<not> float_lt 0x4056800000000000 (up_lat u)
     \<and> \<not> float_lt (up_lng u) 0xC066800000000000 \<and> \<not> float_lt 0x4066800000000000 (up_lng u)"

lemma addRiderUpdate_iff: "addRiderUpdate u d = Inr d' \<longleftrightarrow> update_valid u \<and> d' = d\<lparr>pending := pending d @ [u]\<rparr>"
  by (auto simp: addRiderUpdate_def update_valid_def)

lemma length_requestItems [simp]: "length (requestItems d) = pendingCount d"
  by (simp add: requestItems_def pendingCount_def)

lemma requestItems_nth: "i < pendingCount d \<Longrightarrow> requestItems d ! i = request_item i (pending d ! i)"
  by (simp add: requestItems_def pendingCount_def nth_enumerate_eq)

text \<open>An update that \<^verbatim>\<open>json_encode\<close> can write.\<close>

definition encodable :: "rider_update \<Rightarrow> bool" where
  "encodable u \<longleftrightarrow> utf8_valid (up_riderId u) \<and> utf8_valid (up_orderId u) \<and> utf8_valid (up_status u)
     \<and> finite_float (up_lat u) \<and> finite_float (up_lng u)"

lemma WRITE_valid: "utf8_valid ''WRITE''"
  by (rule ascii_valid) simp

lemma item_ok_request: "item_ok (request_item i u) \<longleftrightarrow> encodable u"
  using WRITE_valid by (auto simp: item_ok_def request_item_def update_ok_def finite_update_def encodable_def)

lemma requestItems_ok: "list_all item_ok (requestItems d) \<longleftrightarrow> list_all encodable (pending d)"
  unfolding list_all_length by (simp add: requestItems_nth item_ok_request) (simp add: pendingCount_def)

lemma dispatch_unencodable:
  assumes "u \<in> set (pending d)" "\<not> encodable u"
  shows "dispatchBatch fmt json_decode curl d = (d, Inl EncodeFailed)"
proof -
  have "json_encode fmt (requestItems d) = None"
    using assms requestItems_ok [of d] by (auto simp: json_encode_def list_all_iff)
  then show ?thesis using assms(1) by (auto simp: dispatchBatch_def)
qed

lemma dispatch_cases:
  assumes "dispatchBatch fmt json_decode curl d = (d', r)"
  shows "case r of Inl e \<Rightarrow> d' = d \<and> pending d \<noteq> [] | Inr v \<Rightarrow> d' = d\<lparr>pending := []\<rparr>
    \<and> (pending d \<noteq> [] \<longrightarrow> (\<exists>req resp. json_encode fmt (requestItems d) = Some req \<and> json_decode resp = Some v
          \<and> sendRequest curl d req = Inr resp))"
  using assms
  by (auto simp: dispatchBatch_def decodeResponse_def split: if_splits option.splits sum.splits json.splits)

lemma sendRequest_Inr:
  assumes "sendRequest curl d req = Inr resp"
  shows "curl_errno (curl (apiUrl d @ ''/api/v1/riders/batch'') req) = 0" "curl_code (curl (apiUrl d @ ''/api/v1/riders/batch'') req) = 200"
    "curl_response (curl (apiUrl d @ ''/api/v1/riders/batch'') req) = Some resp"
  using assms by (auto simp: sendRequest_def Let_def split: if_splits option.splits)

text \<open>
  C11: no update is lost.  A call of \<^verbatim>\<open>dispatchBatch\<close> that throws leaves the dispatcher as it was; one that
  returns leaves the queue empty, and if there was anything in it, the gateway has answered 200 to a body
  that its decoder reads as exactly the updates of the queue, in their order and with the
  sequence numbers from zero on.
\<close>

theorem dispatch_all_or_nothing:
  assumes fmt: "float_text fmt" and run: "dispatchBatch fmt json_decode curl d = (d', r)"
  shows "case r of
      Inl e \<Rightarrow> d' = d
    | Inr v \<Rightarrow> d' = d\<lparr>pending := []\<rparr> \<and> (pending d \<noteq> [] \<longrightarrow>
        (\<exists>req. Decode (req, None) = Inr (map (\<lambda>i. request_item i (pending d ! i)) [0..<pendingCount d])
           \<and> curl_errno (curl (apiUrl d @ ''/api/v1/riders/batch'') req) = 0
           \<and> curl_code (curl (apiUrl d @ ''/api/v1/riders/batch'') req) = 200))"
proof (cases r)
  case (Inl e)
  then show ?thesis using dispatch_cases [OF run] by simp
next
  case (Inr v)
  note c = dispatch_cases [OF run, unfolded Inr sum.case]
  have "\<exists>req. Decode (req, None) = Inr (map (\<lambda>i. request_item i (pending d ! i)) [0..<pendingCount d])
      \<and> curl_errno (curl (apiUrl d @ ''/api/v1/riders/batch'') req) = 0
      \<and> curl_code (curl (apiUrl d @ ''/api/v1/riders/batch'') req) = 200" if ne: "pending d \<noteq> []"
  proof -
    obtain req resp where req: "json_encode fmt (requestItems d) = Some req" and resp: "sendRequest curl d req = Inr resp"
      using c ne by blast
    have ok: "list_all item_ok (requestItems d)" and req_def: "req = utf8_encode (write_json php_string (JArr (map (item_json fmt) (requestItems d))))"
      using req by (simp_all add: json_encode_def split: if_splits)
    have "Decode (MaxBytesReader (int (length req)) (req @ [])) = Inr (requestItems d)"
      by (rule Decode_written [OF php_string.string_writer_axioms fmt ok req_def]) simp
    moreover have "requestItems d = map (\<lambda>i. request_item i (pending d ! i)) [0..<pendingCount d]"
      by (rule nth_equalityI) (simp_all add: requestItems_nth)
    ultimately show ?thesis using sendRequest_Inr [OF resp] by (auto simp: MaxBytesReader_def)
  qed
  then show ?thesis using c Inr by simp
qed

definition example_update_nan :: rider_update where
  "example_update_nan = \<lparr>up_riderId = ''r1'', up_orderId = ''o1'', up_lat = 0x7FF8000000000000, up_lng = 0, up_status = ''EN_ROUTE'', up_eta = 5\<rparr>"

definition example_dispatcher :: dispatcher where
  "example_dispatcher = \<lparr>apiUrl = ''http://khaos'', timeoutSeconds = 5, connectTimeoutSeconds = 3,
     pending = [example_update_nan\<lparr>up_lat := 0\<rparr>]\<rparr>"

definition example_curl :: "string \<Rightarrow> string \<Rightarrow> curl_outcome" where
  "example_curl url req = \<lparr>curl_init = True, curl_errno = 0, curl_code = 200, curl_response = Some ''[]''\<rparr>"

lemma example_encodable: "encodable (example_update_nan\<lparr>up_lat := 0\<rparr>)"
  by (simp add: encodable_def example_update_nan_def finite_float_def bits_mag_def inf_mag_def ascii_valid)

theorem dispatch_all_or_nothing_witness:
  "\<exists>req. dispatchBatch FormatFloat (\<lambda>_. Some (JArr [])) example_curl example_dispatcher = (example_dispatcher\<lparr>pending := []\<rparr>, Inr (JArr []))
    \<and> Decode (req, None) = Inr [request_item 0 (example_update_nan\<lparr>up_lat := 0\<rparr>)]"
proof -
  have "list_all item_ok (requestItems example_dispatcher)"
    using requestItems_ok [of example_dispatcher] example_encodable by (simp add: example_dispatcher_def)
  then have run: "dispatchBatch FormatFloat (\<lambda>_. Some (JArr [])) example_curl example_dispatcher = (example_dispatcher\<lparr>pending := []\<rparr>, Inr (JArr []))"
    by (simp add: dispatchBatch_def json_encode_def sendRequest_def decodeResponse_def example_curl_def example_dispatcher_def)
  from dispatch_all_or_nothing [OF go_float.float_text_axioms run] show ?thesis
    using run by (auto simp: example_dispatcher_def pendingCount_def)
qed

text \<open>An update stays in the queue until a batch with it has been encoded.\<close>

lemma stuck_step:
  assumes "dispatcher_step fmt json_decode d d'" "u \<in> set (pending d)" "\<not> encodable u"
  shows "u \<in> set (pending d')"
  using assms(1)
proof (rule dispatcher_stepE)
  fix v
  assume "addRiderUpdate v d = Inr d'"
  then show ?thesis using assms(2) by (simp add: addRiderUpdate_iff)
next
  fix curl r
  assume "dispatchBatch fmt json_decode curl d = (d', r)"
  then show ?thesis using assms(2) dispatch_unencodable [OF assms(2,3), of fmt json_decode curl] by simp
qed

lemma stuck:
  assumes "(dispatcher_step fmt json_decode)\<^sup>*\<^sup>* d d'" "u \<in> set (pending d)" "\<not> encodable u"
  shows "u \<in> set (pending d')"
  using assms(1) by induction (use assms stuck_step in blast)+

text \<open>
  C13: a NaN blocks the dispatcher for good.  An update whose latitude is not a number passes the validation, since both
  comparisons are false; it can never be encoded, so from then on every dispatch throws before anything
  is sent, the queue only grows, and no call removes the update.
\<close>

theorem nan_blocks_dispatcher:
  assumes "is_nan (up_lat u)" "update_valid (u\<lparr>up_lat := 0\<rparr>)"
  shows "\<exists>d1. addRiderUpdate u d = Inr d1 \<and>
    (\<forall>d2. (dispatcher_step fmt json_decode)\<^sup>*\<^sup>* d1 d2 \<longrightarrow> u \<in> set (pending d2)
       \<and> (\<forall>curl. dispatchBatch fmt json_decode curl d2 = (d2, Inl EncodeFailed)))"
proof -
  have "update_valid u" using assms by (simp add: update_valid_def float_lt_def)
  then have add: "addRiderUpdate u d = Inr (d\<lparr>pending := pending d @ [u]\<rparr>)" by (simp add: addRiderUpdate_iff)
  have bad: "\<not> encodable u" using assms(1) by (simp add: encodable_def finite_float_def is_nan_def)
  have "u \<in> set (pending d2) \<and> (\<forall>curl. dispatchBatch fmt json_decode curl d2 = (d2, Inl EncodeFailed))"
    if "(dispatcher_step fmt json_decode)\<^sup>*\<^sup>* (d\<lparr>pending := pending d @ [u]\<rparr>) d2" for d2
  proof -
    have "u \<in> set (pending d2)" by (rule stuck [OF that _ bad]) simp
    then show ?thesis using dispatch_unencodable [OF _ bad] by simp
  qed
  then show ?thesis using add by blast
qed

lemma example_nan:
  "is_nan (up_lat example_update_nan)" "update_valid (example_update_nan\<lparr>up_lat := 0\<rparr>)"
  by (simp_all add: is_nan_def example_update_nan_def bits_mag_def inf_mag_def update_valid_def blank_def float_lt_def float_ord_def
      Let_def)

theorem nan_blocks_dispatcher_witness:
  "\<exists>d1. addRiderUpdate example_update_nan example_dispatcher = Inr d1
     \<and> dispatchBatch FormatFloat (\<lambda>_. Some (JArr [])) example_curl d1 = (d1, Inl EncodeFailed)"
  using nan_blocks_dispatcher [OF example_nan, of example_dispatcher FormatFloat "\<lambda>_. Some (JArr [])"] by blast

section \<open>What the gateway makes of a batch\<close>

definition dispatcher_invar :: "dispatcher \<Rightarrow> bool" where
  "dispatcher_invar d \<longleftrightarrow> apiUrl d \<noteq> [] \<and> last (apiUrl d) \<noteq> CHR ''/'' \<and> list_all update_valid (pending d)"

lemma construct_invar:
  assumes "construct url t ct = Inr d"
  shows "dispatcher_invar d"
proof -
  let ?rest = "dropWhile (\<lambda>c. c = CHR ''/'') (rev url)"
  have d: "?rest \<noteq> []" "d = \<lparr>apiUrl = rev ?rest, timeoutSeconds = t, connectTimeoutSeconds = ct, pending = []\<rparr>"
    using assms by (auto simp: construct_def rtrim_slash_def Let_def split: if_splits)
  then show ?thesis using hd_dropWhile [OF d(1)] by (simp add: dispatcher_invar_def last_rev)
qed

lemma dispatcher_step_invar:
  assumes "dispatcher_step fmt json_decode d d'" "dispatcher_invar d"
  shows "dispatcher_invar d'"
  using assms(1)
proof (rule dispatcher_stepE)
  fix u
  assume "addRiderUpdate u d = Inr d'"
  then show ?thesis using assms(2) by (simp add: addRiderUpdate_iff dispatcher_invar_def)
next
  fix curl r
  assume "dispatchBatch fmt json_decode curl d = (d', r)"
  then show ?thesis using assms(2) dispatch_cases [of fmt json_decode curl d d' r] by (cases r) (auto simp: dispatcher_invar_def)
qed

lemma reachable_invar:
  assumes "construct url t ct = Inr d0" "(dispatcher_step fmt json_decode)\<^sup>*\<^sup>* d0 d"
  shows "dispatcher_invar d"
  using assms(2) by induction (use construct_invar [OF assms(1)] dispatcher_step_invar in blast)+

definition dispatched_op :: "nat \<Rightarrow> rider_update \<Rightarrow> go_value Operation" where
  "dispatched_op i u = zeroOperation\<lparr>SeqID := of_nat i, Key := up_riderId u, Type := OpWrite,
     Value := map_option GoRiderUpdate (req_Payload (request_item i u))\<rparr>"

lemma translate_request_item:
  assumes "update_valid u"
  shows "translate_item (request_item i u) = Inr (dispatched_op i u)"
proof -
  have "up_riderId u \<noteq> []" using assms by (auto simp: update_valid_def blank_def)
  moreover have "parseOperationType ''WRITE'' = Inr OpWrite"
    by (simp add: parseOperationType_def runes_def TrimSpace_def IsSpace_def ToUpper_def ascii_def)
  ultimately show ?thesis by (simp add: translate_item_def request_item_def dispatched_op_def zeroOperation_def Let_def)
qed

text \<open>
  C12: the gateway accepts the dispatcher's batches.  Whatever calls have been made on a dispatcher, a
  non-empty queue that can be encoded is a body that, if it fits into the limit, the gateway decodes
  and translates into one write for each update, in the order of the queue, and starts to run.
\<close>

theorem dispatcher_batch_accepted:
  assumes "construct url t ct = Inr d0" "(dispatcher_step fmt json_decode)\<^sup>*\<^sup>* d0 d" "float_text fmt"
    and "json_encode fmt (requestItems d) = Some req" "pending d \<noteq> []" "pendingCount d \<le> 2 ^ 63" "int (length req) \<le> MaxBodyBytes cfg"
  shows "Decode (MaxBytesReader (MaxBodyBytes cfg) req) = Inr (requestItems d)
    \<and> translateRequest (requestItems d) = Inr (map (\<lambda>i. dispatched_op i (pending d ! i)) [0..<pendingCount d])
    \<and> (\<exists>s. serve_batch numCPU cfg st c req = Inr s)"
proof -
  let ?ops = "map (\<lambda>i. dispatched_op i (pending d ! i)) [0..<pendingCount d]"
  have valid: "update_valid (pending d ! i)" if "i < pendingCount d" for i
    using reachable_invar [OF assms(1,2)] that by (simp add: dispatcher_invar_def list_all_length pendingCount_def)
  have ok: "list_all item_ok (requestItems d)" and req: "req = utf8_encode (write_json php_string (JArr (map (item_json fmt) (requestItems d))))"
    using assms(4) by (simp_all add: json_encode_def split: if_splits)
  have n: "pendingCount d < 2 ^ 64" "requestItems d \<noteq> []" using assms(5,6) length_requestItems [of d]
    by (auto simp: pendingCount_def simp del: length_requestItems)
  have tr: "translates (requestItems d) ?ops"
    using n valid translate_request_item by (intro translates_in_order) (simp_all add: requestItems_nth, simp add: request_item_def)
  then have "translateRequest (requestItems d) = Inr ?ops" using translateRequest_Inr [of "requestItems d" ?ops] n by simp
  moreover have "Decode (MaxBytesReader (MaxBodyBytes cfg) (req @ [])) = Inr (requestItems d)"
    by (rule Decode_written [OF php_string.string_writer_axioms assms(3) ok req assms(7)])
  moreover have "\<exists>s. serve_batch numCPU cfg st c req = Inr s"
    using n assms(6) by (intro written_request_starts [OF php_string.string_writer_axioms assms(3) ok tr _ _ req assms(7)]) simp_all
  ultimately show ?thesis by simp
qed

theorem dispatcher_batch_accepted_witness:
  "\<exists>req s. json_encode FormatFloat (requestItems example_dispatcher) = Some req
     \<and> serve_batch 4 (example_config\<lparr>MaxBodyBytes := int (length req)\<rparr>) () None req = Inr s"
proof -
  let ?d0 = "example_dispatcher\<lparr>pending := []\<rparr>"
  have new: "construct ''http://khaos//'' 5 3 = Inr ?d0" by (simp add: construct_def rtrim_slash_def example_dispatcher_def)
  have "addRiderUpdate (example_update_nan\<lparr>up_lat := 0\<rparr>) ?d0 = Inr example_dispatcher"
    using example_nan(2) by (simp add: addRiderUpdate_iff example_dispatcher_def)
  then have "dispatcher_step FormatFloat (\<lambda>_. None) ?d0 example_dispatcher" by (rule dispatcher_step.add)
  then have reach: "(dispatcher_step FormatFloat (\<lambda>_. None))\<^sup>*\<^sup>* ?d0 example_dispatcher" by blast
  have "list_all item_ok (requestItems example_dispatcher)"
    using requestItems_ok [of example_dispatcher] example_encodable by (simp add: example_dispatcher_def)
  then obtain req where req: "json_encode FormatFloat (requestItems example_dispatcher) = Some req" by (simp add: json_encode_def)
  have "\<exists>s. serve_batch 4 (example_config\<lparr>MaxBodyBytes := int (length req)\<rparr>) () None req = Inr s"
    using dispatcher_batch_accepted [OF new reach go_float.float_text_axioms req, of "example_config\<lparr>MaxBodyBytes := int (length req)\<rparr>" 4 "()" None]
    by (simp add: example_dispatcher_def pendingCount_def)
  then show ?thesis using req by blast
qed

end
