(* ===== verification/Http.thy ===== *)
theory Http
  imports Wire
begin

text \<open>
  What \<^verbatim>\<open>net/http\<close> does between the connection and the handler: the \<^verbatim>\<open>ServeMux\<close> of Go 1.22 with the one
  pattern that \<^verbatim>\<open>NewServer\<close> of \<^verbatim>\<open>src/server.go\<close> registers.  A request is its method, the \<^verbatim>\<open>RequestURI\<close>, the
  path in the form of \<^verbatim>\<open>URL.EscapedPath()\<close>, and its body; the pattern has no host.  Of the answers
  that the multiplexer gives itself, the status and the field that goes with it are kept.
\<close>

section \<open>Paths\<close>

text \<open>\<^verbatim>\<open>url.PathUnescape\<close>; \<open>None\<close> is its error.\<close>

fun PathUnescape :: "string \<Rightarrow> string option" where
  "PathUnescape [] = Some []"
| "PathUnescape (c # cs) =
     (if c = CHR ''%'' then
        (case cs of
           a # b # rest \<Rightarrow>
             (case (hex_val (of_char a), hex_val (of_char b)) of
                (Some x, Some y) \<Rightarrow> map_option (Cons (char_of (16 * x + y))) (PathUnescape rest)
              | _ \<Rightarrow> None)
         | _ \<Rightarrow> None)
      else map_option (Cons c) (PathUnescape cs))"

definition pathUnescape :: "string \<Rightarrow> string" where
  "pathUnescape s = (case PathUnescape s of None \<Rightarrow> s | Some u \<Rightarrow> u)"

definition no_slash :: "char \<Rightarrow> bool" where
  "no_slash c \<longleftrightarrow> c \<noteq> CHR ''/''"

text \<open>The routing tree is descended along the segments of the path; a lone slash is a segment of its own.\<close>

definition firstSegment :: "string \<Rightarrow> string \<times> string" where
  "firstSegment path =
     (if path = ''/'' then (''/'', [])
      else (pathUnescape (takeWhile no_slash (tl path)), dropWhile no_slash (tl path)))"

function segments :: "string \<Rightarrow> string list" where
  "segments path = (if path = [] then [] else (case firstSegment path of (seg, rest) \<Rightarrow> seg # segments rest))"
  by pat_completeness auto
termination
proof (relation "measure length", goal_cases)
  case (2 path seg rest)
  then have "length rest \<le> length (tl path)"
    using length_dropWhile_le [of no_slash "tl path"] by (auto simp: firstSegment_def split: if_splits)
  then show ?case using 2(1) by (cases path) auto
qed simp

declare segments.simps [simp del]

text \<open>\<^verbatim>\<open>path.Clean\<close> on a rooted path, and \<^verbatim>\<open>cleanPath\<close> of \<^verbatim>\<open>net/http\<close>, which keeps a trailing slash.\<close>

fun split_slash :: "string \<Rightarrow> string list" where
  "split_slash [] = [[]]"
| "split_slash (c # cs) =
     (if no_slash c then (case split_slash cs of [] \<Rightarrow> [[c]] | s # ss \<Rightarrow> (c # s) # ss) else [] # split_slash cs)"

definition clean_segment :: "string list \<Rightarrow> string \<Rightarrow> string list" where
  "clean_segment acc seg =
     (if seg = [] \<or> seg = ''.'' then acc else if seg = ''..'' then butlast acc else acc @ [seg])"

definition rooted :: "string list \<Rightarrow> string" where
  "rooted segs = concat (map (Cons (CHR ''/'')) segs)"

definition Clean :: "string \<Rightarrow> string" where
  "Clean path = (let segs = foldl clean_segment [] (split_slash path) in if segs = [] then ''/'' else rooted segs)"

definition cleanPath :: "string \<Rightarrow> string" where
  "cleanPath p0 =
     (if p0 = [] then ''/''
      else let p = (if no_slash (hd p0) then CHR ''/'' # p0 else p0); np = Clean p
           in if \<not> no_slash (last p) \<and> np \<noteq> ''/'' then
                (if length p = length np + 1 \<and> take (length np) p = np then p else np @ ''/'')
              else np)"

section \<open>The multiplexer\<close>

record http_request =
  rq_Method :: string
  rq_RequestURI :: string
  rq_Path :: string
  rq_Body :: string

datatype mux_reply =
    ServerOptions
  | BadRequestURI
  | MovedPermanently string
  | MethodNotAllowed "string list"
  | PageNotFound

fun mux_status :: "mux_reply \<Rightarrow> nat" where
  "mux_status ServerOptions = 200"
| "mux_status BadRequestURI = 400"
| "mux_status (MovedPermanently _) = 301"
| "mux_status (MethodNotAllowed _) = 405"
| "mux_status PageNotFound = 404"

definition batch_pattern :: "string \<times> string" where
  "batch_pattern = (''POST'', ''/api/v1/riders/batch'')"

text \<open>
  \<^verbatim>\<open>findHandler\<close>: the path is cleaned, except for \<^verbatim>\<open>CONNECT\<close>, and a request for a path that is not clean is
  redirected; without a match for the method, the methods that do match the path decide between 405 and 404.
\<close>

definition findHandler :: "http_request \<Rightarrow> mux_reply option" where
  "findHandler rq =
     (let path = (if rq_Method rq = ''CONNECT'' then rq_Path rq else cleanPath (rq_Path rq));
          at_path = (segments path = segments (snd batch_pattern))
      in if path \<noteq> rq_Path rq then Some (MovedPermanently path)
         else if rq_Method rq = fst batch_pattern \<and> at_path then None
         else if at_path then Some (MethodNotAllowed [fst batch_pattern])
         else Some PageNotFound)"

definition ServeHTTP ::
  "nat \<Rightarrow> ServerConfig \<Rightarrow> 's \<Rightarrow> ctx_err \<Rightarrow> http_request \<Rightarrow> (mux_reply + go_value response) + ('s, go_value) pool" where
  "ServeHTTP numCPU cfg st c rq =
     (if rq_RequestURI rq = ''*'' then
        Inl (Inl (if rq_Method rq = ''OPTIONS'' then ServerOptions else BadRequestURI))
      else case findHandler rq of
        Some m \<Rightarrow> Inl (Inl m)
      | None \<Rightarrow> map_sum Inr id (serve_batch numCPU cfg st c (rq_Body rq)))"

section \<open>Which requests reach the handler\<close>

lemma batch_segments: "segments ''/api/v1/riders/batch'' = [''api'', ''v1'', ''riders'', ''batch'']"
  by (simp add: segments.simps firstSegment_def no_slash_def pathUnescape_def)

lemma split_slash_not_Nil [simp]: "split_slash cs \<noteq> []"
  by (induction cs) (auto split: list.splits)

lemma split_slash_step:
  "split_slash cs = takeWhile no_slash cs # (case dropWhile no_slash cs of [] \<Rightarrow> [] | d # ds \<Rightarrow> split_slash ds)"
  by (induction cs) (auto split: list.splits)

lemma hd_dropWhile_slash: "dropWhile no_slash cs = d # ds \<Longrightarrow> d = CHR ''/''"
  by (metis dropWhile_eq_Cons_conv no_slash_def)

lemma rooted_split: "rooted (split_slash cs) = CHR ''/'' # cs"
proof (induction "length cs" arbitrary: cs rule: less_induct)
  case less
  show ?case
  proof (cases "dropWhile no_slash cs")
    case Nil
    then have "takeWhile no_slash cs = cs" by (metis append_Nil2 takeWhile_dropWhile_id)
    then show ?thesis by (subst split_slash_step) (simp add: Nil rooted_def)
  next
    case (Cons d ds)
    then have "length ds < length cs" by (metis length_dropWhile_le length_Cons Suc_le_eq)
    from less [OF this] Cons hd_dropWhile_slash [OF Cons] show ?thesis
      by (subst split_slash_step) (simp add: rooted_def, metis takeWhile_dropWhile_id)
  qed
qed


lemma split_slash_plain: "list_all (list_all no_slash) (split_slash cs)"
  by (induction cs) (auto split: list.splits)

text \<open>The segments that the tree sees are the parts between the slashes, unescaped, up to a trailing slash.\<close>

lemma segments_split:
  "segments (CHR ''/'' # cs) = map pathUnescape (butlast (split_slash cs))
     @ [if last (split_slash cs) = [] then ''/'' else pathUnescape (last (split_slash cs))]"
proof (induction "length cs" arbitrary: cs rule: less_induct)
  case less
  show ?case
  proof (cases "dropWhile no_slash cs")
    case Nil
    then have all: "takeWhile no_slash cs = cs" by (metis append_Nil2 takeWhile_dropWhile_id)
    then have "split_slash cs = [cs]" using split_slash_step [of cs] Nil by simp
    with all show ?thesis by (subst segments.simps) (simp add: Nil firstSegment_def segments.simps [of "[]"] del: takeWhile_eq_all_conv)
  next
    case (Cons d ds)
    then have "length ds < length cs" by (metis length_dropWhile_le length_Cons Suc_le_eq)
    moreover have "split_slash cs = takeWhile no_slash cs # split_slash ds" using split_slash_step [of cs] Cons by simp
    ultimately show ?thesis using less [of ds] Cons hd_dropWhile_slash [OF Cons]
      by (subst segments.simps) (auto simp: firstSegment_def)
  qed
qed

definition plain_segment :: "string \<Rightarrow> bool" where
  "plain_segment s \<longleftrightarrow> s \<noteq> [] \<and> s \<noteq> ''.'' \<and> s \<noteq> ''..''"

lemma pathUnescape_dots: "pathUnescape [] = []" "pathUnescape ''.'' = ''.''" "pathUnescape ''..'' = ''..''"
  by (simp_all add: pathUnescape_def)

lemma plain_segment_unescape: "plain_segment (pathUnescape s) \<Longrightarrow> plain_segment s"
  using pathUnescape_dots by (auto simp: plain_segment_def)

lemma foldl_clean: "list_all plain_segment segs \<Longrightarrow> foldl clean_segment acc segs = acc @ segs"
  by (induction segs arbitrary: acc) (simp_all add: clean_segment_def plain_segment_def)

lemma cleanPath_plain:
  assumes "list_all plain_segment (split_slash cs)"
  shows "cleanPath (CHR ''/'' # cs) = CHR ''/'' # cs"
proof -
  have "split_slash (CHR ''/'' # cs) = [] # split_slash cs" by (simp add: no_slash_def)
  then have clean: "Clean (CHR ''/'' # cs) = CHR ''/'' # cs"
    using foldl_clean [OF assms, of "[]"] by (simp add: Clean_def clean_segment_def rooted_split)
  have "no_slash (last (CHR ''/'' # cs))"
  proof -
    let ?s = "last (split_slash cs)"
    have s: "?s \<noteq> []" "list_all no_slash ?s"
      using assms split_slash_plain [of cs] by (auto simp: list_all_iff plain_segment_def)
    obtain ss where ss: "split_slash cs = ss @ [?s]" by (metis append_butlast_last_id split_slash_not_Nil)
    have "last (CHR ''/'' # cs) = last (rooted (ss @ [?s]))" by (metis rooted_split ss)
    then have "last (CHR ''/'' # cs) = last ?s" using s(1) by (simp add: rooted_def last_ConsR del: last.simps)
    then show ?thesis using s by (simp add: list_all_iff)
  qed
  with clean show ?thesis by (simp add: cleanPath_def no_slash_def)
qed

lemma batch_raw_segments:
  assumes "segments (CHR ''/'' # cs) = [''api'', ''v1'', ''riders'', ''batch'']"
  shows "map pathUnescape (split_slash cs) = [''api'', ''v1'', ''riders'', ''batch'']"
proof -
  have last: "last (split_slash cs) \<noteq> []" using assms unfolding segments_split by (auto split: if_splits)
  have "map pathUnescape (split_slash cs) = map pathUnescape (butlast (split_slash cs)) @ [pathUnescape (last (split_slash cs))]"
    by (metis append_butlast_last_id split_slash_not_Nil list.map map_append)
  with last show ?thesis using assms unfolding segments_split by simp
qed

lemma batch_path_clean:
  assumes "segments (CHR ''/'' # cs) = [''api'', ''v1'', ''riders'', ''batch'']"
  shows "cleanPath (CHR ''/'' # cs) = CHR ''/'' # cs"
proof (rule cleanPath_plain)
  have "map pathUnescape (split_slash cs) = [''api'', ''v1'', ''riders'', ''batch'']"
    by (rule batch_raw_segments [OF assms])
  then have "list_all plain_segment (map pathUnescape (split_slash cs))" by (simp add: plain_segment_def)
  then show "list_all plain_segment (split_slash cs)"
    using plain_segment_unescape by (auto simp: list_all_iff)
qed

lemma cleanPath_rooted: "cleanPath p = p \<Longrightarrow> \<exists>cs. p = CHR ''/'' # cs"
proof -
  assume p: "cleanPath p = p"
  have "Clean q \<noteq> [] \<and> hd (Clean q) = CHR ''/''" for q
    by (auto simp: Clean_def Let_def rooted_def neq_Nil_conv)
  then have "cleanPath p \<noteq> [] \<and> hd (cleanPath p) = CHR ''/''"
    by (auto simp: cleanPath_def Let_def no_slash_def)
  with p show ?thesis by (metis list.collapse)
qed

lemma findHandler_None:
  "findHandler rq = None \<longleftrightarrow> rq_Method rq = ''POST'' \<and> (\<exists>cs. rq_Path rq = CHR ''/'' # cs)
     \<and> segments (rq_Path rq) = [''api'', ''v1'', ''riders'', ''batch'']"
proof -
  have "cleanPath (rq_Path rq) = rq_Path rq \<longleftrightarrow> (\<exists>cs. rq_Path rq = CHR ''/'' # cs)"
    if "segments (rq_Path rq) = [''api'', ''v1'', ''riders'', ''batch'']"
    using that batch_path_clean cleanPath_rooted by metis
  then show ?thesis by (auto simp: findHandler_def batch_pattern_def batch_segments Let_def)
qed

text \<open>Without escapes there is one spelling.\<close>

lemma PathUnescape_plain: "CHR ''%'' \<notin> set s \<Longrightarrow> PathUnescape s = Some s"
  by (induction s) auto

lemma split_slash_chars: "s \<in> set (split_slash cs) \<Longrightarrow> set s \<subseteq> insert (CHR ''/'') (set cs)"
  using arg_cong [OF rooted_split [of cs], of set] by (auto simp: rooted_def)

lemma segments_plain:
  assumes "CHR ''%'' \<notin> set cs" "segments (CHR ''/'' # cs) = [''api'', ''v1'', ''riders'', ''batch'']"
  shows "CHR ''/'' # cs = ''/api/v1/riders/batch''"
proof -
  have "CHR ''%'' \<notin> set s" if "s \<in> set (split_slash cs)" for s using split_slash_chars [OF that] assms(1) by auto
  then have "map pathUnescape (split_slash cs) = split_slash cs"
    using PathUnescape_plain by (intro map_idI) (simp add: pathUnescape_def)
  then have "split_slash cs = [''api'', ''v1'', ''riders'', ''batch'']"
    using batch_raw_segments [OF assms(2)] by simp
  then show ?thesis using rooted_split [of cs] by (simp add: rooted_def)
qed

section \<open>Properties\<close>

text \<open>
  C25: routing.  A request reaches the batch handler exactly when it is a \<^verbatim>\<open>POST\<close> for a path whose segments, unescaped, are
  those of the pattern.  Every other request is answered by the multiplexer without a look at the body
  or the store; for paths without escapes, that is 405 with the field \<^verbatim>\<open>Allow: POST\<close> for the path of the pattern,
  a redirection to the clean path for one that is not clean, and 404 for the rest.
\<close>

theorem batch_route:
  "(ServeHTTP numCPU cfg st c rq = map_sum Inr id (serve_batch numCPU cfg st c (rq_Body rq)) \<longleftrightarrow>
      rq_RequestURI rq \<noteq> ''*'' \<and> rq_Method rq = ''POST'' \<and> (\<exists>cs. rq_Path rq = CHR ''/'' # cs)
      \<and> segments (rq_Path rq) = [''api'', ''v1'', ''riders'', ''batch''])
    \<and> (rq_RequestURI rq \<noteq> ''*'' \<and> rq_Method rq \<notin> {''POST'', ''CONNECT''} \<and> CHR ''%'' \<notin> set (rq_Path rq) \<longrightarrow>
         ServeHTTP numCPU cfg st c rq = Inl (Inl
           (if rq_Path rq = ''/api/v1/riders/batch'' then MethodNotAllowed [''POST'']
            else if cleanPath (rq_Path rq) = rq_Path rq then PageNotFound
            else MovedPermanently (cleanPath (rq_Path rq)))))"
proof
  have "Inl (Inl m) \<noteq> map_sum Inr id r" for r :: "go_value response + ('a, go_value) pool" and m :: mux_reply
    by (cases r) simp_all
  then show "ServeHTTP numCPU cfg st c rq = map_sum Inr id (serve_batch numCPU cfg st c (rq_Body rq)) \<longleftrightarrow>
      rq_RequestURI rq \<noteq> ''*'' \<and> rq_Method rq = ''POST'' \<and> (\<exists>cs. rq_Path rq = CHR ''/'' # cs)
      \<and> segments (rq_Path rq) = [''api'', ''v1'', ''riders'', ''batch'']"
    unfolding findHandler_None [symmetric] ServeHTTP_def by (cases "findHandler rq") simp_all
  have at: "segments (rq_Path rq) = [''api'', ''v1'', ''riders'', ''batch''] \<longleftrightarrow> rq_Path rq = ''/api/v1/riders/batch''"
    if pc: "CHR ''%'' \<notin> set (rq_Path rq)" and cl: "cleanPath (rq_Path rq) = rq_Path rq"
  proof
    obtain cs where cs: "rq_Path rq = CHR ''/'' # cs" using cleanPath_rooted [OF cl] by blast
    then have "CHR ''%'' \<notin> set cs" using pc by simp
    then show "segments (rq_Path rq) = [''api'', ''v1'', ''riders'', ''batch''] \<Longrightarrow> rq_Path rq = ''/api/v1/riders/batch''"
      unfolding cs by (rule segments_plain)
  qed (simp only: batch_segments)
  have "cleanPath ''/api/v1/riders/batch'' = ''/api/v1/riders/batch''" using batch_path_clean batch_segments by blast
  then show "rq_RequestURI rq \<noteq> ''*'' \<and> rq_Method rq \<notin> {''POST'', ''CONNECT''} \<and> CHR ''%'' \<notin> set (rq_Path rq) \<longrightarrow>
         ServeHTTP numCPU cfg st c rq = Inl (Inl
           (if rq_Path rq = ''/api/v1/riders/batch'' then MethodNotAllowed [''POST'']
            else if cleanPath (rq_Path rq) = rq_Path rq then PageNotFound
            else MovedPermanently (cleanPath (rq_Path rq))))"
    using at by (auto simp: ServeHTTP_def findHandler_def batch_pattern_def batch_segments Let_def)
qed

theorem batch_route_witness:
  "ServeHTTP 4 example_config () None \<lparr>rq_Method = ''GET'', rq_RequestURI = ''/api/v1/riders/batch'', rq_Path = ''/api/v1/riders/batch'', rq_Body = []\<rparr>
     = Inl (Inl (MethodNotAllowed [''POST'']))"
  using batch_route [of 4 example_config "()" None
      "\<lparr>rq_Method = ''GET'', rq_RequestURI = ''/api/v1/riders/batch'', rq_Path = ''/api/v1/riders/batch'', rq_Body = []\<rparr>"]
  by simp

end
