(* ===== verification/Service.thy ===== *)
theory Service
  imports Batch Http
begin

text \<open>
  The server with all its requests.  \<^verbatim>\<open>net/http\<close> calls the handler in a goroutine of its own for every request, and all
  runs of the worker pool call the one storage engine of the server.  The state is the store and, for each
  request in the order of arrival, what it was answered at once or the run that was started for it; a step is the arrival of a
  request or a step of one run on the shared store.  A panic in any goroutine ends the process.
  The locale \<open>shared_engine\<close> adds to the contract of a keyed store what sharing needs, and shows once for both engines
  that requests which do not write to each other's keys cannot tell that they are not alone.
\<close>

section \<open>The service\<close>

record 's service =
  shared :: 's
  requests :: "((mux_reply + go_value response) + ('s, go_value) pool) list"

datatype service_event = Arrive ctx_err http_request | At nat event

definition crashed :: "'s service \<Rightarrow> bool" where
  "crashed sv \<longleftrightarrow> list_ex (\<lambda>r. case r of Inl _ \<Rightarrow> False | Inr p \<Rightarrow> panicked p) (requests sv)"

fun service_step ::
  "nat \<Rightarrow> ServerConfig \<Rightarrow> ('s, go_value) StorageEngine \<Rightarrow> service_event \<Rightarrow> 's service \<Rightarrow> 's service option" where
  "service_step numCPU cfg eng (Arrive c rq) sv =
     (if crashed sv then None
      else Some (sv\<lparr>requests := requests sv @ [ServeHTTP numCPU cfg (shared sv) c rq]\<rparr>))"
| "service_step numCPU cfg eng (At i e) sv =
     (if crashed sv \<or> length (requests sv) \<le> i then None
      else case requests sv ! i of
        Inl _ \<Rightarrow> None
      | Inr p \<Rightarrow>
          (case pool_step eng e (p\<lparr>store := shared sv\<rparr>) of
             None \<Rightarrow> None
           | Some p' \<Rightarrow> Some (sv\<lparr>shared := store p', requests := (requests sv)[i := Inr p']\<rparr>)))"

fun service_run ::
  "nat \<Rightarrow> ServerConfig \<Rightarrow> ('s, go_value) StorageEngine \<Rightarrow> service_event list \<Rightarrow> 's service \<Rightarrow> 's service option" where
  "service_run numCPU cfg eng [] sv = Some sv"
| "service_run numCPU cfg eng (e # es) sv =
     (case service_step numCPU cfg eng e sv of None \<Rightarrow> None | Some sv' \<Rightarrow> service_run numCPU cfg eng es sv')"

inductive service_reach ::
  "nat \<Rightarrow> ServerConfig \<Rightarrow> ('s, go_value) StorageEngine \<Rightarrow> 's service \<Rightarrow> 's service \<Rightarrow> bool"
  for numCPU :: nat and cfg :: ServerConfig and eng :: "('s, go_value) StorageEngine" and sv0 :: "'s service" where
  start: "service_reach numCPU cfg eng sv0 sv0"
| step: "service_reach numCPU cfg eng sv0 sv \<Longrightarrow> service_step numCPU cfg eng e sv = Some sv' \<Longrightarrow>
    service_reach numCPU cfg eng sv0 sv'"

definition idle_service :: "'s \<Rightarrow> 's service" where
  "idle_service st = \<lparr>shared = st, requests = []\<rparr>"

lemma service_step_At:
  assumes "service_step numCPU cfg eng (At i e) sv = Some sv'"
  obtains p p' where "i < length (requests sv)" "requests sv ! i = Inr p"
    "pool_step eng e (p\<lparr>store := shared sv\<rparr>) = Some p'"
    "shared sv' = store p'" "requests sv' = (requests sv)[i := Inr p']"
  using assms by (auto split: if_splits sum.splits option.splits)

lemma service_step_Arrive:
  assumes "service_step numCPU cfg eng (Arrive c rq) sv = Some sv'"
  shows "shared sv' = shared sv" "requests sv' = requests sv @ [ServeHTTP numCPU cfg (shared sv) c rq]"
  using assms by (auto split: if_splits)

section \<open>What every request keeps\<close>

definition request_inv :: "nat \<Rightarrow> (mux_reply + go_value response) + ('s, go_value) pool \<Rightarrow> bool" where
  "request_inv numCPU r \<longleftrightarrow> (case r of Inl _ \<Rightarrow> True
     | Inr p \<Rightarrow> (\<exists>h. h \<noteq> [] \<and> pool_inv h p \<and> order_ok h p \<and> exit_inv p) \<and> (0 < numCPU \<longrightarrow> workers p \<noteq> []))"

definition service_inv :: "nat \<Rightarrow> 's service \<Rightarrow> bool" where
  "service_inv numCPU sv \<longleftrightarrow> list_all (request_inv numCPU) (requests sv)"

lemma service_inv_idle [simp]: "service_inv numCPU (idle_service st)"
  by (simp add: service_inv_def idle_service_def)

lemma map_sum_Inr: "map_sum f id r = Inr y \<longleftrightarrow> r = Inr y"
  by (cases r) simp_all

lemma ServeHTTP_Inr:
  assumes "ServeHTTP numCPU cfg st c rq = Inr s0"
  shows "\<exists>items. Decode (MaxBytesReader (MaxBodyBytes cfg) (rq_Body rq)) = Inr items
    \<and> handleBatch_start numCPU cfg st c (Inr items) = Inr s0"
proof -
  have start: "handleBatch_start numCPU cfg st c (Decode (MaxBytesReader (MaxBodyBytes cfg) (rq_Body rq))) = Inr s0"
    using assms by (simp add: ServeHTTP_def serve_batch_def withMaxBody_def map_sum_Inr split: if_splits option.splits)
  then obtain items where "Decode (MaxBytesReader (MaxBodyBytes cfg) (rq_Body rq)) = Inr items"
    by (rule handleBatch_start_Inr)
  with start show ?thesis by simp
qed

lemma request_inv_start: "request_inv numCPU (ServeHTTP numCPU cfg st c rq)"
proof (cases "ServeHTTP numCPU cfg st c rq")
  case (Inr s0)
  obtain items where items: "handleBatch_start numCPU cfg st c (Inr items) = Inr s0"
    using ServeHTTP_Inr [OF Inr] by blast
  show ?thesis
  proof (rule handler_run [OF items pool_reach.start])
    fix ops h assume "ops \<noteq> []" "length h = length ops" "pool_inv h s0" "order_ok h s0" "exit_inv s0"
      "0 < numCPU \<Longrightarrow> workers s0 \<noteq> []"
    with Inr show ?thesis by (auto simp: request_inv_def intro!: exI [of _ h])
  qed
qed (simp add: request_inv_def)

lemma request_inv_step:
  assumes "request_inv numCPU (Inr p)" "pool_step eng e (p\<lparr>store := st\<rparr>) = Some p'"
  shows "request_inv numCPU (Inr p')"
proof -
  obtain h where h: "h \<noteq> []" "pool_inv h (p\<lparr>store := st\<rparr>)" "order_ok h (p\<lparr>store := st\<rparr>)" "exit_inv (p\<lparr>store := st\<rparr>)"
    and w: "0 < numCPU \<Longrightarrow> workers p \<noteq> []"
    using assms(1) by (auto simp: request_inv_def)
  have "workers p' \<noteq> []" if "0 < numCPU"
    using pool_step_workers [OF assms(2)] w [OF that] by (metis length_0_conv pool.select_convs(7) pool.surjective pool.update_convs(2))
  with h(1) pool_inv_step [OF h(2) assms(2)] order_ok_step [OF h(2,3) assms(2)] exit_inv_step [OF h(4) assms(2)]
  show ?thesis by (auto simp: request_inv_def)
qed

lemma service_inv_step:
  assumes inv: "service_inv numCPU sv" and step: "service_step numCPU cfg eng e sv = Some sv'"
  shows "service_inv numCPU sv'"
proof (cases e)
  case (Arrive c rq)
  with service_step_Arrive [OF step [unfolded Arrive]] inv show ?thesis
    by (simp add: service_inv_def request_inv_start)
next
  case (At i ev)
  obtain p p' where p: "i < length (requests sv)" "requests sv ! i = Inr p"
    "pool_step eng ev (p\<lparr>store := shared sv\<rparr>) = Some p'" "requests sv' = (requests sv)[i := Inr p']"
    using service_step_At [OF step [unfolded At]] by metis
  have "request_inv numCPU (Inr p)" using inv p(1,2) by (metis list_all_length service_inv_def)
  then have "request_inv numCPU (Inr p')" using p(3) by (rule request_inv_step)
  with inv p(1,4) show ?thesis
    by (auto simp: service_inv_def list_all_length nth_list_update)
qed

lemma service_inv_reach: "service_reach numCPU cfg eng sv0 sv \<Longrightarrow> service_inv numCPU sv0 \<Longrightarrow> service_inv numCPU sv"
  by (induction rule: service_reach.induct) (auto intro: service_inv_step)


text \<open>A property of the store that every storage call keeps holds in every state of the server.\<close>

lemma service_reach_store:
  assumes reach: "service_reach numCPU cfg eng sv0 sv" and start: "P (shared sv0)"
    and ops: "\<And>c k st st' r. P st \<Longrightarrow> se_Get eng c k st = (st', r) \<Longrightarrow> P st'"
      "\<And>c k v st st' err. P st \<Longrightarrow> se_Set eng c k v st = (st', err) \<Longrightarrow> P st'"
      "\<And>c k st st' err. P st \<Longrightarrow> se_Delete eng c k st = (st', err) \<Longrightarrow> P st'"
  shows "P (shared sv)"
  using reach
proof (induction rule: service_reach.induct)
  case (step sv e sv')
  show ?case
  proof (cases e)
    case (Arrive c rq)
    with service_step_Arrive [OF step.hyps(2) [unfolded Arrive]] step.IH show ?thesis by simp
  next
    case (At j ev)
    obtain q q' where "pool_step eng ev (q\<lparr>store := shared sv\<rparr>) = Some q'" and sv': "shared sv' = store q'"
      using service_step_At [OF step.hyps(2) [unfolded At]] by metis
    then have run: "pool_reach eng (q\<lparr>store := shared sv\<rparr>) q'" using pool_reach.step [OF pool_reach.start] by blast
    have "P (store (q\<lparr>store := shared sv\<rparr>))" using step.IH by simp
    then show ?thesis unfolding sv' by (rule pool_reach_store [OF run]) (fact ops)+
  qed
qed (rule start)

section \<open>Interference\<close>

text \<open>What a step of the service leaves of the requests that were there before.\<close>

definition request_le :: "('s, go_value) pool \<Rightarrow> ('s, go_value) pool \<Rightarrow> bool" where
  "request_le p q \<longleftrightarrow> length (heap q) = length (heap p) \<and> set (executed p) \<subseteq> set (executed q)
     \<and> (\<forall>n < length (heap p). Key (heap q ! n) = Key (heap p ! n) \<and> Type (heap q ! n) = Type (heap p ! n))"

lemma request_le_refl [simp]: "request_le p p"
  by (simp add: request_le_def)

lemma request_le_trans: "request_le p q \<Longrightarrow> request_le q r \<Longrightarrow> request_le p r"
  by (auto simp: request_le_def)

lemma service_step_le:
  assumes inv: "service_inv numCPU sv" and step: "service_step numCPU cfg eng e sv = Some sv'"
    and j: "j < length (requests sv)"
  shows "j < length (requests sv')
    \<and> (case requests sv ! j of Inl r \<Rightarrow> requests sv' ! j = Inl r
       | Inr p \<Rightarrow> \<exists>q. requests sv' ! j = Inr q \<and> request_le p q)"
proof (cases e)
  case (Arrive c rq)
  with service_step_Arrive [OF step [unfolded Arrive]] j show ?thesis
    by (simp add: nth_append split: sum.split)
next
  case (At i ev)
  obtain p p' where p: "i < length (requests sv)" "requests sv ! i = Inr p"
    "pool_step eng ev (p\<lparr>store := shared sv\<rparr>) = Some p'" "requests sv' = (requests sv)[i := Inr p']"
    using service_step_At [OF step [unfolded At]] by metis
  have "request_inv numCPU (Inr p)" using inv p(1,2) by (metis list_all_length service_inv_def)
  then obtain h where "pool_inv h (p\<lparr>store := shared sv\<rparr>)" by (auto simp: request_inv_def)
  from pool_step_fields [OF this p(3)] have "request_le p p'" by (simp add: request_le_def)
  with p j show ?thesis by (cases "i = j") (simp_all split: sum.split)
qed

lemma service_reach_le:
  assumes reach: "service_reach numCPU cfg eng sv0 sv" and inv: "service_inv numCPU sv0" and j: "j < length (requests sv0)"
    and p: "requests sv0 ! j = Inr p"
  shows "j < length (requests sv) \<and> (\<exists>q. requests sv ! j = Inr q \<and> request_le p q)"
  using reach
proof (induction rule: service_reach.induct)
  case (step sv e sv')
  then obtain q where q: "requests sv ! j = Inr q" "request_le p q" "j < length (requests sv)" by blast
  from service_step_le [OF service_inv_reach [OF step.hyps(1) inv] step.hyps(2) q(3)] q
  show ?case by (auto dest: request_le_trans)
qed (use p j in simp)

text \<open>
  A request is undisturbed on \<open>K\<close> between two states if the writes of the others to keys in \<open>K\<close>
  had all been executed in the earlier state.
\<close>

definition undisturbed :: "string set \<Rightarrow> nat \<Rightarrow> 's service \<Rightarrow> 's service \<Rightarrow> bool" where
  "undisturbed K i sv0 sv \<longleftrightarrow>
     (\<forall>j q n. j < length (requests sv) \<and> j \<noteq> i \<and> requests sv ! j = Inr q \<and> n < length (heap q)
        \<and> writes (Type (heap q ! n)) \<and> Key (heap q ! n) \<in> K \<longrightarrow>
        j < length (requests sv0) \<and> (\<exists>q0. requests sv0 ! j = Inr q0 \<and> n \<in> set (executed q0)))"

definition service_keys :: "string set \<Rightarrow> 's service \<Rightarrow> bool" where
  "service_keys keys sv \<longleftrightarrow>
     (\<forall>j q n. j < length (requests sv) \<and> requests sv ! j = Inr q \<and> n < length (heap q) \<longrightarrow> Key (heap q ! n) \<in> keys)"

lemma before_step:
  assumes inv: "service_inv numCPU sv" and step: "service_step numCPU cfg eng e sv = Some sv'"
  shows "undisturbed K i sv0 sv' \<Longrightarrow> undisturbed K i sv0 sv" "service_keys keys sv' \<Longrightarrow> service_keys keys sv"
proof -
  have *: "\<exists>q'. requests sv' ! j = Inr q' \<and> length (heap q') = length (heap q) \<and> j < length (requests sv')
      \<and> Key (heap q' ! n) = Key (heap q ! n) \<and> Type (heap q' ! n) = Type (heap q ! n)"
    if "j < length (requests sv)" "requests sv ! j = Inr q" "n < length (heap q)" for j q n
    using service_step_le [OF inv step that(1)] that(2,3) by (auto simp: request_le_def)
  show "undisturbed K i sv0 sv' \<Longrightarrow> undisturbed K i sv0 sv" unfolding undisturbed_def
    using * by metis
  show "service_keys keys sv' \<Longrightarrow> service_keys keys sv" unfolding service_keys_def
    using * by metis
qed


section \<open>Isolation\<close>

text \<open>
  The run of request \<open>i\<close>, started in \<open>sv0\<close>, while other requests run and arrive: as long as its context is
  live, it is in step with the sequential run from the store in which it started.
\<close>

definition in_step ::
  "('s, go_value) StorageEngine \<Rightarrow> ('s \<Rightarrow> bool) \<Rightarrow> ('s \<Rightarrow> string \<Rightarrow> 'c) \<Rightarrow> string set \<Rightarrow> (go_value any \<Rightarrow> go_value any)
     \<Rightarrow> go_value Operation list \<Rightarrow> go_value heap \<Rightarrow> nat \<Rightarrow> 's service \<Rightarrow> 's service \<Rightarrow> bool" where
  "in_step eng invar view K nrm ops h i sv0 sv \<longleftrightarrow> invar (shared sv) \<and> i < length (requests sv)
     \<and> (\<exists>p. requests sv ! i = Inr p \<and> pool_inv h p
          \<and> (ctx p = None \<longrightarrow> serial_inv eng invar view K nrm (shared sv0) ops h (p\<lparr>store := shared sv\<rparr>)))"

text \<open>An engine that several requests share: a call under a context that has ended changes nothing.\<close>

locale shared_engine = khaos_engine build eng invar view keys norm
  for build :: "go_value Operation list \<Rightarrow> error + (go_value heap \<times> ptr list \<times> ptr list)"
    and eng :: "('s, go_value) StorageEngine"
    and invar :: "'s \<Rightarrow> bool"
    and view :: "'s \<Rightarrow> string \<Rightarrow> 'c"
    and keys :: "string set"
    and norm :: "go_value any \<Rightarrow> go_value any" +
  assumes get_ended: "fst (se_Get eng (Some c) k s) = s"
    and set_ended: "fst (se_Set eng (Some c) k v s) = s"
    and delete_ended: "fst (se_Delete eng (Some c) k s) = s"
begin

lemma exec_ended: "fst (executeNode eng (Some c) s op) = s"
  using get_ended [of c "Key op" s] set_ended [of c "Key op" "Value op" s] delete_ended [of c "Key op" s]
  by (auto simp: executeNode_def split: prod.split option.split)

lemma engine_on: "K \<subseteq> keys \<Longrightarrow> khaos_engine build eng invar view K norm"
proof (intro khaos_engine.intro keyed_storage.intro hazard_resolver_axioms, goal_cases)
  case (1 s k s' r)
  then show ?case using get_frame [of s k s' r] by blast
next
  case (2 s t k)
  then show ?case using get_local [of s t k] by blast
next
  case (3 s k v s' e)
  then show ?case using set_frame [of s k v s' e] by blast
next
  case (4 s t k v)
  then show ?case using set_local [of s t k v] by blast
next
  case (5 s k s' e)
  then show ?case using delete_frame [of s k s' e] by blast
next
  case (6 s t k)
  then show ?case using delete_local [of s t k] by blast
qed

text \<open>A step of any request keeps the invariant and every key it has no pending write to.\<close>

lemma step_frame:
  assumes inv: "pool_inv h q" and step: "pool_step eng e q = Some q'" and st: "invar (store q)"
    and dom: "\<And>n. n < length (heap q) \<Longrightarrow> Key (heap q ! n) \<in> keys"
  shows "invar (store q') \<and> (\<forall>k \<in> keys. (\<forall>n < length (heap q). n \<notin> set (executed q) \<and> writes (Type (heap q ! n))
      \<longrightarrow> Key (heap q ! n) \<noteq> k) \<longrightarrow> view (store q') k = view (store q) k)"
proof (cases "\<exists>w n. e = Worker w Proceed \<and> w < length (workers q) \<and> workers q ! w = Execute n")
  case True
  then obtain w n where e: "e = Worker w Proceed" and w: "w < length (workers q)" "workers q ! w = Execute n"
    by blast
  have sched: "sched_inv h q" using inv by (simp add: pool_inv_def)
  have n: "n < length (heap q)" "n \<notin> set (executed q)"
    using execute_ready [OF sched w] sched_invD(1) [OF sched] by simp_all
  have st': "store q' = fst (executeNode eng (ctx q) (store q) (operation_of (heap q ! n)))"
    using pool_step_exec [OF step [unfolded e] w] by (metis executeNode_operation_of fst_conv)
  have key: "Key (operation_of (heap q ! n)) \<in> keys" using dom [OF n(1)] by simp
  show ?thesis
  proof (cases "ctx q")
    case None
    note frame = exec_frame [OF st key]
    have "view (store q') k = view (store q) k"
      if "k \<in> keys" "\<forall>n < length (heap q). n \<notin> set (executed q) \<and> writes (Type (heap q ! n)) \<longrightarrow> Key (heap q ! n) \<noteq> k" for k
    proof -
      have "k \<noteq> Key (heap q ! n) \<or> \<not> writes (Type (heap q ! n))" using that(2) n by auto
      then show ?thesis using frame that(1) unfolding st' None by simp
    qed
    then show ?thesis using frame unfolding st' None by blast
  next
    case (Some c)
    show ?thesis using st unfolding st' Some exec_ended by blast
  qed
next
  case False
  with pool_step_quiet [OF inv step] st show ?thesis by auto
qed

lemma serial_inv_store:
  assumes "serial_inv eng invar view K norm s0 ops h p" "invar st" "\<And>k. k \<in> K \<Longrightarrow> view st k = view (store p) k"
  shows "serial_inv eng invar view K norm s0 ops h (p\<lparr>store := st\<rparr>)"
  using assms by (simp add: serial_inv_def views_agree_def)

lemma in_step_own:
  assumes b: "build ops = Inr (h, all_nodes, runnable)" and s0: "invar (shared sv0)"
    and K: "K \<subseteq> keys" "batch_keys K ops"
    and inv: "in_step eng invar view K norm ops h i sv0 sv" and sk: "service_keys keys sv"
    and step: "service_step numCPU cfg eng (At i e) sv = Some sv'"
  shows "in_step eng invar view K norm ops h i sv0 sv'"
proof -
  obtain p p' where i: "i < length (requests sv)" and p: "requests sv ! i = Inr p"
    and st: "pool_step eng e (p\<lparr>store := shared sv\<rparr>) = Some p'"
    and sv': "shared sv' = store p'" "requests sv' = (requests sv)[i := Inr p']"
    using service_step_At [OF step] by metis
  let ?s = "p\<lparr>store := shared sv\<rparr>"
  have pool: "pool_inv h ?s" and ser: "ctx p = None \<Longrightarrow> serial_inv eng invar view K norm (shared sv0) ops h ?s"
    and sh: "invar (shared sv)"
    using inv p by (auto simp: in_step_def)
  have "Key (heap ?s ! n) \<in> keys" if "n < length (heap ?s)" for n
    using sk i p that by (simp add: service_keys_def)
  then have "invar (store p')" using step_frame [OF pool st] sh by simp
  moreover have "serial_inv eng invar view K norm (shared sv0) ops h p'" if live: "ctx p' = None"
  proof -
    have ctx: "ctx ?s = None" using pool_step_ctx [OF st live] .
    show ?thesis using khaos_engine.serial_inv_step [OF engine_on [OF K(1)] b s0 K(2) pool ser ctx st] ctx by simp
  qed
  moreover have "p'\<lparr>store := store p'\<rparr> = p'" by simp
  ultimately show ?thesis using pool_inv_step [OF pool st] i by (simp add: in_step_def sv')
qed

lemma in_step_other:
  assumes K: "K \<subseteq> keys" and inv: "in_step eng invar view K norm ops h i sv0 sv" "service_inv numCPU sv"
    and le: "\<And>j q0. j < length (requests sv0) \<Longrightarrow> requests sv0 ! j = Inr q0 \<Longrightarrow>
        \<exists>q. requests sv ! j = Inr q \<and> request_le q0 q"
    and sk: "service_keys keys sv" and und: "undisturbed K i sv0 sv"
    and step: "service_step numCPU cfg eng (At j e) sv = Some sv'" "j \<noteq> i"
  shows "in_step eng invar view K norm ops h i sv0 sv'"
proof -
  obtain q q' where j: "j < length (requests sv)" and q: "requests sv ! j = Inr q"
    and st: "pool_step eng e (q\<lparr>store := shared sv\<rparr>) = Some q'"
    and sv': "shared sv' = store q'" "requests sv' = (requests sv)[j := Inr q']"
    using service_step_At [OF step(1)] by metis
  have "request_inv numCPU (Inr q)" using inv(2) j q by (metis list_all_length service_inv_def)
  then obtain hq where hq: "pool_inv hq (q\<lparr>store := shared sv\<rparr>)" by (auto simp: request_inv_def)
  have "Key (heap (q\<lparr>store := shared sv\<rparr>) ! n) \<in> keys" if "n < length (heap (q\<lparr>store := shared sv\<rparr>))" for n
    using sk j q that by (simp add: service_keys_def)
  moreover have "invar (shared sv)" using inv(1) by (simp add: in_step_def)
  moreover have "Key (heap q ! n) \<noteq> k"
    if "k \<in> K" "n < length (heap q)" "n \<notin> set (executed q)" "writes (Type (heap q ! n))" for k n
  proof
    assume "Key (heap q ! n) = k"
    with und j q step(2) that obtain q0 where "j < length (requests sv0)" "requests sv0 ! j = Inr q0" "n \<in> set (executed q0)"
      unfolding undisturbed_def by metis
    with le q that(3) show False by (fastforce simp: request_le_def)
  qed
  ultimately have frame: "invar (store q')" "\<And>k. k \<in> K \<Longrightarrow> view (store q') k = view (shared sv) k"
    using step_frame [OF hq st] K by auto
  obtain p where p: "requests sv ! i = Inr p" "pool_inv h p" "i < length (requests sv)"
    and ser: "ctx p = None \<Longrightarrow> serial_inv eng invar view K norm (shared sv0) ops h (p\<lparr>store := shared sv\<rparr>)"
    using inv(1) by (auto simp: in_step_def)
  have "serial_inv eng invar view K norm (shared sv0) ops h (p\<lparr>store := store q'\<rparr>)" if "ctx p = None"
    using serial_inv_store [OF ser [OF that] frame(1)] frame(2) by simp
  with p frame(1) step(2) show ?thesis by (simp add: in_step_def sv')
qed

lemma in_step_reach:
  assumes b: "build ops = Inr (h, all_nodes, runnable)" and s0: "invar (shared sv0)"
    and K: "K \<subseteq> keys" "batch_keys K ops" and inv: "service_inv numCPU sv0"
    and i: "i < length (requests sv0)" "requests sv0 ! i = Inr (Run_start nw h runnable (shared sv0)
        (Some (Drain NewInOrderReorderBuffer (int (length ops)))) None)"
    and reach: "service_reach numCPU cfg eng sv0 sv" and sk: "service_keys keys sv" and und: "undisturbed K i sv0 sv"
  shows "in_step eng invar view K norm ops h i sv0 sv"
  using reach sk und
proof (induction rule: service_reach.induct)
  case start
  let ?p = "Run_start nw h runnable (shared sv0) (Some (Drain NewInOrderReorderBuffer (int (length ops)))) None"
  have same: "?p\<lparr>store := shared sv0\<rparr> = ?p" by (simp add: Run_start_def Let_def)
  have "pool_inv h ?p" by (rule build_pool_inv [OF b])
  moreover have "serial_inv eng invar view K norm (shared sv0) ops h ?p"
    by (rule khaos_engine.serial_inv_start [OF engine_on [OF K(1)] b s0 K(2)])
  ultimately show ?case using i s0 by (simp add: in_step_def same)
next
  case (step sv e sv')
  have si: "service_inv numCPU sv" using step.hyps(1) inv by (rule service_inv_reach)
  note before = before_step [OF si step.hyps(2)]
  have sk: "service_keys keys sv" and und: "undisturbed K i sv0 sv" using before step.prems by blast+
  then have IH: "in_step eng invar view K norm ops h i sv0 sv" by (rule step.IH)
  show ?case
  proof (cases e)
    case (Arrive c rq)
    with service_step_Arrive [OF step.hyps(2) [unfolded Arrive]] IH show ?thesis
      by (auto simp: in_step_def nth_append)
  next
    case (At j ev)
    have le: "\<exists>q. requests sv ! j = Inr q \<and> request_le q0 q" if "j < length (requests sv0)" "requests sv0 ! j = Inr q0" for j q0
      using service_reach_le [OF step.hyps(1) inv that] by blast
    show ?thesis
    proof (cases "j = i")
      case True
      then show ?thesis using in_step_own [OF b s0 K IH sk] step.hyps(2) At by blast
    next
      case False
      with in_step_other [OF K(1) IH si le sk und] step.hyps(2) At show ?thesis by blast
    qed
  qed
qed

text \<open>What an undisturbed request ends with.\<close>

lemma isolated_final:
  assumes b: "build ops = Inr (h, all_nodes, runnable)"
    and step: "in_step eng invar view K norm ops h i sv0 sv" and K: "K \<subseteq> keys"
    and p: "requests sv ! i = Inr p" and live: "ctx p = None"
  shows "drain p = DrainClosed \<Longrightarrow>
      map (norm_op norm) (received p) = map (norm_op norm) (snd (runSequential eng (shared sv0) ops))"
    and "length (executed p) = length ops \<Longrightarrow> k \<in> K \<Longrightarrow>
      view (shared sv) k = view (fst (runSequential eng (shared sv0) ops)) k"
proof -
  let ?s = "p\<lparr>store := shared sv\<rparr>"
  have inv: "pool_inv h ?s" "serial_inv eng invar view K norm (shared sv0) ops h ?s"
    using step p live by (auto simp: in_step_def)
  have len: "length h = length ops" using build_nodes [OF b] by simp
  note res = khaos_engine.serial_results [OF engine_on [OF K] inv(2,1) len]
  show "drain p = DrainClosed \<Longrightarrow>
      map (norm_op norm) (received p) = map (norm_op norm) (snd (runSequential eng (shared sv0) ops))"
    using res(1) by (auto simp: runSequential_eq)
  show "length (executed p) = length ops \<Longrightarrow> k \<in> K \<Longrightarrow>
      view (shared sv) k = view (fst (runSequential eng (shared sv0) ops)) k"
    using res(2) by simp
qed

end

interpretation shared_sharded: shared_engine Build ShardedMap_engine sm_invar sm_view UNIV id
  by unfold_locales (simp_all add: ShardedMap_engine_def sm_defs)

interpretation shared_rider: shared_engine Build "rider_engine uuid_in uuid_out" rider_invar "rider_view uuid_in"
    "canonical_keys uuid_in uuid_out" erase_time
  for uuid_in :: "string \<Rightarrow> 'u option" and uuid_out :: "'u \<Rightarrow> string"
  by unfold_locales (auto simp: pg_Get_def getQuery_def pg_Set_def setQuery_def pg_Delete_def deleteQuery_def
      split: sum.split)

section \<open>How much there is to do\<close>

definition request_fuel :: "go_value heap \<Rightarrow> (mux_reply + go_value response) + ('s, go_value) pool \<Rightarrow> nat" where
  "request_fuel h r = (case r of Inl _ \<Rightarrow> 0 | Inr p \<Rightarrow> fuel h p)"

definition budget :: "'s service \<Rightarrow> nat \<Rightarrow> bool" where
  "budget sv B \<longleftrightarrow> (\<exists>hs. (\<forall>i p. i < length (requests sv) \<and> requests sv ! i = Inr p \<longrightarrow> pool_inv (hs i) p)
     \<and> (\<Sum>i < length (requests sv). request_fuel (hs i) (requests sv ! i)) \<le> B)"

text \<open>The steps that a request may take: those of its batch, if it has one.\<close>

definition allowance :: "nat \<Rightarrow> ServerConfig \<Rightarrow> service_event \<Rightarrow> nat" where
  "allowance numCPU cfg e =
     (case e of At _ _ \<Rightarrow> 0
      | Arrive _ rq \<Rightarrow>
          (case Decode (MaxBytesReader (MaxBodyBytes cfg) (rq_Body rq)) of
             Inl _ \<Rightarrow> 0
           | Inr items \<Rightarrow> 12 * length items + 2 * NewConcurrentWorkerPool numCPU (WorkerCount cfg) + 2))"

definition is_At :: "service_event \<Rightarrow> bool" where
  "is_At e \<longleftrightarrow> (case e of At _ _ \<Rightarrow> True | Arrive _ _ \<Rightarrow> False)"

lemma budget_idle: "budget (idle_service st) 0"
  by (simp add: budget_def idle_service_def)

lemma budget_At:
  assumes bud: "budget sv B" and step: "service_step numCPU cfg eng (At i e) sv = Some sv'"
  shows "budget sv' (B - 1) \<and> 0 < B"
proof -
  obtain p p' where i: "i < length (requests sv)" and p: "requests sv ! i = Inr p"
    and st: "pool_step eng e (p\<lparr>store := shared sv\<rparr>) = Some p'" and sv': "requests sv' = (requests sv)[i := Inr p']"
    using service_step_At [OF step] by metis
  obtain hs where hs: "\<And>i p. i < length (requests sv) \<Longrightarrow> requests sv ! i = Inr p \<Longrightarrow> pool_inv (hs i) p"
    and le: "(\<Sum>i < length (requests sv). request_fuel (hs i) (requests sv ! i)) \<le> B"
    using bud by (auto simp: budget_def)
  have inv: "pool_inv (hs i) (p\<lparr>store := shared sv\<rparr>)" using hs [OF i p] by simp
  have less: "request_fuel (hs i) (requests sv' ! i) < request_fuel (hs i) (requests sv ! i)"
    using fuel_step [OF inv st] i p by (simp add: request_fuel_def sv')
  have "(\<Sum>j < length (requests sv'). request_fuel (hs j) (requests sv' ! j)) < (\<Sum>j < length (requests sv). request_fuel (hs j) (requests sv ! j))"
    unfolding sv' length_list_update
    by (rule sum_strict_mono_ex1) (use i less sv' in \<open>auto simp: nth_list_update\<close>)
  moreover have "pool_inv (hs j) q" if "j < length (requests sv')" "requests sv' ! j = Inr q" for j q
    using that hs pool_inv_step [OF inv st] i by (cases "j = i") (auto simp: sv')
  ultimately show ?thesis using le unfolding budget_def by (intro conjI exI [of _ hs]) auto
qed

lemma budget_Arrive:
  assumes bud: "budget sv B" and step: "service_step numCPU cfg eng (Arrive c rq) sv = Some sv'"
  shows "budget sv' (B + allowance numCPU cfg (Arrive c rq))"
proof -
  obtain hs where hs: "\<And>i p. i < length (requests sv) \<Longrightarrow> requests sv ! i = Inr p \<Longrightarrow> pool_inv (hs i) p"
    and le: "(\<Sum>i < length (requests sv). request_fuel (hs i) (requests sv ! i)) \<le> B"
    using bud by (auto simp: budget_def)
  let ?n = "length (requests sv)" and ?r = "ServeHTTP numCPU cfg (shared sv) c rq"
  have sv': "requests sv' = requests sv @ [?r]" using service_step_Arrive [OF step] by simp
  have "\<exists>h. (\<forall>p. ?r = Inr p \<longrightarrow> pool_inv h p) \<and> request_fuel h ?r \<le> allowance numCPU cfg (Arrive c rq)"
  proof (cases ?r)
    case (Inr p)
    obtain items where dec: "Decode (MaxBytesReader (MaxBodyBytes cfg) (rq_Body rq)) = Inr items"
      and start: "handleBatch_start numCPU cfg (shared sv) c (Inr items) = Inr p"
      using ServeHTTP_Inr [OF Inr] by blast
    show ?thesis
    proof (rule handler_run [OF start pool_reach.start])
      fix ops h all_nodes runnable
      assume tr: "translateRequest items = Inr ops" and b: "Build ops = Inr (h, all_nodes, runnable)"
        and p: "p = Run_start (NewConcurrentWorkerPool numCPU (WorkerCount cfg)) h runnable (shared sv)
          (Some (Drain NewInOrderReorderBuffer (int (length ops)))) c" and inv: "pool_inv h p"
      have "fuel h p \<le> 12 * length items + 2 * NewConcurrentWorkerPool numCPU (WorkerCount cfg) + 2"
        using fuel_start [OF b] translateRequest_length [OF tr] unfolding p by metis
      then show ?thesis using Inr inv dec by (intro exI [of _ h]) (simp add: request_fuel_def allowance_def)
    qed
  qed (simp add: request_fuel_def)
  then obtain h where h: "\<And>p. ?r = Inr p \<Longrightarrow> pool_inv h p" "request_fuel h ?r \<le> allowance numCPU cfg (Arrive c rq)" by blast
  have "(\<Sum>i < length (requests sv'). request_fuel ((hs(?n := h)) i) (requests sv' ! i))
      = (\<Sum>i < ?n. request_fuel (hs i) (requests sv ! i)) + request_fuel h ?r"
    by (simp add: sv' nth_append)
  moreover have "pool_inv ((hs(?n := h)) i) p" if "i < length (requests sv')" "requests sv' ! i = Inr p" for i p
    using that hs h(1) by (cases "i = ?n") (auto simp: sv' nth_append)
  ultimately show ?thesis using le h(2) unfolding budget_def by (intro exI [of _ "hs(?n := h)"]) auto
qed

lemma budget_run:
  "service_run numCPU cfg eng es sv = Some sv' \<Longrightarrow> budget sv B \<Longrightarrow>
     length (filter is_At es) \<le> B + (\<Sum>e \<leftarrow> es. allowance numCPU cfg e)
     \<and> budget sv' (B + (\<Sum>e \<leftarrow> es. allowance numCPU cfg e) - length (filter is_At es))"
proof (induction es arbitrary: sv B)
  case (Cons e es)
  then obtain sv1 where sv1: "service_step numCPU cfg eng e sv = Some sv1" "service_run numCPU cfg eng es sv1 = Some sv'"
    by (auto split: option.splits)
  show ?case
  proof (cases e)
    case (At i ev)
    have bud: "budget sv1 (B - 1)" "0 < B" using budget_At [OF Cons.prems(2) sv1(1) [unfolded At]] by simp_all
    from Cons.IH [OF sv1(2) bud(1)] bud(2) At show ?thesis by (cases B) (simp_all add: is_At_def allowance_def)
  next
    case (Arrive c rq)
    have "budget sv1 (B + allowance numCPU cfg e)" using budget_Arrive [OF Cons.prems(2) sv1(1) [unfolded Arrive]] Arrive by simp
    from Cons.IH [OF sv1(2) this] Arrive show ?thesis by (simp add: is_At_def add.assoc)
  qed
qed simp

lemma service_run_reach:
  "service_run numCPU cfg eng es sv = Some sv' \<Longrightarrow> service_reach numCPU cfg eng sv0 sv \<Longrightarrow> service_reach numCPU cfg eng sv0 sv'"
  by (induction es arbitrary: sv) (auto split: option.splits intro: service_reach.step)

text \<open>No request keeps another from going on, and all can be brought to an end.\<close>

lemma not_crashed: "service_inv numCPU sv \<Longrightarrow> \<not> crashed sv"
  by (auto simp: service_inv_def crashed_def list_all_iff list_ex_iff request_inv_def pool_inv_def sched_inv_def split: sum.splits)

lemma request_enabled:
  assumes "service_inv numCPU sv" "i < length (requests sv)" "requests sv ! i = Inr p" "pool_step eng e p \<noteq> None"
  shows "\<exists>sv'. service_step numCPU cfg eng (At i e) sv = Some sv'"
proof -
  obtain p' where "pool_step eng e (p\<lparr>store := shared sv\<rparr>) = Some p'" using assms(4) pool_step_enabled [of eng e "shared sv" p] by auto
  then show ?thesis using assms(2,3) not_crashed [OF assms(1)] by simp
qed

lemma not_quiescentD: "\<not> quiescent eng p \<Longrightarrow> \<exists>e. pool_step eng e p \<noteq> None \<and> no_cancel e"
  unfolding quiescent_def no_cancel_def by (metis event.case(1,2))

text \<open>Without a cancellation, every context stays live.\<close>

definition live :: "'s service \<Rightarrow> bool" where
  "live sv \<longleftrightarrow> (\<forall>p. Inr p \<in> set (requests sv) \<longrightarrow> ctx p = None)"

definition calm :: "service_event \<Rightarrow> bool" where
  "calm e \<longleftrightarrow> (case e of Arrive c rq \<Rightarrow> c = None | At i ev \<Rightarrow> no_cancel ev)"

definition settled :: "('s, go_value) StorageEngine \<Rightarrow> 's service \<Rightarrow> bool" where
  "settled eng sv \<longleftrightarrow> (\<forall>i p. i < length (requests sv) \<and> requests sv ! i = Inr p \<longrightarrow> quiescent eng p)"

lemma service_settles:
  assumes "budget sv B" "service_inv numCPU sv"
  shows "\<exists>es sv'. service_run numCPU cfg eng es sv = Some sv' \<and> settled eng sv'
    \<and> list_all is_At es \<and> list_all calm es"
  using assms
proof (induction B arbitrary: sv rule: less_induct)
  case (less B)
  show ?case
  proof (cases "settled eng sv")
    case True
    then show ?thesis by (intro exI [of _ "[]"] exI [of _ sv]) simp
  next
    case False
    then obtain i p where i: "i < length (requests sv)" "requests sv ! i = Inr p" and nq: "\<not> quiescent eng p"
      by (auto simp: settled_def)
    obtain e where e: "pool_step eng e p \<noteq> None" "no_cancel e" using not_quiescentD [OF nq] by blast
    obtain sv1 where sv1: "service_step numCPU cfg eng (At i e) sv = Some sv1"
      using request_enabled [OF less.prems(2) i e(1)] by blast
    have "budget sv1 (B - 1)" "B - 1 < B" using budget_At [OF less.prems(1) sv1] by simp_all
    from less.IH [OF this(2,1) service_inv_step [OF less.prems(2) sv1]] obtain es sv' where
      "service_run numCPU cfg eng es sv1 = Some sv'" "settled eng sv'" "list_all is_At es" "list_all calm es"
      by blast
    with sv1 e(2) show ?thesis by (intro exI [of _ "At i e # es"] exI [of _ sv']) (simp add: is_At_def [of "At i e"] calm_def [of "At i e"])
  qed
qed


lemma live_idle [simp]: "live (idle_service st)"
  by (simp add: live_def idle_service_def)

lemma live_step:
  assumes live: "live sv" and step: "service_step numCPU cfg eng e sv = Some sv'" and calm: "calm e"
  shows "live sv'"
proof (cases e)
  case (Arrive c rq)
  have "ctx p = None" if p: "ServeHTTP numCPU cfg (shared sv) c rq = Inr p" for p
  proof -
    obtain items where "handleBatch_start numCPU cfg (shared sv) c (Inr items) = Inr p" using ServeHTTP_Inr [OF p] by blast
    then have "ctx p = c" by (rule handleBatch_start_Inr) simp
    then show ?thesis using calm Arrive by (simp add: calm_def)
  qed
  then show ?thesis using service_step_Arrive(2) [OF step [unfolded Arrive]] live by (auto simp: live_def)
next
  case (At i ev)
  obtain p p' where p: "i < length (requests sv)" "requests sv ! i = Inr p"
    "pool_step eng ev (p\<lparr>store := shared sv\<rparr>) = Some p'" "requests sv' = (requests sv)[i := Inr p']"
    using service_step_At [OF step [unfolded At]] by metis
  have "pool_run eng [ev] (p\<lparr>store := shared sv\<rparr>) = Some p'" using p(3) by simp
  then have "ctx p' = ctx p" using pool_run_ctx [of eng "[ev]"] calm At by (fastforce simp: calm_def)
  moreover have "ctx p = None" using live p(1,2) by (metis live_def nth_mem)
  ultimately show ?thesis using live p(4) by (auto simp: live_def dest!: set_update_subset_insert [THEN subsetD])
qed

lemma live_run: "service_run numCPU cfg eng es sv = Some sv' \<Longrightarrow> live sv \<Longrightarrow> list_all calm es \<Longrightarrow> live sv'"
  by (induction es arbitrary: sv) (auto split: option.splits intro: live_step)

lemma service_run_append:
  "service_run numCPU cfg eng (es @ es') sv =
     (case service_run numCPU cfg eng es sv of None \<Rightarrow> None | Some sv' \<Rightarrow> service_run numCPU cfg eng es' sv')"
  by (induction es arbitrary: sv) (auto split: option.split)

lemma settled_live:
  "settled eng sv \<Longrightarrow> live sv \<Longrightarrow> i < length (requests sv) \<Longrightarrow> requests sv ! i = Inr p \<Longrightarrow> quiescent eng p \<and> ctx p = None"
  unfolding settled_def live_def by (metis nth_mem)

section \<open>A request among others\<close>

lemma service_reach_answered:
  "service_reach numCPU cfg eng sv0 sv \<Longrightarrow> service_inv numCPU sv0 \<Longrightarrow> j < length (requests sv0) \<Longrightarrow>
     requests sv0 ! j = Inl r \<Longrightarrow> requests sv ! j = Inl r \<and> j < length (requests sv)"
proof (induction rule: service_reach.induct)
  case (step sv e sv')
  then show ?case using service_step_le [OF service_inv_reach [OF step.hyps(1) step.prems(1)] step.hyps(2), of j] by auto
qed simp

text \<open>The state in which a batch that later runs has arrived.\<close>

lemma arrival_started:
  assumes inv: "service_inv numCPU sv" and arrive: "service_step numCPU cfg eng (Arrive c rq) sv = Some sv0"
    and body: "Decode (MaxBytesReader (MaxBodyBytes cfg) (rq_Body rq)) = Inr items" and tr: "translateRequest items = Inr ops"
    and s0: "ServeHTTP numCPU cfg (shared sv) c rq = Inr s0"
  obtains h all_nodes runnable where "Build ops = Inr (h, all_nodes, runnable)" "ops \<noteq> []"
    "length (requests sv) < length (requests sv0)"
    "requests sv0 ! length (requests sv) = Inr (Run_start (NewConcurrentWorkerPool numCPU (WorkerCount cfg)) h runnable (shared sv0)
        (Some (Drain NewInOrderReorderBuffer (int (length ops)))) c)"
    "shared sv0 = shared sv" "service_inv numCPU sv0"
proof -
  note sv0 = service_step_Arrive [OF arrive]
  have inv0: "service_inv numCPU sv0" by (rule service_inv_step [OF inv arrive])
  have start: "handleBatch_start numCPU cfg (shared sv) c (Inr items) = Inr s0"
    using ServeHTTP_Inr [OF s0] body by simp
  show thesis
  proof (rule handler_run [OF start pool_reach.start])
    fix ops' h all_nodes runnable
    assume *: "translateRequest items = Inr ops'" "Build ops' = Inr (h, all_nodes, runnable)" "ops' \<noteq> []"
      "s0 = Run_start (NewConcurrentWorkerPool numCPU (WorkerCount cfg)) h runnable (shared sv)
          (Some (Drain NewInOrderReorderBuffer (int (length ops')))) c"
    then have "ops' = ops" using tr by simp
    with * show thesis using that s0 sv0 inv0 by simp
  qed
qed

lemma arrival_runs:
  assumes inv: "service_inv numCPU sv" and arrive: "service_step numCPU cfg eng (Arrive c rq) sv = Some sv0"
    and reach: "service_reach numCPU cfg eng sv0 sv1" and p: "requests sv1 ! length (requests sv) = Inr p"
  obtains s0 where "ServeHTTP numCPU cfg (shared sv) c rq = Inr s0"
proof -
  note sv0 = service_step_Arrive [OF arrive]
  have "length (requests sv) < length (requests sv0)"
    "requests sv0 ! length (requests sv) = ServeHTTP numCPU cfg (shared sv) c rq" by (simp_all add: sv0)
  with service_reach_answered [OF reach service_inv_step [OF inv arrive]] p that
  show thesis by (cases "ServeHTTP numCPU cfg (shared sv) c rq") auto
qed

context shared_engine
begin

lemma request_isolated:
  assumes b: "build ops = Inr (h, all_nodes, runnable)" and s0: "invar (shared sv0)" and ne: "ops \<noteq> []" and cpu: "0 < numCPU"
    and K: "K \<subseteq> keys" "batch_keys K ops" and inv: "service_inv numCPU sv0"
    and i: "i < length (requests sv0)" "requests sv0 ! i = Inr (Run_start nw h runnable (shared sv0)
        (Some (Drain NewInOrderReorderBuffer (int (length ops)))) None)"
    and reach: "service_reach numCPU cfg eng sv0 sv" and sk: "service_keys keys sv" and und: "undisturbed K i sv0 sv"
    and p: "requests sv ! i = Inr p" "quiescent eng p" "ctx p = None"
  shows "handleBatch_finish p = Some (WriteJSON 200 (map response_item (received p)))
    \<and> map (norm_op norm) (received p) = map (norm_op norm) (snd (runSequential eng (shared sv0) ops))
    \<and> (\<forall>k \<in> K. view (shared sv) k = view (fst (runSequential eng (shared sv0) ops)) k)"
proof -
  have step: "in_step eng invar view K norm ops h i sv0 sv" by (rule in_step_reach [OF b s0 K inv i reach sk und])
  then have "i < length (requests sv)" "pool_inv h p" using p(1) by (auto simp: in_step_def)
  moreover have "request_inv numCPU (Inr p)"
    using service_inv_reach [OF reach inv] p(1) calculation(1) by (metis list_all_length service_inv_def)
  ultimately have pool: "pool_inv h p" "exit_inv p" "workers p \<noteq> []" using cpu by (auto simp: request_inv_def)
  have len: "length h = length ops" using build_nodes [OF b] by simp
  note fin = quiescent_final [OF pool(1,2) p(2) pool(3)]
  have done_all: "length (executed p) = length ops" "drain p = DrainClosed" "Run_return p = Some None"
    using fin(1,3) p(3) len by auto
  then have "handleBatch_finish p = Some (WriteJSON 200 (map response_item (received p)))"
    by (simp add: handleBatch_finish_def)
  with isolated_final [OF b step K(1) p(1,3)] done_all show ?thesis by blast
qed

end

end
