(* ===== verification/Load.thy ===== *)
theory Load
  imports Clients Service
begin

text \<open>
  The load simulator against the server: all clients of a run of \<^verbatim>\<open>src/cmd/simulator/main.go\<close> at once, each with the
  body that it marshals, against a server over PostgreSQL that executes the batches concurrently on one table.
\<close>

section \<open>Arrivals\<close>

definition arrivals :: "service_event list \<Rightarrow> (ctx_err \<times> http_request) list" where
  "arrivals es = [(c, rq). Arrive c rq \<leftarrow> es]"

lemma arrivals_simps [simp]:
  "arrivals [] = []" "arrivals (Arrive c rq # es) = (c, rq) # arrivals es" "arrivals (At i e # es) = arrivals es"
  by (simp_all add: arrivals_def)

lemma service_step_length:
  assumes "service_step numCPU cfg eng e sv = Some sv'"
  shows "length (requests sv') = length (requests sv) + (if is_At e then 0 else 1)"
  using assms by (cases e) (auto simp: is_At_def split: if_splits sum.splits option.splits)

lemma service_run_arrival:
  assumes "service_run numCPU cfg eng es sv = Some sv'" "j < length (arrivals es)" "arrivals es ! j = (c, rq)"
  obtains es1 es2 sva svb where "service_run numCPU cfg eng es1 sv = Some sva"
    "length (requests sva) = length (requests sv) + j"
    "service_step numCPU cfg eng (Arrive c rq) sva = Some svb" "service_run numCPU cfg eng es2 svb = Some sv'"
  using assms
proof (induction es arbitrary: sv j thesis)
  case (Cons e es)
  then obtain sv1 where sv1: "service_step numCPU cfg eng e sv = Some sv1" "service_run numCPU cfg eng es sv1 = Some sv'"
    by (auto split: option.splits)
  show ?case
  proof (cases e)
    case (At i ev)
    obtain es1 es2 sva svb where *: "service_run numCPU cfg eng es1 sv1 = Some sva" "length (requests sva) = length (requests sv1) + j"
      "service_step numCPU cfg eng (Arrive c rq) sva = Some svb" "service_run numCPU cfg eng es2 svb = Some sv'"
      using Cons.IH [OF _ sv1(2)] Cons.prems(3,4) At by (metis arrivals_simps(3))
    moreover have "length (requests sv1) = length (requests sv)" using service_step_length [OF sv1(1)] At by (simp add: is_At_def)
    moreover have "service_run numCPU cfg eng (e # es1) sv = Some sva" using sv1(1) *(1) by simp
    ultimately show ?thesis using Cons.prems(1) by metis
  next
    case (Arrive c' rq')
    show ?thesis
    proof (cases j)
      case 0
      then show ?thesis using Cons.prems(1) [of "[]" sv sv1 es] sv1 Cons.prems(4) Arrive by auto
    next
      case (Suc j')
      obtain es1 es2 sva svb where *: "service_run numCPU cfg eng es1 sv1 = Some sva" "length (requests sva) = length (requests sv1) + j'"
        "service_step numCPU cfg eng (Arrive c rq) sva = Some svb" "service_run numCPU cfg eng es2 svb = Some sv'"
        using Cons.IH [OF _ sv1(2), of j'] Cons.prems(3,4) Arrive Suc by (metis arrivals_simps(2) length_Cons not_less_eq nth_Cons_Suc)
      moreover have "length (requests sv1) = Suc (length (requests sv))" using service_step_length [OF sv1(1)] Arrive by (simp add: is_At_def)
      moreover have "service_run numCPU cfg eng (e # es1) sv = Some sva" using sv1(1) *(1) by simp
      ultimately show ?thesis using Cons.prems(1) Suc by (metis add_Suc_shift)
    qed
  qed
qed simp

lemma service_run_length:
  "service_run numCPU cfg eng es sv = Some sv' \<Longrightarrow> length (requests sv') = length (requests sv) + length (arrivals es)"
proof (induction es arbitrary: sv)
  case (Cons e es)
  then obtain sv1 where sv1: "service_step numCPU cfg eng e sv = Some sv1" "service_run numCPU cfg eng es sv1 = Some sv'"
    by (auto split: option.splits)
  from Cons.IH [OF sv1(2)] service_step_length [OF sv1(1)] show ?case by (cases e) (simp_all add: is_At_def)
qed simp

section \<open>What a simulated batch does\<close>

definition batch_request :: "string \<Rightarrow> http_request" where
  "batch_request body = \<lparr>rq_Method = ''POST'', rq_RequestURI = ''/api/v1/riders/batch'', rq_Path = ''/api/v1/riders/batch'', rq_Body = body\<rparr>"

lemma ServeHTTP_batch: "ServeHTTP numCPU cfg st c (batch_request body) = map_sum Inr id (serve_batch numCPU cfg st c body)"
proof -
  have "findHandler (batch_request body) = None" by (simp add: findHandler_None batch_request_def batch_segments)
  then show ?thesis by (simp add: ServeHTTP_def batch_request_def)
qed

definition sim_ops :: "bool \<Rightarrow> rng \<Rightarrow> int \<Rightarrow> int \<Rightarrow> go_value Operation list" where
  "sim_ops fma rng batchSize clientID = map (\<lambda>i. sim_op (build_item fma rng clientID i)) [0..<nat batchSize]"

lemma sim_write_view:
  assumes "rng_ok rng" "reads_simulated uuid_in" "0 \<le> c * 1000 + int i" "c * 1000 + int i < 10 ^ 12"
    and p_def: "p = sim_op (build_item fma rng c i)"
  shows "rider_view uuid_in (fst (pg_Set (rider_stmts uuid_in uuid_out) None (Key p) (Value p) d)) (Key p)
    = update_row uuid_in 0 (wire_payload (the (it_Payload (build_item fma rng c i))))"
proof -
  let ?u = "wire_payload (the (it_Payload (build_item fma rng c i)))"
  have acc: "accepted (Value p) ?u" using sim_payload(1) [OF assms(1) refl, of fma c i] by (simp add: p_def sim_op_def)
  obtain d' where set: "pg_Set (rider_stmts uuid_in uuid_out) None (Key p) (Value p) d = (d', None)"
    using sim_write_succeeds [OF assms(1-4) p_def] by (metis prod.collapse)
  then have "setQuery uuid_in None (Key p) (OrderID ?u) (Latitude ?u) (Longitude ?u) (CurrentStatus ?u) (ETAMinutes ?u) d = (d', None)"
    unfolding pg_Set_accepted [OF acc] by (auto split: prod.splits)
  then have "rider_view uuid_in d' (Key p) = update_row uuid_in 0 ?u"
    unfolding setQuery_update_row
    by (auto simp: rider_view_def next_stmt_def update_row_def split: option.splits if_splits)
  then show ?thesis by (simp add: set)
qed

lemma sim_ops_stored:
  assumes "rng_ok rng" "reads_simulated uuid_in" "prints_simulated uuid_in uuid_out" and d: "rider_invar d"
    and size: "0 \<le> c" "c * 1000 + batchSize \<le> 10 ^ 12" and i: "i < nat batchSize"
  shows "rider_view uuid_in (fst (runSequential (rider_engine uuid_in uuid_out) d (sim_ops fma rng batchSize c))) (it_RiderID (build_item fma rng c i))
    = update_row uuid_in 0 (wire_payload (the (it_Payload (build_item fma rng c i))))"
proof -
  let ?eng = "rider_engine uuid_in uuid_out" and ?ops = "sim_ops fma rng batchSize c" and ?keys = "canonical_keys uuid_in uuid_out"
  have range: "0 \<le> c * 1000 + int j" "c * 1000 + int j < 10 ^ 12" if "j < nat batchSize" for j
    using size that by linarith+
  have nth: "?ops ! j = sim_op (build_item fma rng c j)" if "j < nat batchSize" for j using that by (simp add: sim_ops_def)
  have len: "length ?ops = nat batchSize" by (simp add: sim_ops_def)
  have key: "Key (?ops ! j) = it_RiderID (build_item fma rng c j)" if "j < nat batchSize" for j using nth [OF that] by (simp add: sim_op_def)
  have can: "Key (?ops ! j) \<in> ?keys" if "j < nat batchSize" for j
    using sim_keys_canonical [OF range [OF that] assms(3), of fma rng] key [OF that] by (simp add: wire_item_def)
  then have bk: "batch_keys ?keys ?ops" by (simp add: batch_keys_def len)
  have skip: "\<not> writer ?ops (Key (?ops ! i)) j" if "Suc i \<le> j" "j < length ?ops" for j
  proof -
    have j: "j < nat batchSize" using that(2) by (simp add: len)
    have "it_RiderID (build_item fma rng c i) \<noteq> it_RiderID (build_item fma rng c j)"
      using range [OF i] range [OF j] that(1) by (subst rider_id_eq) simp_all
    then show ?thesis using key [OF i] key [OF j] by (simp add: writer_def)
  qed
  have "rider_view uuid_in (fst (runSequential ?eng d ?ops)) (Key (?ops ! i)) = rider_view uuid_in (seq_state ?eng d ?ops (Suc i)) (Key (?ops ! i))"
    unfolding runSequential_eq fst_conv
    by (rule rider.seq_state_skip [OF d bk can [OF i] order_refl]) (use i len skip in simp_all)
  also have "\<dots> = rider_view uuid_in (fst (pg_Set (rider_stmts uuid_in uuid_out) None (Key (?ops ! i)) (Value (?ops ! i)) (seq_state ?eng d ?ops i))) (Key (?ops ! i))"
    using nth [OF i] by (simp add: executeNode_def sim_op_def split: prod.split option.split)
  also have "\<dots> = update_row uuid_in 0 (wire_payload (the (it_Payload (build_item fma rng c i))))"
    unfolding nth [OF i] by (rule sim_write_view [OF assms(1,2) range [OF i] refl])
  finally show ?thesis using key [OF i] by simp
qed

lemma sim_echo:
  assumes rng: "rng_ok rng" and uuid: "reads_simulated uuid_in" and size: "0 \<le> c" "c * 1000 + batchSize \<le> 10 ^ 12"
    and same: "map (norm_op erase_time) rs = map (norm_op erase_time) (snd (runSequential (rider_engine uuid_in uuid_out) d (sim_ops fma rng batchSize c)))"
  shows "those (map (response_json ft other Error) (map response_item rs)) = Some (map echo_json (map (build_item fma rng c) [0..<nat batchSize]))"
proof -
  let ?eng = "rider_engine uuid_in uuid_out" and ?ops = "sim_ops fma rng batchSize c"
  have range: "0 \<le> c * 1000 + int i" "c * 1000 + int i < 10 ^ 12" if "i < nat batchSize" for i
    using size that by linarith+
  have w: "\<forall>p \<in> set ?ops. Type p = OpWrite \<and> (\<forall>d. snd (se_Set ?eng None (Key p) (Value p) d) = None)"
    "\<forall>p \<in> set ?ops. \<exists>u. Value p = Some (GoRiderUpdate u)"
    unfolding sim_ops_def using sim_write_succeeds [OF rng uuid range refl] by (auto simp: sim_op_def)
  have echo: "map (norm_op erase_time) (map (\<lambda>p. p\<lparr>Result := Value p\<rparr>) ?ops) = map (\<lambda>p. p\<lparr>Result := Value p\<rparr>) ?ops"
    using w(2) by (auto simp: norm_op_def erase_time_def)
  have "rs = map (\<lambda>p. p\<lparr>Result := Value p\<rparr>) ?ops"
    by (rule norm_echo [OF _ w(2)]) (simp only: same writes_echo_seq [OF w(1)] echo)
  then have "map (response_json ft other Error) (map response_item rs) = map (Some \<circ> echo_json) (map (build_item fma rng c) [0..<nat batchSize])"
    using response_echo [OF rng refl] by (simp add: sim_ops_def)
  then show ?thesis by (simp only: those_map_Some)
qed

section \<open>All clients at once\<close>

text \<open>The \<open>j\<close>-th request of a server that only simulated clients call, from its arrival on.\<close>

lemma client_started:
  assumes rng: "rng_ok rng" and size: "0 \<le> c" "0 < batchSize" "c * 1000 + batchSize \<le> 10 ^ 12"
    and items: "items = map (build_item fma rng c) [0..<nat batchSize]"
    and fits: "int (length (sim_body items)) \<le> MaxBodyBytes cfg"
    and inv: "service_inv numCPU sva" and arrive: "service_step numCPU cfg eng (Arrive None (batch_request (sim_body items))) sva = Some svb"
  obtains h all_nodes runnable where "Build (sim_ops fma rng batchSize c) = Inr (h, all_nodes, runnable)" "sim_ops fma rng batchSize c \<noteq> []"
    "length (requests sva) < length (requests svb)"
    "requests svb ! length (requests sva) = Inr (Run_start (NewConcurrentWorkerPool numCPU (WorkerCount cfg)) h runnable (shared svb)
        (Some (Drain NewInOrderReorderBuffer (int (length (sim_ops fma rng batchSize c))))) None)"
    "shared svb = shared sva" "service_inv numCPU svb"
proof -
  have n: "nat batchSize < 2 ^ 63" using size by (simp add: nat_less_iff)
  have build: "buildBatch fma rng batchSize c = Some items" using size(2) by (simp add: buildBatch_def items)
  have dec: "Decode (MaxBytesReader (MaxBodyBytes cfg) (rq_Body (batch_request (sim_body items)))) = Inr (map wire_item items)"
    using sim_body_decoded [OF rng build fits, of "[]"] by (simp add: batch_request_def)
  have tr: "translateRequest (map wire_item items) = Inr (sim_ops fma rng batchSize c)"
    using translate_sim_batch [OF n] by (simp add: items sim_ops_def)
  have "map wire_item items \<noteq> []" "length (map wire_item items) \<le> 2 ^ 63" using size(2) n by (simp_all add: items)
  then obtain s0 where "handleBatch_start numCPU cfg (shared sva) None (Inr (map wire_item items)) = Inr s0"
    using handler_starts [OF _ tr, of numCPU cfg "shared sva" None] by blast
  then have "serve_batch numCPU cfg (shared sva) None (sim_body items) = Inr s0"
    using dec by (simp add: serve_batch_def withMaxBody_def batch_request_def)
  then have "ServeHTTP numCPU cfg (shared sva) None (batch_request (sim_body items)) = Inr s0"
    by (simp add: ServeHTTP_batch)
  from arrival_started [OF inv arrive dec tr this] show thesis using that by blast
qed

lemma client_keys:
  assumes build: "Build (sim_ops fma rng batchSize c) = Inr (h, all_nodes, runnable)"
    and le: "request_le (Run_start nw h runnable st rb ct) q" and n: "n < length (heap q)"
  shows "n < nat batchSize" "Key (heap q ! n) = it_RiderID (build_item fma rng c n)"
proof -
  have len: "length h = nat batchSize" using Build_facts(1) [OF build] by (simp add: sim_ops_def)
  with le n show lt: "n < nat batchSize" by (simp add: request_le_def)
  have "Key (heap q ! n) = Key (h ! n)" using le lt len by (simp add: request_le_def)
  also have "\<dots> = Key (sim_ops fma rng batchSize c ! n)"
    using Build_facts(5) [OF build, of n] lt by (metis diff_zero length_map length_upt operation_of_simps(2) sim_ops_def)
  finally show "Key (heap q ! n) = it_RiderID (build_item fma rng c n)" using lt by (simp add: sim_ops_def sim_op_def)
qed

text \<open>One client of the load: its arrival, and what it is in a later state.\<close>

lemma load_arrival:
  assumes rng: "rng_ok rng" and size: "0 \<le> c" "0 < batchSize" "c * 1000 + batchSize \<le> 10 ^ 12"
    and items: "buildBatch fma rng batchSize c = Some items" and fits: "int (length (sim_body items)) \<le> MaxBodyBytes cfg"
    and run: "service_run numCPU cfg eng es (idle_service d) = Some sv"
    and arr: "j < length (arrivals es)" "arrivals es ! j = (None, batch_request (sim_body items))"
  obtains sva svb h all_nodes runnable q where "service_reach numCPU cfg eng (idle_service d) sva"
    "Build (sim_ops fma rng batchSize c) = Inr (h, all_nodes, runnable)" "sim_ops fma rng batchSize c \<noteq> []"
    "shared svb = shared sva" "service_inv numCPU svb" "j < length (requests svb)"
    "requests svb ! j = Inr (Run_start (NewConcurrentWorkerPool numCPU (WorkerCount cfg)) h runnable (shared svb)
        (Some (Drain NewInOrderReorderBuffer (int (length (sim_ops fma rng batchSize c))))) None)"
    "service_reach numCPU cfg eng svb sv" "j < length (requests sv)" "requests sv ! j = Inr q"
    "\<forall>n < length (heap q). n < nat batchSize \<and> Key (heap q ! n) = it_RiderID (build_item fma rng c n)"
proof -
  have its: "items = map (build_item fma rng c) [0..<nat batchSize]" using items size(2) by (simp add: buildBatch_def)
  obtain es1 es2 sva svb where *: "service_run numCPU cfg eng es1 (idle_service d) = Some sva"
    "length (requests sva) = length (requests (idle_service d)) + j"
    "service_step numCPU cfg eng (Arrive None (batch_request (sim_body items))) sva = Some svb"
    "service_run numCPU cfg eng es2 svb = Some sv"
    by (rule service_run_arrival [OF run arr])
  have r: "service_reach numCPU cfg eng (idle_service d) sva" "service_reach numCPU cfg eng svb sv"
    using service_run_reach [OF *(1) service_reach.start] service_run_reach [OF *(4) service_reach.start] .
  have si: "service_inv numCPU sva" using service_inv_reach [OF r(1)] by simp
  have j: "length (requests sva) = j" using *(2) by (simp add: idle_service_def)
  obtain h all_nodes runnable where b: "Build (sim_ops fma rng batchSize c) = Inr (h, all_nodes, runnable)" "sim_ops fma rng batchSize c \<noteq> []"
    and l: "j < length (requests svb)"
    and q0: "requests svb ! j = Inr (Run_start (NewConcurrentWorkerPool numCPU (WorkerCount cfg)) h runnable (shared svb)
        (Some (Drain NewInOrderReorderBuffer (int (length (sim_ops fma rng batchSize c))))) None)"
    and svb: "shared svb = shared sva" "service_inv numCPU svb"
    using client_started [OF rng size its fits si *(3)] unfolding j by blast
  obtain q where q: "requests sv ! j = Inr q" "j < length (requests sv)" "request_le (Run_start (NewConcurrentWorkerPool numCPU (WorkerCount cfg)) h runnable (shared svb)
        (Some (Drain NewInOrderReorderBuffer (int (length (sim_ops fma rng batchSize c))))) None) q"
    using service_reach_le [OF r(2) svb(2) l q0] by blast
  show thesis using that [OF r(1) b svb l q0 r(2) q(2,1)] client_keys [OF b(1) q(3)] by blast
qed

lemma load_disjoint:
  assumes "0 \<le> c" "0 \<le> c'" "c \<noteq> c'" "c * 1000 + n \<le> 10 ^ 12" "c' * 1000 + n \<le> 10 ^ 12" "n \<le> 1000" "i < nat n" "i' < nat n"
  shows "it_RiderID (build_item fma rng c i) \<noteq> it_RiderID (build_item fma rng' c' i')"
proof -
  have "c * 1000 + int i \<noteq> c' * 1000 + int i'" using assms(3,6-8) by linarith
  moreover have "0 \<le> c * 1000 + int i" "c * 1000 + int i < 10 ^ 12" "0 \<le> c' * 1000 + int i'" "c' * 1000 + int i' < 10 ^ 12"
    using assms by linarith+
  ultimately show ?thesis by (subst rider_id_eq) simp_all
qed

text \<open>The batches of a load touch the riders of their own client, in canonical spelling, and no others.\<close>

lemma load_service_keys:
  assumes len: "length (requests sv) = length cs" and uuid: "prints_simulated uuid_in uuid_out"
    and range: "\<forall>c \<in> set cs. 0 \<le> c \<and> c * 1000 + batchSize \<le> 10 ^ 12"
    and keys: "\<And>j q n. j < length cs \<Longrightarrow> requests sv ! j = Inr q \<Longrightarrow> n < length (heap q) \<Longrightarrow>
      n < nat batchSize \<and> Key (heap q ! n) = it_RiderID (build_item fma (rng (cs ! j)) (cs ! j) n)"
  shows "service_keys (canonical_keys uuid_in uuid_out) sv"
proof -
  have "it_RiderID (build_item fma (rng (cs ! j)) (cs ! j) n) \<in> canonical_keys uuid_in uuid_out" if "j < length cs" "n < nat batchSize" for j n
    using sim_keys_canonical [of "cs ! j" n uuid_in uuid_out fma "rng (cs ! j)"] range nth_mem [OF that(1)] that(2) uuid
    by (fastforce simp: wire_item_def)
  with keys show ?thesis unfolding service_keys_def len by metis
qed

lemma load_undisturbed:
  assumes len: "length (requests sv) = length cs" and j: "j < length cs" and dist: "distinct cs" and size: "batchSize \<le> 1000"
    and range: "\<forall>c \<in> set cs. 0 \<le> c \<and> c * 1000 + batchSize \<le> 10 ^ 12"
    and keys: "\<And>j q n. j < length cs \<Longrightarrow> requests sv ! j = Inr q \<Longrightarrow> n < length (heap q) \<Longrightarrow>
      n < nat batchSize \<and> Key (heap q ! n) = it_RiderID (build_item fma (rng (cs ! j)) (cs ! j) n)"
  shows "undisturbed (Key ` set (sim_ops fma (rng (cs ! j)) batchSize (cs ! j))) j svb sv"
proof -
  have c: "0 \<le> cs ! i" "cs ! i * 1000 + batchSize \<le> 10 ^ 12" if "i < length cs" for i using range nth_mem [OF that] by auto
  have "Key (heap q ! n) \<notin> Key ` set (sim_ops fma (rng (cs ! j)) batchSize (cs ! j))"
    if "i < length cs" "i \<noteq> j" "requests sv ! i = Inr q" "n < length (heap q)" for i q n
    using keys [OF that(1,3,4)] load_disjoint [OF c(1) [OF that(1)] c(1) [OF j] _ c(2) [OF that(1)] c(2) [OF j] size]
      nth_eq_iff_index_eq [OF dist that(1) j] that(2) by (auto simp: sim_ops_def sim_op_def)
  then show ?thesis unfolding undisturbed_def len by blast
qed

lemma load_client:
  assumes rng: "rng_ok rng" and uuid: "reads_simulated uuid_in" "prints_simulated uuid_in uuid_out"
    and size: "0 \<le> c" "c * 1000 + batchSize \<le> 10 ^ 12" and cpu: "0 < numCPU" and inv: "rider_invar (shared sv0)" "service_inv numCPU sv0"
    and b: "Build (sim_ops fma rng batchSize c) = Inr (h, all_nodes, runnable)" "sim_ops fma rng batchSize c \<noteq> []"
    and j: "j < length (requests sv0)" "requests sv0 ! j = Inr (Run_start nw h runnable (shared sv0)
           (Some (Drain NewInOrderReorderBuffer (int (length (sim_ops fma rng batchSize c))))) None)"
    and reach: "service_reach numCPU cfg (rider_engine uuid_in uuid_out) sv0 sv" and sk: "service_keys (canonical_keys uuid_in uuid_out) sv"
    and und: "undisturbed (Key ` set (sim_ops fma rng batchSize c)) j sv0 sv"
    and p: "requests sv ! j = Inr p" "quiescent (rider_engine uuid_in uuid_out) p" "ctx p = None"
    and items: "items = map (build_item fma rng c) [0..<nat batchSize]"
  shows "\<exists>resp a. handleBatch_finish p = Some resp \<and> respond ft other Error resp = Some a
      \<and> ans_status a = 200 \<and> ans_body a = Marshal (JArr (map echo_json items)) @ [CHR 0x0A]
      \<and> (\<forall>it \<in> set items. rider_view uuid_in (shared sv) (it_RiderID it) = update_row uuid_in 0 (wire_payload (the (it_Payload it))))"
proof -
  let ?eng = "rider_engine uuid_in uuid_out" and ?ops = "sim_ops fma rng batchSize c"
  have key: "Key ` set ?ops = (\<lambda>i. it_RiderID (build_item fma rng c i)) ` {..<nat batchSize}"
    by (simp add: sim_ops_def sim_op_def image_image lessThan_atLeast0)
  have "it_RiderID (build_item fma rng c i) \<in> canonical_keys uuid_in uuid_out" if "i < nat batchSize" for i
    using sim_keys_canonical [of c i uuid_in uuid_out fma rng] size that uuid(2) by (simp add: wire_item_def)
  then have K: "Key ` set ?ops \<subseteq> canonical_keys uuid_in uuid_out" unfolding key by auto
  have bk: "batch_keys (Key ` set ?ops) ?ops" by (simp add: batch_keys_def)
  note iso = shared_rider.request_isolated [OF b(1) inv(1) b(2) cpu K bk inv(2) j reach sk und p]
  have "those (map (response_json ft other Error) (map response_item (received p))) = Some (map echo_json items)"
    unfolding items by (rule sim_echo [OF rng uuid(1) size]) (use iso in blast)
  moreover have "rider_view uuid_in (shared sv) (it_RiderID it) = update_row uuid_in 0 (wire_payload (the (it_Payload it)))" if it: "it \<in> set items" for it
  proof -
    obtain i where i: "it = build_item fma rng c i" "i < nat batchSize" using it by (auto simp: items)
    then have "it_RiderID it \<in> Key ` set ?ops" unfolding key by blast
    then have "rider_view uuid_in (shared sv) (it_RiderID it) = rider_view uuid_in (fst (runSequential ?eng (shared sv0) ?ops)) (it_RiderID it)"
      using iso by blast
    then show ?thesis using sim_ops_stored [OF rng uuid inv(1) size i(2), of fma] by (simp only: i(1))
  qed
  ultimately show ?thesis using iso by (simp add: writeJSON_def)
qed

section \<open>Loads that come to an end\<close>

lemma load_runs:
  obtains es sv where "service_run numCPU cfg eng es (idle_service d) = Some sv" "arrivals es = map (Pair None) rqs" "settled eng sv" "live sv"
proof -
  have arrive: "\<exists>sv'. service_run numCPU cfg eng (map (Arrive None) rqs) sv = Some sv'" if "service_inv numCPU sv" for sv
    using that
  proof (induction rqs arbitrary: sv)
    case (Cons rq rqs)
    obtain sv1 where "service_step numCPU cfg eng (Arrive None rq) sv = Some sv1"
      using not_crashed [OF Cons.prems] by simp
    with Cons.IH [OF service_inv_step [OF Cons.prems this]] show ?case by simp
  qed simp
  obtain sv1 where sv1: "service_run numCPU cfg eng (map (Arrive None) rqs) (idle_service d) = Some sv1"
    using arrive [OF service_inv_idle, of d] by blast
  have bud: "\<exists>B. budget sv1 B" using budget_run [OF sv1 budget_idle] by blast
  have inv: "service_inv numCPU sv1" using service_inv_reach [OF service_run_reach [OF sv1 service_reach.start]] by simp
  obtain es sv where es: "service_run numCPU cfg eng es sv1 = Some sv" "settled eng sv" "list_all is_At es" "list_all calm es"
    using bud service_settles [OF _ inv, of _ cfg eng] by blast
  have "arrivals (map (Arrive None) rqs @ es) = map (Pair None) rqs"
  proof -
    have "arrivals es = []" using es(3) by (induction es) (auto simp: is_At_def arrivals_def split: service_event.splits)
    then show ?thesis by (induction rqs) simp_all
  qed
  moreover have "list_all calm (map (Arrive None) rqs @ es)" using es(4) by (auto simp: list_all_iff calm_def)
  moreover have "service_run numCPU cfg eng (map (Arrive None) rqs @ es) (idle_service d) = Some sv"
    using sv1 es(1) by (simp add: service_run_append)
  ultimately show thesis using that live_run live_idle es(2) by metis
qed

text \<open>Two clients with two updates each.\<close>

definition load_config :: ServerConfig where
  "load_config = NewServer (example_config\<lparr>MaxBodyBytes := 0\<rparr>)"

definition load_items :: "int \<Rightarrow> batchRequestItem list" where
  "load_items c = map (build_item True example_rng c) [0..<2]"

lemma load_facts:
  "rng_ok example_rng" "buildBatch True example_rng 2 c = Some (load_items c)"
  "0 \<le> c \<Longrightarrow> c \<le> 8 \<Longrightarrow> int (length (sim_body (load_items c))) \<le> MaxBodyBytes load_config"
proof -
  show rng: "rng_ok example_rng" by (simp add: rng_ok_def example_rng_def)
  show items: "buildBatch True example_rng 2 c = Some (load_items c)" by (simp add: buildBatch_def load_items_def)
  show "0 \<le> c \<Longrightarrow> c \<le> 8 \<Longrightarrow> int (length (sim_body (load_items c))) \<le> MaxBodyBytes load_config"
    using sim_body_length [OF rng _ _ _ _ items] by (simp add: load_config_def NewServer_def orDefault_def)
qed

end
