(* ===== verification/Shard_Locks.thy ===== *)
theory Shard_Locks
  imports Storage
begin

text \<open>
  The locking inside \<^verbatim>\<open>ShardedMap\<close> of \<^verbatim>\<open>src/storage.go\<close>.  Elsewhere a call of the store is one atomic step; here it is
  taken apart into what a goroutine does one after the other: the check of the context, \<^verbatim>\<open>RLock\<close> or \<^verbatim>\<open>Lock\<close> of the shard, the
  access to the built-in map, which is not atomic, and the unlocking.  The Go runtime ends the process when a write to a map overlaps
  another access to it.  It is shown that this does not happen, that the calls do not block each
  other for ever, and that they are linearizable: results and store are those of the atomic calls, one after the other in the
  order in which they had their effect.
\<close>

section \<open>The mutex of a shard\<close>

text \<open>
  A \<^verbatim>\<open>sync.RWMutex\<close>: a writer first announces itself, which only one can and which keeps new readers out, and
  has the lock when the readers that were inside have left.
\<close>

record rwmutex =
  announced :: bool
  readers :: nat

section \<open>Calls and goroutines\<close>

datatype 'v call = CallGet string | CallSet string "'v any" | CallDelete string

datatype 'v ret = RetGet "'v any" bool ctx_err | RetErr ctx_err

fun call_key :: "'v call \<Rightarrow> string" where
  "call_key (CallGet k) = k"
| "call_key (CallSet k _) = k"
| "call_key (CallDelete k) = k"

fun is_write :: "'v call \<Rightarrow> bool" where
  "is_write (CallGet _) = False"
| "is_write (CallSet _ _) = True"
| "is_write (CallDelete _) = True"

text \<open>A whole call as one step.\<close>

fun atomic_call :: "'v call \<Rightarrow> ctx_err \<Rightarrow> 'v ShardedMap \<Rightarrow> 'v ShardedMap \<times> 'v ret" where
  "atomic_call (CallGet k) c sm = (case sm_Get c k sm of (sm', v, ok, err) \<Rightarrow> (sm', RetGet v ok err))"
| "atomic_call (CallSet k x) c sm = (case sm_Set c k x sm of (sm', err) \<Rightarrow> (sm', RetErr err))"
| "atomic_call (CallDelete k) c sm = (case sm_Delete c k sm of (sm', err) \<Rightarrow> (sm', RetErr err))"

datatype 'v call_pc = Start | Waiting | Announced | Locked | Accessing | Accessed "'v ret" | Returned "'v ret"

text \<open>
  \<open>effects\<close> is a history variable: the goroutines in the order in which their calls had their effect, with the state of the
  context that they had seen.
\<close>

record 'v lock_state =
  lmap :: "'v ShardedMap"
  locks :: "rwmutex list"
  threads :: "('v call \<times> 'v call_pc) list"
  fatal :: bool
  effects :: "(nat \<times> ctx_err) list"

definition call_shard :: "'v call \<Rightarrow> nat" where
  "call_shard cl = shardIndex (call_key cl)"

definition clash :: "'v lock_state \<Rightarrow> nat \<Rightarrow> 'v call \<Rightarrow> bool" where
  "clash s i cl \<longleftrightarrow> (\<exists>j < length (threads s). j \<noteq> i \<and> snd (threads s ! j) = Accessing
     \<and> call_shard (fst (threads s ! j)) = call_shard cl \<and> (is_write cl \<or> is_write (fst (threads s ! j))))"

definition goto_pc :: "nat \<Rightarrow> 'v call \<Rightarrow> 'v call_pc \<Rightarrow> 'v lock_state \<Rightarrow> 'v lock_state" where
  "goto_pc i cl pc s = s\<lparr>threads := (threads s)[i := (cl, pc)]\<rparr>"

definition set_lock :: "nat \<Rightarrow> rwmutex \<Rightarrow> 'v lock_state \<Rightarrow> 'v lock_state" where
  "set_lock k m s = s\<lparr>locks := (locks s)[k := m]\<rparr>"

text \<open>One action of goroutine \<open>i\<close>; \<open>c\<close> is what \<^verbatim>\<open>ctx.Err()\<close> answers if it asks.\<close>

fun call_step :: "nat \<Rightarrow> ctx_err \<Rightarrow> 'v call \<Rightarrow> 'v call_pc \<Rightarrow> 'v lock_state \<Rightarrow> 'v lock_state option" where
  "call_step i c cl Start s =
     (case c of
        Some err \<Rightarrow> Some ((goto_pc i cl (Returned (snd (atomic_call cl (Some err) (lmap s)))) s)\<lparr>effects := effects s @ [(i, Some err)]\<rparr>)
      | None \<Rightarrow> Some (goto_pc i cl Waiting s))"
| "call_step i c cl Waiting s =
     (let m = locks s ! call_shard cl
      in if announced m then None
         else if is_write cl then Some (goto_pc i cl Announced (set_lock (call_shard cl) (m\<lparr>announced := True\<rparr>) s))
         else Some (goto_pc i cl Locked (set_lock (call_shard cl) (m\<lparr>readers := Suc (readers m)\<rparr>) s)))"
| "call_step i c cl Announced s =
     (if readers (locks s ! call_shard cl) = 0 then Some (goto_pc i cl Locked s) else None)"
| "call_step i c cl Locked s =
     (if clash s i cl then Some (s\<lparr>fatal := True\<rparr>) else Some (goto_pc i cl Accessing s))"
| "call_step i c cl Accessing s =
     (case atomic_call cl None (lmap s) of (sm, r) \<Rightarrow>
        Some ((goto_pc i cl (Accessed r) s)\<lparr>lmap := sm, effects := effects s @ [(i, None)]\<rparr>))"
| "call_step i c cl (Accessed r) s =
     (let m = locks s ! call_shard cl
      in Some (goto_pc i cl (Returned r)
           (set_lock (call_shard cl) (if is_write cl then m\<lparr>announced := False\<rparr> else m\<lparr>readers := readers m - 1\<rparr>) s)))"
| "call_step i c cl (Returned r) s = None"

definition locks_step :: "nat \<times> ctx_err \<Rightarrow> 'v lock_state \<Rightarrow> 'v lock_state option" where
  "locks_step e s =
     (if fatal s \<or> length (threads s) \<le> fst e then None
      else case threads s ! fst e of (cl, pc) \<Rightarrow> call_step (fst e) (snd e) cl pc s)"

fun locks_run :: "(nat \<times> ctx_err) list \<Rightarrow> 'v lock_state \<Rightarrow> 'v lock_state option" where
  "locks_run [] s = Some s"
| "locks_run (e # es) s = (case locks_step e s of None \<Rightarrow> None | Some s' \<Rightarrow> locks_run es s')"

definition locks_start :: "'v ShardedMap \<Rightarrow> 'v call list \<Rightarrow> 'v lock_state" where
  "locks_start sm calls = \<lparr>lmap = sm, locks = replicate numShards \<lparr>announced = False, readers = 0\<rparr>,
     threads = map (\<lambda>cl. (cl, Start)) calls, fatal = False, effects = []\<rparr>"

section \<open>The invariant of the locks\<close>

fun holding :: "'v call_pc \<Rightarrow> bool" where
  "holding Locked = True"
| "holding Accessing = True"
| "holding (Accessed _) = True"
| "holding _ = False"

definition reads_in :: "nat \<Rightarrow> 'v call \<times> 'v call_pc \<Rightarrow> nat" where
  "reads_in k t = (if \<not> is_write (fst t) \<and> call_shard (fst t) = k \<and> holding (snd t) then 1 else 0)"

definition writes_in :: "nat \<Rightarrow> 'v call \<times> 'v call_pc \<Rightarrow> nat" where
  "writes_in k t = (if is_write (fst t) \<and> call_shard (fst t) = k \<and> (snd t = Announced \<or> holding (snd t)) then 1 else 0)"

definition total :: "('t \<Rightarrow> nat) \<Rightarrow> 't list \<Rightarrow> nat" where
  "total f ts = (\<Sum>t \<leftarrow> ts. f t)"

definition rw_inv :: "'v lock_state \<Rightarrow> bool" where
  "rw_inv s \<longleftrightarrow> \<not> fatal s \<and> length (locks s) = numShards
     \<and> (\<forall>k < numShards. readers (locks s ! k) = total (reads_in k) (threads s)
          \<and> (if announced (locks s ! k) then 1 else 0) = total (writes_in k) (threads s))
     \<and> (\<forall>t \<in> set (threads s). is_write (fst t) \<and> holding (snd t) \<longrightarrow> readers (locks s ! call_shard (fst t)) = 0)
     \<and> (\<forall>t \<in> set (threads s). snd t = Announced \<longrightarrow> is_write (fst t))"

lemma total_update:
  assumes "i < length ts"
  shows "total f (ts[i := t]) + f (ts ! i) = total f ts + f t"
proof -
  have "f (ts ! i) \<le> total f ts" using assms member_le_sum_list [of "f (ts ! i)" "map f ts"] by (simp add: total_def)
  then show ?thesis using assms sum_list_update [of i "map f ts" "f t"] by (simp add: total_def map_update)
qed

lemma total_member: "i < length ts \<Longrightarrow> f (ts ! i) \<le> total f ts"
  using member_le_sum_list [of "f (ts ! i)" "map f ts"] by (simp add: total_def)

lemma total_two:
  assumes "i < length ts" "j < length ts" "i \<noteq> j"
  shows "f (ts ! i) + f (ts ! j) \<le> total f ts"
proof -
  have "(\<Sum>x \<in> {i, j}. f (ts ! x)) \<le> (\<Sum>x < length ts. f (ts ! x))" using assms by (intro sum_mono2) auto
  then show ?thesis using assms(3) by (simp add: total_def sum_list_sum_nth lessThan_atLeast0)
qed

lemma call_shard_less [simp]: "call_shard cl < numShards"
  by (simp add: call_shard_def shardIndex_less)

lemma rw_invD:
  assumes "rw_inv s"
  shows "\<not> fatal s" "length (locks s) = numShards"
    and "k < numShards \<Longrightarrow> readers (locks s ! k) = total (reads_in k) (threads s)"
    and "k < numShards \<Longrightarrow> (if announced (locks s ! k) then 1 else 0) = total (writes_in k) (threads s)"
    and "i < length (threads s) \<Longrightarrow> threads s ! i = (cl, pc) \<Longrightarrow> is_write cl \<Longrightarrow> holding pc \<Longrightarrow> readers (locks s ! call_shard cl) = 0"
    and "i < length (threads s) \<Longrightarrow> threads s ! i = (cl, Announced) \<Longrightarrow> is_write cl"
  using assms unfolding rw_inv_def by (auto dest!: nth_mem)

text \<open>A goroutine moves and changes the mutex of its shard accordingly.\<close>

lemma rw_inv_move:
  assumes inv: "rw_inv s" and i: "i < length (threads s)" "threads s ! i = (cl, pc)"
    and s': "locks s' = (locks s)[call_shard cl := m']" "threads s' = (threads s)[i := (cl, pc')]" "\<not> fatal s'"
    and m: "m = locks s ! call_shard cl"
    and rd: "readers m' + reads_in (call_shard cl) (cl, pc) = readers m + reads_in (call_shard cl) (cl, pc')"
    and wr: "(if announced m' then 1 else 0) + writes_in (call_shard cl) (cl, pc) = (if announced m then 1 else 0) + writes_in (call_shard cl) (cl, pc')"
    and own: "is_write cl \<Longrightarrow> holding pc' \<Longrightarrow> readers m' = 0"
    and other: "readers m' \<le> readers m \<or> \<not> announced m" and ann: "pc' = Announced \<Longrightarrow> is_write cl"
  shows "rw_inv s'"
proof -
  let ?k = "call_shard cl"
  have len: "length (locks s') = numShards" using rw_invD(2) [OF inv] by (simp add: s')
  have off: "reads_in k (cl, p) = 0" "writes_in k (cl, p) = 0" if "k \<noteq> ?k" for k p
    using that by (simp_all add: reads_in_def writes_in_def)
  have counts: "readers (locks s' ! k) = total (reads_in k) (threads s')
      \<and> (if announced (locks s' ! k) then 1 else 0) = total (writes_in k) (threads s')" if k: "k < numShards" for k
  proof (cases "k = ?k")
    case True
    have "locks s' ! k = m'" using True rw_invD(2) [OF inv] by (simp add: s')
    with True total_update [OF i(1), of "reads_in k" "(cl, pc')"] total_update [OF i(1), of "writes_in k" "(cl, pc')"]
      rw_invD(3,4) [OF inv k] rd wr show ?thesis by (simp only: s' i(2) m) linarith
  next
    case False
    with total_update [OF i(1), of "reads_in k" "(cl, pc')"] total_update [OF i(1), of "writes_in k" "(cl, pc')"]
      rw_invD(3,4) [OF inv k] off [OF False] show ?thesis by (simp add: s' i(2))
  qed
  have "readers (locks s' ! call_shard (fst t)) = 0" if t: "t \<in> set (threads s')" "is_write (fst t)" "holding (snd t)" for t
  proof -
    obtain j where j: "j < length (threads s)" "threads s' ! j = t" using t(1) by (auto simp: in_set_conv_nth s')
    show ?thesis
    proof (cases "j = i")
      case True
      then have "t = (cl, pc')" using j i(1) by (simp add: s')
      then show ?thesis using own t rw_invD(2) [OF inv] by (simp add: s')
    next
      case False
      then have tj: "threads s ! j = (fst t, snd t)" using j by (simp add: s')
      have zero: "readers (locks s ! call_shard (fst t)) = 0" by (rule rw_invD(5) [OF inv j(1) tj t(2,3)])
      show ?thesis
      proof (cases "call_shard (fst t) = ?k")
        case True
        have "writes_in ?k (threads s ! j) = 1" using tj t True by (simp add: writes_in_def)
        then have "announced m"
          using total_member [OF j(1), of "writes_in ?k"] rw_invD(4) [OF inv call_shard_less, of cl] by (auto simp: m split: if_splits)
        then show ?thesis using other zero True rw_invD(2) [OF inv] by (simp add: s' m)
      qed (use zero in \<open>simp add: s'\<close>)
    qed
  qed
  moreover have "is_write (fst t)" if "t \<in> set (threads s')" "snd t = Announced" for t
    using that inv ann set_update_subset_insert [of "threads s" i "(cl, pc')"] unfolding s' rw_inv_def by auto
  ultimately show ?thesis using counts len s'(3) unfolding rw_inv_def by blast
qed

text \<open>Who is about to access the map is alone with it, or among readers.\<close>

lemma no_clash:
  assumes inv: "rw_inv s" and i: "i < length (threads s)" "threads s ! i = (cl, Locked)"
  shows "\<not> clash s i cl"
proof
  assume "clash s i cl"
  then obtain j where j: "j < length (threads s)" "j \<noteq> i" "snd (threads s ! j) = Accessing"
    "call_shard (fst (threads s ! j)) = call_shard cl" "is_write cl \<or> is_write (fst (threads s ! j))"
    by (auto simp: clash_def)
  let ?k = "call_shard cl" and ?t = "threads s ! j"
  note two = total_two [OF i(1) j(1) j(2) [symmetric]]
  have le: "total (writes_in ?k) (threads s) \<le> 1" using rw_invD(4) [OF inv call_shard_less, of cl] by (auto split: if_splits)
  have "readers (locks s ! ?k) = 0"
    using j(5)
  proof
    assume "is_write cl"
    then show ?thesis using rw_invD(5) [OF inv i] by simp
  next
    assume "is_write (fst ?t)"
    then show ?thesis using rw_invD(5) [OF inv j(1) prod.collapse [symmetric]] j(3,4) by simp
  qed
  then have "total (reads_in ?k) (threads s) = 0" using rw_invD(3) [OF inv call_shard_less, of cl] by simp
  then show False
    using two [of "reads_in ?k"] two [of "writes_in ?k"] le i(2) j(3-5)
    by (auto simp: reads_in_def writes_in_def split: if_splits)
qed

lemma step_fields [simp]:
  "locks (goto_pc i cl pc s) = locks s" "threads (goto_pc i cl pc s) = (threads s)[i := (cl, pc)]" "fatal (goto_pc i cl pc s) = fatal s"
  "lmap (goto_pc i cl pc s) = lmap s" "effects (goto_pc i cl pc s) = effects s"
  "locks (set_lock k m s) = (locks s)[k := m]" "threads (set_lock k m s) = threads s" "fatal (set_lock k m s) = fatal s"
  "lmap (set_lock k m s) = lmap s" "effects (set_lock k m s) = effects s"
  by (simp_all add: goto_pc_def set_lock_def)

lemma locks_step_cases:
  assumes "locks_step e s = Some s'"
  obtains i c cl pc where "i < length (threads s)" "threads s ! i = (cl, pc)" "call_step i c cl pc s = Some s'"
  using assms that [of "fst e" "fst (threads s ! fst e)" "snd (threads s ! fst e)" "snd e"]
  by (auto simp: locks_step_def split: if_splits prod.splits)

lemma rw_inv_step:
  assumes inv: "rw_inv s" and step: "locks_step e s = Some s'"
  shows "rw_inv s'"
proof -
  obtain i c cl pc where i: "i < length (threads s)" "threads s ! i = (cl, pc)" and st: "call_step i c cl pc s = Some s'"
    using step by (rule locks_step_cases)
  have ok: "\<not> fatal s" by (rule rw_invD(1) [OF inv])
  let ?m = "locks s ! call_shard cl"
  note move = rw_inv_move [OF inv i _ _ _ refl]
  have same: "(locks s)[call_shard cl := ?m] = locks s" by simp
  show ?thesis
  proof (cases pc)
    case Start
    then show ?thesis using st ok same
      by (auto split: option.splits intro!: move [of _ ?m] simp: reads_in_def writes_in_def)
  next
    case Waiting
    have free: "\<not> announced ?m" using st Waiting by (simp add: Let_def split: if_splits)
    show ?thesis
    proof (cases "is_write cl")
      case True
      with st Waiting free have "s' = goto_pc i cl Announced (set_lock (call_shard cl) (?m\<lparr>announced := True\<rparr>) s)" by (simp add: Let_def)
      then show ?thesis using True Waiting ok free
        by (intro move [of s' "?m\<lparr>announced := True\<rparr>" Announced]) (simp_all add: reads_in_def writes_in_def)
    next
      case False
      with st Waiting free have "s' = goto_pc i cl Locked (set_lock (call_shard cl) (?m\<lparr>readers := Suc (readers ?m)\<rparr>) s)" by (simp add: Let_def)
      then show ?thesis using False Waiting ok free
        by (intro move [of s' "?m\<lparr>readers := Suc (readers ?m)\<rparr>" Locked]) (simp_all add: reads_in_def writes_in_def)
    qed
  next
    case Announced
    then show ?thesis using st ok same rw_invD(6) [OF inv i(1)] i(2)
      by (auto simp: reads_in_def writes_in_def split: if_splits intro!: move [of _ ?m])
  next
    case Locked
    then show ?thesis using st ok same no_clash [OF inv i(1)] i(2) rw_invD(5) [OF inv i]
      by (auto simp: reads_in_def writes_in_def split: if_splits intro!: move [of _ ?m])
  next
    case Accessing
    then show ?thesis using st ok same rw_invD(5) [OF inv i]
      by (auto simp: reads_in_def writes_in_def split: prod.splits intro!: move [of _ ?m])
  next
    case (Accessed r)
    let ?m' = "if is_write cl then ?m\<lparr>announced := False\<rparr> else ?m\<lparr>readers := readers ?m - 1\<rparr>"
    have "reads_in (call_shard cl) (cl, pc) \<le> readers ?m" "writes_in (call_shard cl) (cl, pc) \<le> (if announced ?m then 1 else 0)"
      using total_member [OF i(1), of "reads_in (call_shard cl)"] total_member [OF i(1), of "writes_in (call_shard cl)"]
        rw_invD(3,4) [OF inv call_shard_less, of cl] i(2) by simp_all
    moreover have "s' = goto_pc i cl (Returned r) (set_lock (call_shard cl) ?m' s)" using st Accessed by (simp add: Let_def)
    ultimately show ?thesis using Accessed ok
      by (intro move [of s' ?m' "Returned r"]) (simp_all add: reads_in_def writes_in_def split: if_splits)
  next
    case (Returned r)
    then show ?thesis using st by simp
  qed
qed

lemma rw_inv_start: "rw_inv (locks_start sm calls)"
  by (auto simp: rw_inv_def locks_start_def total_def reads_in_def writes_in_def comp_def)

section \<open>Linearization\<close>

fun atomic_run :: "'v call list \<Rightarrow> (nat \<times> ctx_err) list \<Rightarrow> 'v ShardedMap \<Rightarrow> 'v ShardedMap \<times> (nat \<times> 'v ret) list" where
  "atomic_run calls [] sm = (sm, [])"
| "atomic_run calls ((i, c) # h) sm =
     (case atomic_call (calls ! i) c sm of (sm', r) \<Rightarrow>
        (case atomic_run calls h sm' of (sm'', rs) \<Rightarrow> (sm'', (i, r) # rs)))"

lemma atomic_run_snoc:
  "atomic_run calls (h @ [(i, c)]) sm =
     (case atomic_run calls h sm of (sm', rs) \<Rightarrow>
        (case atomic_call (calls ! i) c sm' of (sm'', r) \<Rightarrow> (sm'', rs @ [(i, r)])))"
  by (induction calls h sm rule: atomic_run.induct) (auto split: prod.split)

lemma atomic_call_ended: "fst (atomic_call cl (Some err) sm) = sm"
  by (cases cl) (simp_all add: sm_defs)

text \<open>The result of a goroutine whose call had its effect.\<close>

fun outcome :: "'v call_pc \<Rightarrow> 'v ret option" where
  "outcome (Accessed r) = Some r"
| "outcome (Returned r) = Some r"
| "outcome _ = None"

definition lin_inv :: "'v ShardedMap \<Rightarrow> 'v call list \<Rightarrow> 'v lock_state \<Rightarrow> bool" where
  "lin_inv sm calls s \<longleftrightarrow> map fst (threads s) = calls \<and> lmap s = fst (atomic_run calls (effects s) sm)
     \<and> distinct (map fst (effects s)) \<and> fst ` set (effects s) \<subseteq> {..<length calls}
     \<and> (\<forall>i < length calls. case outcome (snd (threads s ! i)) of
          None \<Rightarrow> i \<notin> fst ` set (effects s)
        | Some r \<Rightarrow> (i, r) \<in> set (snd (atomic_run calls (effects s) sm)) \<and> i \<in> fst ` set (effects s))"

lemma lin_inv_start: "lin_inv sm calls (locks_start sm calls)"
  by (simp add: lin_inv_def locks_start_def comp_def)

text \<open>Steps that have no effect, and steps that have one.\<close>

lemma lin_inv_quiet:
  assumes inv: "lin_inv sm calls s" and i: "i < length (threads s)" "threads s ! i = (cl, pc)"
    and s': "threads s' = (threads s)[i := (cl, pc')]" "lmap s' = lmap s" "effects s' = effects s" "outcome pc' = outcome pc"
  shows "lin_inv sm calls s'"
proof -
  have "map fst (threads s') = map fst (threads s)"
    by (rule nth_equalityI) (use i in \<open>auto simp: s' nth_list_update\<close>)
  moreover have "outcome (snd (threads s' ! j)) = outcome (snd (threads s ! j))" for j
    using i s'(4) by (cases "j = i") (simp_all add: s')
  ultimately show ?thesis using inv unfolding lin_inv_def s'(2,3) by simp
qed

lemma lin_inv_effect:
  assumes inv: "lin_inv sm calls s" and i: "i < length (threads s)" "threads s ! i = (cl, pc)" "outcome pc = None"
    and s': "threads s' = (threads s)[i := (cl, pc')]" "effects s' = effects s @ [(i, c)]"
      "lmap s' = fst (atomic_call cl c (lmap s))" "outcome pc' = Some (snd (atomic_call cl c (lmap s)))"
  shows "lin_inv sm calls s'"
proof -
  have calls: "map fst (threads s) = calls" and st: "lmap s = fst (atomic_run calls (effects s) sm)"
    and dist: "distinct (map fst (effects s))" and sub: "fst ` set (effects s) \<subseteq> {..<length calls}"
    and out: "\<And>j. j < length calls \<Longrightarrow> case outcome (snd (threads s ! j)) of
          None \<Rightarrow> j \<notin> fst ` set (effects s)
        | Some r \<Rightarrow> (j, r) \<in> set (snd (atomic_run calls (effects s) sm)) \<and> j \<in> fst ` set (effects s)"
    using inv by (auto simp: lin_inv_def)
  have len: "length calls = length (threads s)" and cl: "calls ! i = cl" using calls i by auto
  have new: "i \<notin> fst ` set (effects s)" using out [of i] i len by simp
  have calls': "map fst (threads s') = calls"
    using calls i by (metis fst_conv list_update_id map_update nth_map s'(1))
  have run: "atomic_run calls (effects s') sm = (lmap s', snd (atomic_run calls (effects s) sm) @ [(i, snd (atomic_call cl c (lmap s)))])"
    by (simp add: s'(2,3) atomic_run_snoc cl st split: prod.split)
  have "case outcome (snd (threads s' ! j)) of
          None \<Rightarrow> j \<notin> fst ` set (effects s')
        | Some r \<Rightarrow> (j, r) \<in> set (snd (atomic_run calls (effects s') sm)) \<and> j \<in> fst ` set (effects s')" if "j < length calls" for j
    using out [OF that] i s'(4) len that unfolding run by (cases "j = i") (auto simp: s'(1,2) split: option.splits)
  moreover have "distinct (map fst (effects s'))" using dist new by (simp add: s'(2))
  moreover have "fst ` set (effects s') \<subseteq> {..<length calls}" using sub i(1) len by (simp add: s'(2))
  ultimately show ?thesis using calls' by (simp add: lin_inv_def run)
qed

lemma lin_inv_step:
  assumes inv: "lin_inv sm calls s" and rw: "rw_inv s" and step: "locks_step e s = Some s'"
  shows "lin_inv sm calls s' \<and> (\<exists>h. effects s' = effects s @ h)"
proof -
  obtain i c cl pc where i: "i < length (threads s)" "threads s ! i = (cl, pc)" and st: "call_step i c cl pc s = Some s'"
    using step by (rule locks_step_cases)
  note quiet = lin_inv_quiet [OF inv i] and effect = lin_inv_effect [OF inv i]
  show ?thesis
  proof (cases pc)
    case Start
    show ?thesis
    proof (cases c)
      case None
      then show ?thesis using st Start by (auto intro!: quiet [of _ Waiting])
    next
      case (Some err)
      then show ?thesis using st Start by (auto intro!: effect [where c = c] simp: atomic_call_ended)
    qed
  next
    case Waiting
    then show ?thesis using st
      by (auto simp: Let_def split: if_splits intro: quiet [of _ Announced] quiet [of _ Locked])
  next
    case Announced
    then show ?thesis using st by (auto split: if_splits intro!: quiet [of _ Locked])
  next
    case Locked
    then show ?thesis using st no_clash [OF rw i(1)] i(2) by (auto intro!: quiet [of _ Accessing])
  next
    case Accessing
    then show ?thesis using st by (auto split: prod.splits intro!: effect [where c = None])
  next
    case (Accessed r)
    then show ?thesis using st by (auto simp: Let_def intro!: quiet [of _ "Returned r"])
  qed (use st in simp)
qed

lemma locks_run_inv:
  "locks_run es s = Some s' \<Longrightarrow> rw_inv s \<Longrightarrow> lin_inv sm calls s \<Longrightarrow>
     rw_inv s' \<and> lin_inv sm calls s' \<and> (\<exists>h. effects s' = effects s @ h)"
proof (induction es arbitrary: s)
  case (Cons e es)
  then obtain s1 where s1: "locks_step e s = Some s1" "locks_run es s1 = Some s'" by (auto split: option.splits)
  obtain h where "lin_inv sm calls s1" "effects s1 = effects s @ h" using lin_inv_step [OF Cons.prems(3,2) s1(1)] by blast
  with Cons.IH [OF s1(2) rw_inv_step [OF Cons.prems(2) s1(1)]] show ?case by auto
qed simp

section \<open>Progress\<close>

fun pc_fuel :: "'v call_pc \<Rightarrow> nat" where
  "pc_fuel Start = 6"
| "pc_fuel Waiting = 5"
| "pc_fuel Announced = 4"
| "pc_fuel Locked = 3"
| "pc_fuel Accessing = 2"
| "pc_fuel (Accessed r) = 1"
| "pc_fuel (Returned r) = 0"

lemma fuel_step_down:
  assumes rw: "rw_inv s" and step: "locks_step e s = Some s'"
  shows "total (\<lambda>t. pc_fuel (snd t)) (threads s') < total (\<lambda>t. pc_fuel (snd t)) (threads s)"
proof -
  obtain i c cl pc where i: "i < length (threads s)" "threads s ! i = (cl, pc)" and st: "call_step i c cl pc s = Some s'"
    using step by (rule locks_step_cases)
  have "\<exists>pc'. threads s' = (threads s)[i := (cl, pc')] \<and> pc_fuel pc' < pc_fuel pc"
    using st no_clash [OF rw i(1)] i(2)
    by (cases pc) (auto simp: Let_def split: option.splits if_splits prod.splits)
  then obtain pc' where "threads s' = (threads s)[i := (cl, pc')]" "pc_fuel pc' < pc_fuel pc" by blast
  then show ?thesis using total_update [OF i(1), of "\<lambda>t. pc_fuel (snd t)" "(cl, pc')"] i(2) by simp
qed

lemma locks_run_bound:
  "locks_run es s = Some s' \<Longrightarrow> rw_inv s \<Longrightarrow> length es + total (\<lambda>t. pc_fuel (snd t)) (threads s') \<le> total (\<lambda>t. pc_fuel (snd t)) (threads s)"
proof (induction es arbitrary: s)
  case (Cons e es)
  then obtain s1 where s1: "locks_step e s = Some s1" "locks_run es s1 = Some s'" by (auto split: option.splits)
  from Cons.IH [OF s1(2) rw_inv_step [OF Cons.prems(2) s1(1)]] fuel_step_down [OF Cons.prems(2) s1(1)] show ?case by simp
qed simp

lemma total_zero: "(\<And>t. t \<in> set ts \<Longrightarrow> f t = 0) \<Longrightarrow> total f ts = 0"
  by (induction ts) (simp_all add: total_def)

lemma locks_progress:
  assumes rw: "rw_inv s" and i: "i < length (threads s)" "outcome (snd (threads s ! i)) = None \<or> holding (snd (threads s ! i))"
  shows "\<exists>e. locks_step e s \<noteq> None"
proof -
  have enabled: "\<exists>e. locks_step e s \<noteq> None" if "j < length (threads s)" "call_step j None (fst (threads s ! j)) (snd (threads s ! j)) s \<noteq> None" for j
    using that rw_invD(1) [OF rw] by (intro exI [of _ "(j, None)"]) (simp add: locks_step_def case_prod_beta)
  show ?thesis
  proof (cases "\<exists>j < length (threads s). snd (threads s ! j) = Start \<or> holding (snd (threads s ! j))")
    case True
    then obtain j where j: "j < length (threads s)" "snd (threads s ! j) = Start \<or> holding (snd (threads s ! j))" by blast
    then have "call_step j None (fst (threads s ! j)) (snd (threads s ! j)) s \<noteq> None"
      by (cases "snd (threads s ! j)") (auto simp: Let_def split: prod.split)
    with j(1) show ?thesis by (rule enabled)
  next
    case False
    then have none: "\<not> holding (snd t)" if "t \<in> set (threads s)" for t using that by (auto simp: in_set_conv_nth)
    then have reads: "readers (locks s ! k) = 0" if "k < numShards" for k
      using rw_invD(3) [OF rw that] total_zero [of "threads s" "reads_in k"] by (simp add: reads_in_def)
    show ?thesis
    proof (cases "\<exists>j < length (threads s). snd (threads s ! j) = Announced")
      case True
      then obtain j where j: "j < length (threads s)" "snd (threads s ! j) = Announced" by blast
      then show ?thesis using reads [OF call_shard_less] by (intro enabled [of j]) simp_all
    next
      case no_writer: False
      have "total (writes_in k) (threads s) = 0" for k
        using none no_writer by (intro total_zero) (auto simp: writes_in_def in_set_conv_nth)
      then have free: "\<not> announced (locks s ! k)" if "k < numShards" for k
        using rw_invD(4) [OF rw that] by (simp split: if_splits)
      have "snd (threads s ! i) = Waiting" using i no_writer False by (cases "snd (threads s ! i)") auto
      then show ?thesis using free [OF call_shard_less] i(1) by (intro enabled [of i]) (simp_all add: Let_def)
    qed
  qed
qed

section \<open>Properties\<close>

text \<open>
  C6: the in-memory store is linearizable.  However the goroutines that call \<^verbatim>\<open>Get\<close>, \<^verbatim>\<open>Set\<close> and \<^verbatim>\<open>Delete\<close> are interleaved between checking the context,
  locking, accessing the map and unlocking: a write never overlaps another access to the map of its shard, so the runtime never ends
  the process; the store is what the calls leave when they are executed atomically, each at most once, in the order of their effects; every call returns what it returns there;
  and this order respects real time, since a call that has returned comes before every call that has not begun, now and later.
\<close>

theorem ShardedMap_linearizable:
  assumes run: "locks_run es (locks_start sm calls) = Some s" and later: "locks_run es' s = Some s'"
  shows "\<not> fatal s \<and> lmap s = fst (atomic_run calls (effects s) sm) \<and> distinct (map fst (effects s))
    \<and> (\<forall>i < length calls. \<forall>r. snd (threads s ! i) = Returned r \<longrightarrow>
         i \<in> fst ` set (effects s) \<and> (i, r) \<in> set (snd (atomic_run calls (effects s) sm)))
    \<and> (\<forall>j < length calls. snd (threads s ! j) = Start \<longrightarrow> j \<notin> fst ` set (effects s))
    \<and> (\<exists>h. effects s' = effects s @ h)"
proof -
  have inv: "rw_inv s" "lin_inv sm calls s" using locks_run_inv [OF run rw_inv_start lin_inv_start] by blast+
  have out: "case outcome (snd (threads s ! i)) of None \<Rightarrow> i \<notin> fst ` set (effects s)
      | Some r \<Rightarrow> (i, r) \<in> set (snd (atomic_run calls (effects s) sm)) \<and> i \<in> fst ` set (effects s)" if "i < length calls" for i
    using inv(2) that by (simp add: lin_inv_def)
  show ?thesis
  proof (intro conjI allI impI)
    show "\<not> fatal s" by (rule rw_invD(1) [OF inv(1)])
    show "lmap s = fst (atomic_run calls (effects s) sm)" "distinct (map fst (effects s))" using inv(2) by (simp_all add: lin_inv_def)
    show "\<exists>h. effects s' = effects s @ h" using locks_run_inv [OF later inv] by simp
  next
    fix i r assume "i < length calls" "snd (threads s ! i) = Returned r"
    with out [of i] show "i \<in> fst ` set (effects s)" "(i, r) \<in> set (snd (atomic_run calls (effects s) sm))" by simp_all
  next
    fix j assume "j < length calls" "snd (threads s ! j) = Start"
    with out [of j] show "j \<notin> fst ` set (effects s)" by simp
  qed
qed

text \<open>
  C24: calls of the in-memory store do not deadlock.  As long as some call has not returned, some goroutine can go on, also when writers wait for readers
  and readers for a writer that has announced itself; and \<open>n\<close> calls take at most \<open>6 n\<close> steps together.
\<close>

theorem ShardedMap_no_deadlock:
  assumes run: "locks_run es (locks_start sm calls) = Some s"
  shows "length es \<le> 6 * length calls
    \<and> ((\<forall>e. locks_step e s = None) \<longrightarrow> (\<forall>i < length calls. \<exists>r. snd (threads s ! i) = Returned r))"
proof -
  have inv: "rw_inv s" "lin_inv sm calls s" using locks_run_inv [OF run rw_inv_start lin_inv_start] by blast+
  have len: "length (threads s) = length calls" using inv(2) by (auto simp: lin_inv_def)
  have "total (\<lambda>t. pc_fuel (snd t)) (threads (locks_start sm calls)) = 6 * length calls"
    by (induction calls) (simp_all add: locks_start_def total_def)
  then have "length es \<le> 6 * length calls" using locks_run_bound [OF run rw_inv_start] by simp
  moreover have "\<exists>r. snd (threads s ! i) = Returned r" if "\<forall>e. locks_step e s = None" "i < length calls" for i
    using locks_progress [OF inv(1), of i] that len by (cases "snd (threads s ! i)") auto
  ultimately show ?thesis by blast
qed

text \<open>A reader that arrives while a writer waits for the lock, and a third goroutine whose context has ended.\<close>

definition sample_calls :: "nat call list" where
  "sample_calls = [CallSet ''rider_1'' (Some 7), CallGet ''rider_1'', CallDelete ''rider_1'']"

definition sample_schedule :: "(nat \<times> ctx_err) list" where
  "sample_schedule = [(0, None), (1, None), (0, None), (2, Some Canceled), (0, None), (0, None), (0, None), (0, None),
     (1, None), (1, None), (1, None), (1, None)]"

lemma clash_upt:
  "clash s i cl \<longleftrightarrow> list_ex (\<lambda>j. j \<noteq> i \<and> snd (threads s ! j) = Accessing
     \<and> call_shard (fst (threads s ! j)) = call_shard cl \<and> (is_write cl \<or> is_write (fst (threads s ! j)))) [0..<length (threads s)]"
  by (auto simp: clash_def list_ex_iff)

lemma all_returned:
  assumes "\<forall>pc \<in> set (map snd (threads s)). \<exists>r. pc = Returned r"
  shows "locks_step e s = None"
proof (cases "locks_step e s")
  case (Some s')
  then obtain i c cl pc where i: "i < length (threads s)" "threads s ! i = (cl, pc)" and st: "call_step i c cl pc s = Some s'"
    by (rule locks_step_cases)
  have "pc \<in> set (map snd (threads s))" using nth_mem [OF i(1)] i(2) by force
  then show ?thesis using assms st by auto
qed

lemma sample_run:
  "\<exists>s. locks_run sample_schedule (locks_start NewShardedMap sample_calls) = Some s
     \<and> effects s = [(2, Some Canceled), (0, None), (1, None)]
     \<and> map snd (threads s) = [Returned (RetErr None), Returned (RetGet (Some 7) True None), Returned (RetErr (Some Canceled))]"
  by (simp add: sample_schedule_def sample_calls_def locks_start_def locks_step_def goto_pc_def set_lock_def clash_upt call_shard_def
      sm_defs NewShardedMap_def shardIndex_less upt_rec)

theorem ShardedMap_linearizable_witness:
  "\<exists>s. locks_run sample_schedule (locks_start NewShardedMap sample_calls) = Some s \<and> \<not> fatal s
     \<and> lmap s = fst (atomic_run sample_calls [(2, Some Canceled), (0, None), (1, None)] NewShardedMap)
     \<and> (1, RetGet (Some 7) True None) \<in> set (snd (atomic_run sample_calls (effects s) NewShardedMap))"
proof -
  obtain s where s: "locks_run sample_schedule (locks_start NewShardedMap sample_calls) = Some s"
    "effects s = [(2, Some Canceled), (0, None), (1, None)]"
    "map snd (threads s) = [Returned (RetErr None), Returned (RetGet (Some 7) True None), Returned (RetErr (Some Canceled))]"
    using sample_run by (elim exE conjE) (rule that)
  have "snd (threads s ! 1) = map snd (threads s) ! 1" using arg_cong [OF s(3), of length] by (intro nth_map [symmetric]) simp
  then have "snd (threads s ! 1) = Returned (RetGet (Some 7) True None)" by (simp add: s(3))
  moreover have "1 < length sample_calls" by (simp add: sample_calls_def)
  moreover note ShardedMap_linearizable [OF s(1), of "[]" s, OF locks_run.simps(1)]
  ultimately show ?thesis using s(1,2) by (intro exI [of _ s]) simp
qed

theorem ShardedMap_no_deadlock_witness:
  "\<exists>s. locks_run sample_schedule (locks_start NewShardedMap sample_calls) = Some s \<and> length sample_schedule \<le> 18
     \<and> (\<forall>e. locks_step e s = None) \<and> (\<forall>i < 3. \<exists>r. snd (threads s ! i) = Returned r)"
proof -
  obtain s where s: "locks_run sample_schedule (locks_start NewShardedMap sample_calls) = Some s"
    "map snd (threads s) = [Returned (RetErr None), Returned (RetGet (Some 7) True None), Returned (RetErr (Some Canceled))]"
    using sample_run by (elim exE conjE) (rule that)
  have "\<forall>e. locks_step e s = None" using s(2) by (intro allI all_returned) simp
  moreover have "length sample_calls = 3" by (simp add: sample_calls_def)
  ultimately show ?thesis using ShardedMap_no_deadlock [OF s(1)] s(1) by (intro exI [of _ s]) simp
qed

end
