(* ===== verification/Spec2Isabelle.thy ===== *)
theory Spec2Isabelle
  imports Example_Batch Gateway Rider_Answer Clients Sim_Flags Dispatcher Load Shard_Locks
begin

text \<open>
  Verification of khaos, a Go service that executes batches of rider operations concurrently
  and answers as if they had been executed one after the other.

  \<^bold>\<open>The program.\<close>  A request is a JSON array of reads, writes and deletes of riders.  The handler
  (\<^verbatim>\<open>src/server.go\<close>) checks and orders it, the hazard resolver (\<^verbatim>\<open>src/hazard.go\<close>) builds a
  dependency graph over the operations on equal keys, the worker pool (\<^verbatim>\<open>src/workerpool.go\<close>)
  executes the nodes of the graph on several goroutines against a storage engine
  (\<^verbatim>\<open>src/storage.go\<close> in memory, \<^verbatim>\<open>src/postgres_storage.go\<close> with \<^verbatim>\<open>src/schema.sql\<close> in
  PostgreSQL), and the reorder buffer (\<^verbatim>\<open>src/reorder.go\<close>) hands the results to the handler in
  the order of the request.  \<^verbatim>\<open>src/api/main.go\<close> configures and starts the server,
  \<^verbatim>\<open>src/cmd/simulator/main.go\<close> puts load on it, and \<^verbatim>\<open>src/php/KhaosDispatcher.php\<close> is a client
  that queues updates and sends them as a batch.

  \<^bold>\<open>The theories.\<close>
  \<^item> \<open>Khaos_Prelude\<close>: words, errors as values, facts on lists and counters.
  \<^item> \<open>Khaos_Types\<close> (\<^verbatim>\<open>types.go\<close>): operations, nodes in a heap, in-degree counters, \<^verbatim>\<open>Release\<close>.
  \<^item> \<open>Hazard\<close> (\<^verbatim>\<open>hazard.go\<close>): \<^verbatim>\<open>Build\<close>; the graph it builds is characterised declaratively; the
    interface \<^verbatim>\<open>HazardResolver\<close> is the locale \<open>hazard_resolver\<close>, interpreted on \<open>Build\<close>.
  \<^item> \<open>Storage\<close> (\<^verbatim>\<open>interfaces.go\<close>, \<^verbatim>\<open>storage.go\<close>): the engine interface as a record of methods, its
    contracts as the locales \<open>storage_engine\<close> and \<open>keyed_storage\<close>, and the sharded map.
  \<^item> \<open>Shard_Locks\<close> (\<^verbatim>\<open>storage.go\<close>): the same three methods taken apart into the check of the context, the
    locking of the shard, the access to its map and the unlocking, for any number of goroutines.
  \<^item> \<open>Reorder\<close> (\<^verbatim>\<open>reorder.go\<close>): \<^verbatim>\<open>Drain\<close> and \<^verbatim>\<open>Commit\<close>, whole and split at the blocking send.
  \<^item> \<open>WorkerPool\<close> (\<^verbatim>\<open>workerpool.go\<close>): \<^verbatim>\<open>reachableNodes\<close>, \<^verbatim>\<open>executeNode\<close>, and \<^verbatim>\<open>Run\<close> as a transition
    system: a state of counters, channels, program counters and the store, and a step for every
    atomic action of every goroutine, the consumer in the handler and cancellation included.
  \<^item> \<open>Pool_Graph\<close>, \<open>Pool_Sched\<close>, \<open>Pool_Order\<close>, \<open>Pool_Serial\<close>, \<open>Pool_Live\<close>: the invariants of that
    system (traversal; places and counters; reorder buffer and delivered prefix; agreement with
    sequential execution, once for every resolver and engine in the locale \<open>khaos_engine\<close>;
    progress and the measure that every step lowers).
  \<^item> \<open>Postgres\<close>, \<open>Rider_Table\<close> (\<^verbatim>\<open>postgres_storage.go\<close>, \<^verbatim>\<open>schema.sql\<close>): validation, the engine over
    prepared statements, construction and closing; the table with its constraints and the three
    SQL statements, shown to be a keyed store.
  \<^item> \<open>Server\<close>, \<open>Lifecycle\<close> (\<^verbatim>\<open>server.go\<close>): operation names, translation of a request, defaults, the
    handler before and after the run; the body limit, \<^verbatim>\<open>Run\<close> and \<^verbatim>\<open>Shutdown\<close>.
  \<^item> \<open>Batch\<close>, \<open>Example_Batch\<close>: a request from decoding to answer, composed from the above, and
    the concrete requests that the witnesses run.
  \<^item> \<open>Go_Std\<close>, \<open>Go_Float\<close>, \<open>Utf8\<close>, \<open>Json\<close>: what the programs use of the standard library: decimal
    integers, \<^verbatim>\<open>time.ParseDuration\<close>, rounding of \<^verbatim>\<open>float64\<close>; correctly rounded reading and shortest
    printing of \<^verbatim>\<open>float64\<close>; UTF-8; JSON texts, read as \<^verbatim>\<open>encoding/json\<close> does and written by any
    \<open>string_writer\<close>, the locale of the ways to write strings.
  \<^item> \<open>Wire\<close>, \<open>Rider_Answer\<close> (\<^verbatim>\<open>server.go\<close>): the decoding of a body into request items with the rules for
    structs, \<^verbatim>\<open>writeJSON\<close> and \<^verbatim>\<open>writeError\<close>; the locale \<open>float_text\<close> is what a client has to guarantee of
    its floating-point numbers; answers over PostgreSQL can be encoded.
  \<^item> \<open>Http\<close> (\<^verbatim>\<open>server.go\<close>): the multiplexer of \<^verbatim>\<open>net/http\<close> with the one pattern that \<^verbatim>\<open>NewServer\<close> registers.
  \<^item> \<open>Service\<close> (\<^verbatim>\<open>server.go\<close>): the server with all its requests at once on one storage engine; the locale
    \<open>shared_engine\<close>, interpreted on both engines, carries the isolation of a batch.
  \<^item> \<open>Gateway\<close> (\<^verbatim>\<open>api/main.go\<close>): environment, connection string, wait for the database, start and end.
  \<^item> \<open>Simulator\<close>, \<open>Sim_Flags\<close>, \<open>Clients\<close> (\<^verbatim>\<open>cmd/simulator/main.go\<close>): workload, clients, metrics,
    percentiles, report, exit; the flags; the bodies it sends, their length and what the gateway decodes.
  \<^item> \<open>Load\<close>: all clients of the simulator at once against the server of \<open>Service\<close> over PostgreSQL.
  \<^item> \<open>Dispatcher\<close> (\<^verbatim>\<open>php/KhaosDispatcher.php\<close>): the class with its methods, and its life as a step relation.

  \<^bold>\<open>What is shown.\<close>  For every interleaving of a batch: it ends (at most \<open>12 N + 2 W + 2\<close> steps), never
  deadlocks or panics, executes every operation at most once and after its conflicting
  predecessors, delivers results in order, and, when it is not cancelled, answers exactly what
  sequential execution answers and leaves the same store, in memory and, for riders in canonical
  spelling, in PostgreSQL.  For every interleaving of any number of requests: none panics, blocks another for good or goes on
  for ever, a batch whose keys no other one writes is answered as if it were alone, and a whole simulated load ends with all its
  updates in the table.  For the parts: the graph is exactly the hazard graph, acyclic and with at
  most two edges per operation; the reorder buffer releases maximal prefixes; the sharded
  map is a map, its locking excludes overlapping accesses, does not deadlock and makes its methods linearizable; only a
  \<^verbatim>\<open>POST\<close> for the registered path reaches the handler; requests are accepted exactly when dense and well-formed; the table's constraints are
  invariants; configuration values are in range, the connection string cannot be subverted by
  its values, the wait for the database ends within its timeout, and the gateway releases what
  it opened; the bytes that the simulator sends are answered with the bytes that echo them, its counters,
  percentiles and exit status are exact; the PHP client loses no update and its batches are accepted;
  unknown fields are refused and every answer can be read back.  The remaining theorems record where the code and its comments or intentions part:
  dependents of failed operations run, states stay pending, a delivered batch may be answered 500,
  two spellings of one UUID are not ordered, 4xx answers are not announced, a dotless i is accepted, and a
  coordinate that is not a number blocks the PHP client for good.

  \<^bold>\<open>Bounds and fuel.\<close>  Words of 64 bits are kept where they count: sequence numbers, in-degrees, the
  remaining counter; batches have at most \<open>2\<^sup>6\<^sup>3\<close> items, as every Go slice.  The only bounded
  loop of the program is \<open>waitForDB\<close>; its bound is shown to suffice when pings respect their contexts (61 for 30 seconds).
  The traversal, the flush loop, the readers of durations and connection strings terminate by measures.
  The reader of JSON values has a bound on the depth of its calls; twice the length of the text is enough
  for every text (\<open>read_deep\<close>), and the limit of \<^verbatim>\<open>encoding/json\<close> on nesting cannot be observed, since no request
  item nests that deep.  Floating-point arithmetic has an unbounded exponent, since no value of the programs comes
  near its limits, while literals are read with subnormal numbers and overflow; the percentile indices are exact
  up to \<open>2\<^sup>4\<^sup>0\<close> samples.

  \<^bold>\<open>Parameters.\<close>  The listener and the client of \<^verbatim>\<open>net/http\<close>, cURL, the operating system and the network appear as their
  outcomes; the texts of errors and times in an answer, and PHP's \<^verbatim>\<open>json_decode\<close> and printing of floats are
  arguments; PostgreSQL's reading and printing of UUIDs, its clock and the driver's reader of
  connection strings are parameters with their documented laws as hypotheses or locale assumptions.

  \<^bold>\<open>Not modelled.\<close>  Log and console output beyond the numbers of the report; the demonstration script of the PHP client; the secondary index
  of the table; the texts of errors beyond what distinguishes them; and the tests, whose sequential
  reference is \<open>runSequential\<close>.
\<close>

section \<open>The handler and its run\<close>

text \<open>
  C1: serializability of a batch.  Whatever the interleaving of workers, consumer and
  channel operations, when nothing is left to run and the context is still live the
  handler answers 200 with exactly the results of executing the translated operations one
  after the other, in sequence order, and the in-memory store holds what that sequential
  execution leaves.
\<close>

theorem batch_serializable:
  assumes start: "handleBatch_start numCPU cfg st None (Inr items) = Inr s0"
    and cpu: "0 < numCPU" and inv: "sm_invar st"
    and reach: "pool_reach ShardedMap_engine s0 s"
    and final: "quiescent ShardedMap_engine s" "ctx s = None"
  shows "\<exists>ops. translateRequest items = Inr ops
    \<and> handleBatch_finish s = Some (WriteJSON 200 (map response_item (snd (runSequential ShardedMap_engine st ops))))
    \<and> sm_view (store s) = sm_view (fst (runSequential ShardedMap_engine st ops))"
proof -
  obtain ops h all_nodes runnable where tr: "translateRequest items = Inr ops"
    and b: "Build ops = Inr (h, all_nodes, runnable)" and len: "length h = length ops"
    and s0: "s0 = Run_start (NewConcurrentWorkerPool numCPU (WorkerCount cfg)) h runnable st
       (Some (Drain NewInOrderReorderBuffer (int (length ops)))) None"
    and pool: "pool_inv h s" "exit_inv s" "workers s \<noteq> []"
    using handler_run [OF start reach] cpu by metis
  note ser = khaos.serial_final [OF b inv batch_keys_UNIV reach [unfolded s0] final(2)]
  note fin = quiescent_final [OF pool(1,2) final(1) pool(3)]
  have done_all: "length (executed s) = length ops" "drain s = DrainClosed" "Run_return s = Some None"
    using fin(1,3) final(2) len by auto
  have "received s = snd (runSequential ShardedMap_engine st ops)" using ser(1) [OF done_all(2)] by simp
  then have "handleBatch_finish s = Some (WriteJSON 200 (map response_item (snd (runSequential ShardedMap_engine st ops))))"
    using done_all(2,3) by (simp add: handleBatch_finish_def)
  moreover have "sm_view (store s) = sm_view (fst (runSequential ShardedMap_engine st ops))"
    using ser(2) [OF done_all(1)] by (simp add: fun_eq_iff)
  ultimately show ?thesis using tr by blast
qed

theorem batch_serializable_witness:
  "\<exists>s. pool_reach ShardedMap_engine (demo_state NewShardedMap None) s \<and> quiescent ShardedMap_engine s
    \<and> handleBatch_finish s = Some (WriteJSON 200 (map response_item (snd (runSequential ShardedMap_engine NewShardedMap demo_ops))))"
proof -
  obtain s where run: "pool_reach ShardedMap_engine (demo_state NewShardedMap None) s"
    "quiescent ShardedMap_engine s" "ctx s = None"
    by (rule demo_run)
  from batch_serializable [OF demo_start _ sm_invar_New run] demo_translate run show ?thesis by auto
qed

text \<open>
  C8: termination.  No schedule is infinite: any sequence of steps of the workers, of the
  consumer and of the context from the state the handler starts has at most
  \<open>12 * N + 2 * W + 2\<close> steps, for \<open>N\<close> operations and \<open>W\<close> workers and any storage engine.
\<close>

theorem batch_terminates:
  assumes start: "handleBatch_start numCPU cfg st c (Inr items) = Inr s0"
    and run: "pool_run eng es s0 = Some s"
  shows "length es \<le> 12 * length items + 2 * NewConcurrentWorkerPool numCPU (WorkerCount cfg) + 2"
proof -
  obtain ops h all_nodes runnable where tr: "translateRequest items = Inr ops"
    and b: "Build ops = Inr (h, all_nodes, runnable)"
    and s0: "s0 = Run_start (NewConcurrentWorkerPool numCPU (WorkerCount cfg)) h runnable st
       (Some (Drain NewInOrderReorderBuffer (int (length ops)))) c"
    and inv: "pool_inv h s0"
    using handler_run [OF start pool_reach.start] by metis
  have "length es \<le> fuel h s0" using fuel_run [OF run inv] by simp
  also have "\<dots> \<le> 12 * length ops + 2 * NewConcurrentWorkerPool numCPU (WorkerCount cfg) + 2"
    unfolding s0 by (rule fuel_start [OF b])
  finally show ?thesis using translateRequest_length [OF tr] by simp
qed

theorem batch_terminates_witness:
  "\<exists>es s. pool_run ShardedMap_engine es (demo_state NewShardedMap None) = Some s
    \<and> quiescent ShardedMap_engine s \<and> length es \<le> 42"
proof -
  obtain s where run: "pool_reach ShardedMap_engine (demo_state NewShardedMap None) s" "quiescent ShardedMap_engine s"
    by (rule demo_run)
  obtain es where es: "pool_run ShardedMap_engine es (demo_state NewShardedMap None) = Some s"
    using pool_reach_run [OF run(1)] by blast
  have "length es \<le> 42"
    using batch_terminates [OF demo_start es]
    by (simp add: demo_items_def demo_config_def NewServer_def orDefault_def NewConcurrentWorkerPool_def)
  with run es show ?thesis by blast
qed

text \<open>
  C7: no deadlock and no leaked worker.  In a state from which nothing can run, every
  worker has returned and the handler has its answer: with a live context 200 and one
  item per operation, otherwise an error answer or none at all, never a partial 200.
\<close>

theorem batch_no_deadlock:
  assumes start: "handleBatch_start numCPU cfg st c (Inr items) = Inr s0" and cpu: "0 < numCPU"
    and reach: "pool_reach eng s0 s" and final: "quiescent eng s"
  shows "list_all (\<lambda>p. p = Exited) (workers s)
    \<and> (\<exists>r. handleBatch_finish s = Some r
         \<and> (if ctx s = None then \<exists>rs. r = WriteJSON 200 rs \<and> length rs = length items
            else r = NoResponse \<or> (\<exists>code e. r = WriteError code e \<and> (code = 500 \<or> code = 504))))"
proof -
  obtain ops h all_nodes runnable where tr: "translateRequest items = Inr ops" and len: "length h = length ops"
    and pool: "pool_inv h s" "exit_inv s" "workers s \<noteq> []" and ops: "ops \<noteq> []"
    using handler_run [OF start reach] cpu by metis
  note fin = quiescent_final [OF pool(1,2) final pool(3)]
  have ret: "Run_return s = Some (ctx s)" using fin(1) ops len by auto
  have ex: "list_all (\<lambda>p. p = Exited) (workers s)"
    using quiescent_exited [OF pool(1,2) final] by (simp add: list_all_iff)
  show ?thesis
  proof (cases "ctx s")
    case None
    then have dr: "drain s = DrainClosed" using fin(3) by blast
    then have "length (received s) = length ops"
      using pool_inv_received(3) [OF pool(1)] len by simp
    with None ret dr ex translateRequest_length [OF tr] show ?thesis by (simp add: handleBatch_finish_def)
  next
    case (Some e)
    then show ?thesis using ret ex fin(2) by (cases "drain s") (auto simp: handleBatch_finish_def)
  qed
qed

theorem batch_no_deadlock_witness:
  "\<exists>s. pool_reach failing_engine (demo_state () None) s \<and> list_all (\<lambda>p. p = Exited) (workers s)
    \<and> (\<exists>rs. handleBatch_finish s = Some (WriteJSON 200 rs) \<and> length rs = 2)"
proof -
  obtain s where run: "pool_reach failing_engine (demo_state () None) s" "quiescent failing_engine s" "ctx s = None"
    by (rule demo_run)
  with batch_no_deadlock [OF demo_start _ run(1,2)] show ?thesis by (auto simp: demo_items_def)
qed

text \<open>
  C9: absence of panics.  In every reachable state of a run, cancelled or not and whatever
  the storage engine answers, no goroutine has sent on a closed channel or closed one
  twice, and the dispatch queue is within its capacity.
\<close>

theorem batch_no_panic:
  assumes start: "handleBatch_start numCPU cfg st c (Inr items) = Inr s0"
    and reach: "pool_reach eng s0 s"
  shows "\<not> panicked s \<and> length (workCh s) \<le> workCh_cap s \<and> workCh_cap s = length items"
proof -
  obtain ops h where tr: "translateRequest items = Inr ops" and len: "length h = length ops"
    and pool: "pool_inv h s"
    by (rule handler_run [OF start reach])
  have sched: "sched_inv h s" using pool by (simp add: pool_inv_def)
  have "length (workCh s) \<le> length h"
    using card_mono [OF _ tick_parts(5) [OF sched]] distinct_card [OF tick_parts(4) [OF sched]] by simp
  then show ?thesis using sched_invD(5,12) [OF sched] len translateRequest_length [OF tr] by simp
qed

theorem batch_no_panic_witness:
  "\<exists>s. pool_reach failing_engine (demo_state () None) s \<and> received s \<noteq> [] \<and> \<not> panicked s \<and> workCh_cap s = 2"
proof -
  obtain s where run: "pool_reach failing_engine (demo_state () None) s" and "length (received s) = 2"
    by (rule demo_failing_reach)
  moreover from this(2) have "received s \<noteq> []" by auto
  ultimately show ?thesis using batch_no_panic [OF demo_start run] by auto
qed

text \<open>
  The send of a newly runnable node never blocks.  A worker that is about to enqueue a
  dependent always finds the queue open and with room, so its step is enabled and does not
  panic: the capacity argument in the comment of \<^verbatim>\<open>Run\<close>.
\<close>

theorem dispatch_never_blocks:
  assumes start: "handleBatch_start numCPU cfg st c (Inr items) = Inr s0"
    and reach: "pool_reach eng s0 s"
    and at: "w < length (workers s)" "workers s ! w = Dispatch (r # rs)"
  shows "pool_step eng (Worker w Proceed) s = Some (goto w (Dispatch rs) (s\<lparr>workCh := workCh s @ [r]\<rparr>))"
proof -
  obtain h where pool: "pool_inv h s" by (rule handler_run [OF start reach])
  then have sched: "sched_inv h s" by (simp add: pool_inv_def)
  show ?thesis using dispatch_room [OF sched at] at sched_invD(12) [OF sched] by simp
qed

theorem dispatch_never_blocks_witness:
  "\<exists>s. pool_reach null_engine (demo_state () None) s \<and> workers s ! 0 = Dispatch [1]
    \<and> pool_step null_engine (Worker 0 Proceed) s \<noteq> None"
proof -
  obtain s where s: "pool_run null_engine (replicate 8 (Worker 0 Proceed)) (demo_state () None) = Some s"
    "0 < length (workers s)" "workers s ! 0 = Dispatch [1]"
    using demo_dispatch by (elim exE conjE)
  have run: "pool_reach null_engine (demo_state () None) s" by (rule pool_run_reach [OF s(1) pool_reach.start])
  have "pool_step null_engine (Worker 0 Proceed) s \<noteq> None"
    using dispatch_never_blocks [OF demo_start run s(2,3)] by (metis option.distinct(1))
  with run s(3) show ?thesis by blast
qed

text \<open>
  C21: exactly-once execution in hazard order.  Every node is executed at most once, and an
  operation is executed only after every earlier operation of the batch that touches the
  same key where one of the two writes; this holds under cancellation too.
\<close>

theorem executed_once_in_order:
  assumes start: "handleBatch_start numCPU cfg st c (Inr items) = Inr s0"
    and reach: "pool_reach eng s0 s" and tr: "translateRequest items = Inr ops"
  shows "distinct (executed s) \<and> set (executed s) \<subseteq> {..<length ops}
    \<and> (\<forall>j \<in> set (executed s). \<forall>i < j. conflict (ops ! i) (ops ! j) \<longrightarrow> i \<in> set (executed s))"
proof -
  obtain h all_nodes runnable where b: "Build ops = Inr (h, all_nodes, runnable)" and len: "length h = length ops"
    and pool: "pool_inv h s" "order_ok h s"
    using handler_run [OF start reach] tr by (metis Inr_inject)
  have sched: "sched_inv h s" using pool by (simp add: pool_inv_def)
  note parts = tick_parts(1,2) [OF sched]
  have "i \<in> set (executed s)" if "j \<in> set (executed s)" "i < j" "conflict (ops ! i) (ops ! j)" for i j
    using executed_conflicts [OF b pool(2) that(2) _ that(3,1)] parts(2) len that(1) by auto
  with parts len show ?thesis by auto
qed

theorem executed_once_in_order_witness:
  "\<exists>s. pool_reach failing_engine (demo_state () None) s \<and> executed s = [0, 1] \<and> distinct (executed s)"
proof -
  obtain s where run: "pool_reach failing_engine (demo_state () None) s" and "executed s = [0, 1]"
    by (rule demo_failing_reach)
  with executed_once_in_order [OF demo_start run demo_translate] show ?thesis by blast
qed

text \<open>
  C22: results leave the reorder buffer in sequence order.  At any moment of any run,
  cancelled or not, what the handler has received are the operations \<open>0, 1, \<dots>, m - 1\<close>, each
  with its final result, and each of them has been executed.
\<close>

theorem received_in_order:
  assumes start: "handleBatch_start numCPU cfg st c (Inr items) = Inr s0"
    and reach: "pool_reach eng s0 s"
  shows "\<exists>m \<le> length items. received s = map (\<lambda>i. operation_of (heap s ! i)) [0..<m]
    \<and> map SeqID (received s) = map of_nat [0..<m] \<and> {..<m} \<subseteq> set (executed s)"
proof -
  obtain ops h where tr: "translateRequest items = Inr ops" and len: "length h = length ops" and pool: "pool_inv h s"
    by (rule handler_run [OF start reach])
  note rec = pool_inv_received [OF pool]
  have "received s ! i = operation_of (heap s ! i)" "SeqID (received s ! i) = of_nat i" if "i < length (received s)" for i
    using rec(2) [OF that] by blast+
  then have "received s = map (\<lambda>i. operation_of (heap s ! i)) [0..<length (received s)]"
    "map SeqID (received s) = map of_nat [0..<length (received s)]"
    by (intro nth_equalityI; simp)+
  with rec(1,4) len translateRequest_length [OF tr] show ?thesis by (intro exI [of _ "length (received s)"]) auto
qed

theorem received_in_order_witness:
  "\<exists>s. pool_reach failing_engine (demo_state () None) s \<and> map SeqID (received s) = [0, 1]"
proof -
  obtain s where run: "pool_reach failing_engine (demo_state () None) s" and two: "length (received s) = 2"
    by (rule demo_failing_reach)
  from received_in_order [OF demo_start run] obtain m where
    m: "received s = map (\<lambda>i. operation_of (heap s ! i)) [0..<m]" "map SeqID (received s) = map of_nat [0..<m]"
    by blast
  have "m = 2" using arg_cong [OF m(1), of length] two by simp
  with m(2) run show ?thesis by (intro exI [of _ s]) (simp add: upt_rec)
qed

text \<open>
  While the context is live, the results received so far are a prefix of the results of
  the sequential execution: no reader of the response stream can tell the interleaving.
\<close>

theorem received_prefix_sequential:
  assumes start: "handleBatch_start numCPU cfg st None (Inr items) = Inr s0" and inv: "sm_invar st"
    and reach: "pool_reach ShardedMap_engine s0 s" and live: "ctx s = None"
    and tr: "translateRequest items = Inr ops"
  shows "\<exists>m \<le> length ops. received s = take m (snd (runSequential ShardedMap_engine st ops))"
proof -
  obtain h all_nodes runnable where b: "Build ops = Inr (h, all_nodes, runnable)" and len: "length h = length ops"
    and s0: "s0 = Run_start (NewConcurrentWorkerPool numCPU (WorkerCount cfg)) h runnable st
       (Some (Drain NewInOrderReorderBuffer (int (length ops)))) None"
    and pool: "pool_inv h s"
    using handler_run [OF start reach] tr by (metis Inr_inject)
  from khaos.serial_final(3) [OF b inv batch_keys_UNIV reach [unfolded s0] live] show ?thesis by simp
qed

text \<open>
  A 200 is never partial or stale.  In whatever state the handler answers 200, the body
  is the complete list of sequential results.
\<close>

theorem response_200_complete:
  assumes start: "handleBatch_start numCPU cfg st None (Inr items) = Inr s0" and inv: "sm_invar st"
    and reach: "pool_reach ShardedMap_engine s0 s" and tr: "translateRequest items = Inr ops"
    and ans: "handleBatch_finish s = Some (WriteJSON 200 rs)"
  shows "rs = map response_item (snd (runSequential ShardedMap_engine st ops))"
proof -
  obtain h all_nodes runnable where b: "Build ops = Inr (h, all_nodes, runnable)" and len: "length h = length ops"
    and s0: "s0 = Run_start (NewConcurrentWorkerPool numCPU (WorkerCount cfg)) h runnable st
       (Some (Drain NewInOrderReorderBuffer (int (length ops)))) None"
    and pool: "pool_inv h s" and ne: "ops \<noteq> []"
    using handler_run [OF start reach] tr by (metis Inr_inject)
  have fin: "drain s = DrainClosed" "Run_return s = Some None" "rs = map response_item (received s)"
    using ans by (auto simp: handleBatch_finish_def split: drain_pc.splits option.splits if_splits)
  have "workCh_cap s = length h" using pool sched_invD(5) unfolding pool_inv_def by blast
  then have "workCh_cap s \<noteq> 0" using len ne by simp
  then have "ctx s = None" using fin(2) by (simp add: Run_return_def split: if_splits)
  then show ?thesis
    using khaos.serial_final(1) [OF b inv batch_keys_UNIV reach [unfolded s0] _ fin(1)] fin(3) by simp
qed

theorem response_200_complete_witness:
  "\<exists>s rs. pool_reach ShardedMap_engine (demo_state NewShardedMap None) s
    \<and> handleBatch_finish s = Some (WriteJSON 200 rs)
    \<and> rs = map response_item (snd (runSequential ShardedMap_engine NewShardedMap demo_ops))"
proof -
  obtain s where run: "pool_reach ShardedMap_engine (demo_state NewShardedMap None) s"
    "quiescent ShardedMap_engine s" "ctx s = None"
    by (rule demo_run)
  obtain h where h: "pool_inv h s" "exit_inv s" "workers s \<noteq> []" by (rule handler_run [OF demo_start run(1)]) simp
  note fin = quiescent_final [OF h(1,2) run(2) h(3)]
  have "handleBatch_finish s = Some (WriteJSON 200 (map response_item (received s)))"
    using fin(1,3) run(3) by (auto simp: handleBatch_finish_def)
  with run response_200_complete [OF demo_start sm_invar_New run(1) demo_translate this] show ?thesis by blast
qed

theorem received_prefix_sequential_witness:
  "\<exists>s m. pool_reach ShardedMap_engine (demo_state NewShardedMap None) s \<and> m \<le> length demo_ops
    \<and> received s = take m (snd (runSequential ShardedMap_engine NewShardedMap demo_ops))"
proof -
  obtain s where run: "pool_reach ShardedMap_engine (demo_state NewShardedMap None) s" "ctx s = None"
    by (rule demo_run)
  from received_prefix_sequential [OF demo_start sm_invar_New run demo_translate] run show ?thesis by blast
qed

text \<open>
  C30: all results delivered and still a 500.  Once the output channel is closed the handler
  waits for \<^verbatim>\<open>Run\<close>, which returns \<^verbatim>\<open>ctx.Err()\<close>.  From every state in which the consumer has
  seen the closed channel and the context is live, a deadline that expires before \<^verbatim>\<open>Run\<close>
  returns leads to an answer 500 although the whole batch has been received.
\<close>

theorem delivered_batch_may_answer_500:
  assumes start: "handleBatch_start numCPU cfg st None (Inr items) = Inr s0" and cpu: "0 < numCPU"
    and reach: "pool_reach eng s0 s" and at: "drain s = DrainClosed" "ctx s = None"
  shows "\<exists>es s'. pool_run eng (Cancel DeadlineExceeded # es) s = Some s'
    \<and> length (received s') = length items
    \<and> handleBatch_finish s' = Some (WriteError 500 (Wrap ''worker pool error'' DeadlineExceeded))"
proof -
  obtain h where inv: "pool_inv h s" by (rule handler_run [OF start reach])
  let ?s = "s\<lparr>ctx := Some DeadlineExceeded\<rparr>"
  have "\<not> panicked s" using inv sched_invD(12) unfolding pool_inv_def by blast
  then have cancel: "pool_step eng (Cancel DeadlineExceeded) s = Some ?s" using at(2) by simp
  have inv1: "pool_inv h ?s" using pool_inv_step [OF inv cancel] .
  then obtain es s' where es: "pool_run eng es ?s = Some s'" "list_all no_cancel es" "quiescent eng s'"
    using run_to_quiescent by blast
  have reach': "pool_reach eng s0 s'"
    using pool_run_reach [OF es(1) pool_reach.step [OF reach cancel]] .
  obtain ops h' where tr: "translateRequest items = Inr ops" and len: "length h' = length ops" "ops \<noteq> []"
    and pool: "pool_inv h' s'" "exit_inv s'" "workers s' \<noteq> []"
    by (rule handler_run [OF start reach']) (use cpu in simp)
  have ctx': "ctx s' = Some DeadlineExceeded" using pool_run_ctx [OF es(1,2)] by simp
  have dr: "drain s' = DrainClosed" using pool_run_drain [OF es(1)] at(1) by simp
  have "Run_return s' = Some (Some DeadlineExceeded)"
    using quiescent_final(1) [OF pool(1,2) es(3) pool(3)] ctx' len by auto
  then have "handleBatch_finish s' = Some (WriteError 500 (Wrap ''worker pool error'' DeadlineExceeded))"
    using dr by (simp add: handleBatch_finish_def)
  moreover have "length (received s') = length items"
    using pool_inv_received(3) [OF pool(1) dr] len translateRequest_length [OF tr] by simp
  moreover have "pool_run eng (Cancel DeadlineExceeded # es) s = Some s'" using cancel es(1) by simp
  ultimately show ?thesis by blast
qed

theorem delivered_batch_may_answer_500_witness:
  "\<exists>s es s'. pool_reach null_engine (demo_state () None) s
    \<and> pool_run null_engine (Cancel DeadlineExceeded # es) s = Some s' \<and> length (received s') = 2
    \<and> handleBatch_finish s' = Some (WriteError 500 (Wrap ''worker pool error'' DeadlineExceeded))"
proof -
  obtain s where run: "pool_reach null_engine (demo_state () None) s" "quiescent null_engine s" "ctx s = None"
    by (rule demo_run)
  obtain h where h: "pool_inv h s" "exit_inv s" "workers s \<noteq> []" by (rule handler_run [OF demo_start run(1)]) simp
  have dr: "drain s = DrainClosed" using quiescent_final(3) [OF h(1,2) run(2) h(3) run(3)] by blast
  have "0 < (4 :: nat)" by simp
  from delivered_batch_may_answer_500 [OF demo_start this run(1) dr run(3)] run(1)
  show ?thesis unfolding demo_items_length by blast
qed

text \<open>
  C29: an error does not stop its dependents.  Whatever the storage engine answers, an
  uncancelled run executes and delivers every operation of the batch.
\<close>

theorem errors_do_not_stop_the_batch:
  assumes start: "handleBatch_start numCPU cfg st None (Inr items) = Inr s0" and cpu: "0 < numCPU"
    and reach: "pool_reach eng s0 s" and final: "quiescent eng s" "ctx s = None"
  shows "set (executed s) = {..<length items} \<and> length (executed s) = length items
    \<and> map SeqID (received s) = map of_nat [0..<length items]"
proof -
  obtain ops h where tr: "translateRequest items = Inr ops" and len: "length h = length ops"
    and pool: "pool_inv h s" "exit_inv s" "workers s \<noteq> []"
    by (rule handler_run [OF start reach]) (use cpu in simp)
  have all: "length (executed s) = length h" "drain s = DrainClosed"
    using quiescent_final(3) [OF pool(1,2) final(1) pool(3) final(2)] by blast+
  have sched: "sched_inv h s" using pool(1) by (simp add: pool_inv_def)
  have "set (executed s) = {..<length h}"
    using tick_parts(1,2) [OF sched] all(1) by (intro card_subset_eq) (simp_all add: distinct_card)
  moreover have "SeqID (received s ! i) = of_nat i" if "i < length (received s)" for i
    using pool_inv_received(2) [OF pool(1) that] by blast
  then have "map SeqID (received s) = map of_nat [0..<length (received s)]"
    by (intro nth_equalityI) simp_all
  ultimately show ?thesis
    using all pool_inv_received(3) [OF pool(1) all(2)] len translateRequest_length [OF tr] by simp
qed

theorem errors_do_not_stop_the_batch_witness:
  "\<exists>s. pool_reach failing_engine (demo_state () None) s \<and> set (executed s) = {..<2}"
proof -
  obtain s where run: "pool_reach failing_engine (demo_state () None) s" "quiescent failing_engine s" "ctx s = None"
    by (rule demo_run)
  from errors_do_not_stop_the_batch [OF demo_start _ run] run(1) show ?thesis by auto
qed

text \<open>
  A failed operation does not mark its dependents as failed.  A write that the store
  refuses and a read of the same key, which depends on it: the read succeeds without error.
\<close>

theorem failed_write_dependent_succeeds:
  "\<exists>s. pool_reach failing_engine (demo_state () None) s \<and> dag_edge demo_heap 0 1
    \<and> executed s = [0, 1] \<and> map Err (received s) = [Some (External ''connection refused''), None]"
proof -
  have "dag_edge demo_heap 0 1" by (simp add: dag_edge_def Dependents_def demo_heap_def)
  then show ?thesis using demo_failing_reach by metis
qed

text \<open>
  The observability label never moves.  In every reachable state of every run each node
  still has the state it was created with, \<^verbatim>\<open>StatePending\<close>.
\<close>

theorem state_stays_pending:
  assumes start: "handleBatch_start numCPU cfg st c (Inr items) = Inr s0"
    and reach: "pool_reach eng s0 s" and n: "n < length items"
  shows "State (heap s) n = StatePending"
proof -
  obtain ops h where tr: "translateRequest items = Inr ops" and len: "length h = length ops" and ok: "order_ok h s"
    by (rule handler_run [OF start reach])
  then show ?thesis using n translateRequest_length [OF tr] by (simp add: order_ok_def State_def)
qed

theorem state_stays_pending_witness:
  "\<exists>s. pool_reach failing_engine (demo_state () None) s \<and> executed s = [0, 1]
    \<and> ExecutionState_String (State (heap s) 1) = ''PENDING''"
proof -
  obtain s where run: "pool_reach failing_engine (demo_state () None) s" and ex: "executed s = [0, 1]"
    by (rule demo_failing_reach)
  have "State (heap s) 1 = StatePending" by (rule state_stays_pending [OF demo_start run]) simp
  then have "ExecutionState_String (State (heap s) 1) = ''PENDING''" by (simp add: ExecutionState_String_def)
  with run ex show ?thesis by blast
qed

section \<open>The PostgreSQL engine\<close>

text \<open>
  C10: serializability on PostgreSQL.  If the rider ids of the request are in PostgreSQL's own
  spelling of a UUID (or no UUID at all), an uncancelled run over the table ends with a 200
  whose items are those of sequential execution up to the time stamps, and for each of
  these keys the table holds the row of the sequential execution up to its time stamp.
\<close>

theorem postgres_batch_serializable:
  assumes start: "handleBatch_start numCPU cfg d None (Inr items) = Inr s0"
    and cpu: "0 < numCPU" and inv: "rider_invar d" and size: "length items \<le> 2 ^ 63"
    and keys: "\<forall>item \<in> set items. req_RiderID item \<in> canonical_keys uuid_in uuid_out"
    and reach: "pool_reach (rider_engine uuid_in uuid_out) s0 s"
    and final: "quiescent (rider_engine uuid_in uuid_out) s" "ctx s = None"
  shows "\<exists>ops rs. translateRequest items = Inr ops \<and> handleBatch_finish s = Some (WriteJSON 200 (map response_item rs))
    \<and> map (norm_op erase_time) rs = map (norm_op erase_time) (snd (runSequential (rider_engine uuid_in uuid_out) d ops))
    \<and> (\<forall>k \<in> canonical_keys uuid_in uuid_out. rider_view uuid_in (store s) k
          = rider_view uuid_in (fst (runSequential (rider_engine uuid_in uuid_out) d ops)) k)"
  using assms by (rule rider_run_serial)


text \<open>
  C18: two spellings of one UUID are not ordered.  The resolver compares key strings, while
  the table identifies rows by UUID: for two different spellings of the same rider there is
  no edge between two writes, and a run may execute them in the wrong order and leave the
  row of the first, where sequential execution leaves that of the second.
\<close>

theorem aliased_keys_reorder:
  assumes same: "uuid_in k1 = Some u" "uuid_in k2 = Some u" "k1 \<noteq> k2" and ne: "k1 \<noteq> []" "k2 \<noteq> []"
    and ord: "uuid_in order = Some ord"
  shows "\<exists>s0 s. handleBatch_start 1 (demo_config\<lparr>WorkerCount := 2\<rparr>) d None (Inr (alias_items k1 k2 order)) = Inr s0
    \<and> pool_reach (rider_engine uuid_in uuid_out) s0 s \<and> executed s = [1, 0]
    \<and> map_option row_status (rows (store s) u) = Some ''EN_ROUTE''
    \<and> map_option row_status (rows (fst (runSequential (rider_engine uuid_in uuid_out) d (alias_ops k1 k2 order))) u) = Some ''ARRIVED''"
proof -
  let ?eng = "rider_engine uuid_in uuid_out"
  let ?s0 = "Run_start 2 (alias_heap k1 k2 order) [0, 1] d (Some (Drain NewInOrderReorderBuffer 2)) None"
  obtain s where s: "pool_run ?eng alias_schedule ?s0 = Some s" "executed s = [1, 0]"
    "store s = fst (se_Set ?eng None k1 (Value (alias_ops k1 k2 order ! 0)) (fst (se_Set ?eng None k2 (Value (alias_ops k1 k2 order ! 1)) d)))"
    using alias_run [of ?eng k1 k2 order d] by (elim exE conjE) (rule that)
  have reach: "pool_reach ?eng ?s0 s" by (rule pool_run_reach [OF s(1) pool_reach.start])
  have "map_option row_status (rows (store s) u) = Some ''EN_ROUTE''"
    unfolding s(3) using alias_set [OF same(1) ord, of "''EN_ROUTE''"] by (simp add: alias_ops_def validRiderStatuses_def)
  moreover have "map_option row_status (rows (fst (runSequential ?eng d (alias_ops k1 k2 order))) u) = Some ''ARRIVED''"
    unfolding alias_sequential
    using alias_set [OF same(2) ord, of "''ARRIVED''"] by (simp add: alias_ops_def validRiderStatuses_def)
  ultimately show ?thesis
    by (intro exI conjI) (rule alias_start [OF ne same(3)], rule reach, rule s(2))
qed

text \<open>
  C17: operations are immutable but for their outcome.  In every reachable state of every run
  each node still carries the sequence number, key, type and value submitted; its result and
  error are untouched until it is executed, its type is always a known one, so the branch for
  unknown types in \<^verbatim>\<open>executeNode\<close> is never taken, and its state label is still the one it was
  created with, whatever happened to it.
\<close>

theorem operations_immutable:
  assumes start: "handleBatch_start numCPU cfg st c (Inr items) = Inr s0"
    and reach: "pool_reach eng s0 s" and tr: "translateRequest items = Inr ops" and n: "n < length ops"
  shows "op_fields (operation_of (heap s ! n)) = op_fields (ops ! n) \<and> known_type (Type (heap s ! n))
    \<and> State (heap s) n = StatePending
    \<and> (n \<notin> set (executed s) \<longrightarrow> operation_of (heap s ! n) = ops ! n)"
proof -
  obtain h all_nodes runnable where b: "Build ops = Inr (h, all_nodes, runnable)" and len: "length h = length ops"
    and ok: "order_ok h s"
    using handler_run [OF start reach] tr by (metis Inr_inject)
  have fields: "op_fields (operation_of (heap s ! n)) = op_fields (ops ! n)"
    "n \<notin> set (executed s) \<longrightarrow> operation_of (heap s ! n) = ops ! n"
    using ok Build_facts(5) [OF b n] n len by (simp_all add: order_ok_def)
  have "known_type (Type (ops ! n))" using Build_facts(4) [OF b] n by (simp add: valid_batch_def valid_op_def)
  moreover have "State (heap s) n = StatePending" using ok n len by (simp add: order_ok_def State_def)
  ultimately show ?thesis using fields by (simp add: op_fields_def)
qed

theorem postgres_batch_serializable_witness:
  "\<exists>s rs. pool_reach (rider_engine example_uuid example_uuid_out)
       (Run_start 2 (alias_heap ''1a'' ''2b'' ''2b'') [0, 1] empty_db (Some (Drain NewInOrderReorderBuffer 2)) None) s
    \<and> handleBatch_finish s = Some (WriteJSON 200 (map response_item rs))"
proof -
  let ?eng = "rider_engine example_uuid example_uuid_out"
  have start: "handleBatch_start 1 (demo_config\<lparr>WorkerCount := 2\<rparr>) empty_db None (Inr (alias_items ''1a'' ''2b'' ''2b'')) =
      Inr (Run_start 2 (alias_heap ''1a'' ''2b'' ''2b'') [0, 1] empty_db (Some (Drain NewInOrderReorderBuffer 2)) None)"
    by (rule alias_start) simp_all
  have keys: "\<forall>item \<in> set (alias_items ''1a'' ''2b'' ''2b''). req_RiderID item \<in> canonical_keys example_uuid example_uuid_out"
    by (simp add: alias_items_def canonical_keys_def example_uuid_def example_uuid_out_def)
  have inv: "rider_invar empty_db" by (simp add: rider_invar_def empty_db_def)
  obtain s where run: "pool_reach ?eng (Run_start 2 (alias_heap ''1a'' ''2b'' ''2b'') [0, 1] empty_db (Some (Drain NewInOrderReorderBuffer 2)) None) s"
    "quiescent ?eng s" "ctx s = None"
    using handler_quiescent [OF start, of ?eng] by blast
  have "length (alias_items ''1a'' ''2b'' ''2b'') \<le> 2 ^ 63" by (simp add: alias_items_def)
  from postgres_batch_serializable [OF start _ inv this keys run] run(1) show ?thesis by auto
qed




theorem aliased_keys_reorder_witness:
  "\<exists>s0 s. pool_reach (rider_engine example_uuid example_uuid_out) s0 s \<and> executed s = [1, 0]
    \<and> map_option row_status (rows (store s) 26) = Some ''EN_ROUTE''"
proof -
  have "example_uuid ''1a'' = Some 26" "example_uuid ''1A'' = Some 26" "example_uuid ''2b'' = Some 43"
    by (simp_all add: example_uuid_def)
  from aliased_keys_reorder [OF this(1,2) _ _ _ this(3), of empty_db example_uuid_out] show ?thesis by auto
qed

theorem operations_immutable_witness:
  "\<exists>s. pool_reach failing_engine (demo_state () None) s \<and> op_fields (operation_of (heap s ! 1)) = op_fields (demo_ops ! 1)
    \<and> Type (heap s ! 1) = OpRead"
proof -
  obtain s where run: "pool_reach failing_engine (demo_state () None) s" and "executed s = [0, 1]"
    by (rule demo_failing_reach)
  have "op_fields (operation_of (heap s ! 1)) = op_fields (demo_ops ! 1)"
    using operations_immutable [OF demo_start run demo_translate, of 1] by (simp add: demo_ops_def)
  with run show ?thesis by (auto simp: op_fields_def demo_ops_def)
qed

section \<open>Concurrent requests\<close>

text \<open>
  C4: concurrent requests do not harm each other.  However many requests the server is given, at
  whatever moments, whatever they contain and however their goroutines are interleaved on the one storage engine: no goroutine panics, a request
  that has not come to its end can always make a step, and one that has come to its end has released its
  workers and has an answer, which is a 200 with one item per operation if its context is live.
\<close>

theorem service_survives:
  assumes reach: "service_reach numCPU cfg eng (idle_service st) sv" and cpu: "0 < numCPU"
    and i: "i < length (requests sv)" "requests sv ! i = Inr p"
  shows "\<not> crashed sv
    \<and> (\<not> quiescent eng p \<longrightarrow> (\<exists>e sv'. no_cancel e \<and> service_step numCPU cfg eng (At i e) sv = Some sv'))
    \<and> (quiescent eng p \<longrightarrow> list_all (\<lambda>w. w = Exited) (workers p) \<and> (\<exists>r. handleBatch_finish p = Some r
         \<and> (ctx p = None \<longrightarrow> (\<exists>rs. r = WriteJSON 200 rs \<and> length rs = length (heap p)))))"
proof (intro conjI impI)
  have inv: "service_inv numCPU sv" using service_inv_reach [OF reach] by simp
  then show "\<not> crashed sv" by (rule not_crashed)
  show "\<exists>e sv'. no_cancel e \<and> service_step numCPU cfg eng (At i e) sv = Some sv'" if "\<not> quiescent eng p"
    using not_quiescentD [OF that] request_enabled [OF inv i] by blast
  have "request_inv numCPU (Inr p)" using inv i by (metis list_all_length service_inv_def)
  then obtain h where h: "h \<noteq> []" "pool_inv h p" "exit_inv p" and w: "workers p \<noteq> []"
    using cpu by (auto simp: request_inv_def)
  assume quiet: "quiescent eng p"
  note fin = quiescent_final [OF h(2,3) quiet w]
  have ret: "Run_return p = Some (ctx p)" using fin(1) h(1) by auto
  show "list_all (\<lambda>w. w = Exited) (workers p)"
    using quiescent_exited [OF h(2,3) quiet] by (simp add: list_all_iff)
  have len: "length (heap p) = length h" using h(2) sched_invD(1) by (auto simp: pool_inv_def)
  show "\<exists>r. handleBatch_finish p = Some r \<and> (ctx p = None \<longrightarrow> (\<exists>rs. r = WriteJSON 200 rs \<and> length rs = length (heap p)))"
  proof (cases "ctx p")
    case None
    then have dr: "drain p = DrainClosed" using fin(3) by blast
    then show ?thesis using None ret len pool_inv_received(3) [OF h(2)] by (simp add: handleBatch_finish_def)
  next
    case (Some e)
    then show ?thesis using ret fin(2) by (cases "drain p") (auto simp: handleBatch_finish_def)
  qed
qed


text \<open>
  C2: isolation.  A batch that arrives at a server over the in-memory store while any number of other batches are being
  executed or still arrive is answered, if it is not cancelled, exactly as if it were executed alone and sequentially on the store that it found
  on arrival, provided that no other batch writes to one of its keys after that moment; and these keys then hold what the
  sequential execution leaves.  Other batches may read its keys, and write any other key.
\<close>

theorem concurrent_batch_isolated:
  assumes reach0: "service_reach numCPU cfg ShardedMap_engine (idle_service st) sv" and st: "sm_invar st" and cpu: "0 < numCPU"
    and arrive: "service_step numCPU cfg ShardedMap_engine (Arrive None rq) sv = Some sv0"
    and body: "Decode (MaxBytesReader (MaxBodyBytes cfg) (rq_Body rq)) = Inr items"
    and tr: "translateRequest items = Inr ops"
    and reach: "service_reach numCPU cfg ShardedMap_engine sv0 sv1"
    and other: "undisturbed (Key ` set ops) (length (requests sv)) sv0 sv1"
    and final: "requests sv1 ! length (requests sv) = Inr p" "quiescent ShardedMap_engine p" "ctx p = None"
  shows "handleBatch_finish p = Some (WriteJSON 200 (map response_item (snd (runSequential ShardedMap_engine (shared sv) ops))))
    \<and> (\<forall>k \<in> Key ` set ops. sm_view (shared sv1) k = sm_view (fst (runSequential ShardedMap_engine (shared sv) ops)) k)"
proof -
  have inv: "service_inv numCPU sv" using service_inv_reach [OF reach0] by simp
  have sk: "service_keys UNIV sv'" for sv' :: "go_value ShardedMap service" by (simp add: service_keys_def)
  have "sm_invar (shared sv)"
    by (rule service_reach_store [OF reach0])
      (use st in \<open>auto simp: idle_service_def ShardedMap_engine_def sm_defs split: option.splits\<close>)
  moreover have "batch_keys (Key ` set ops) ops" by (simp add: batch_keys_def)
  moreover obtain s0 where s0: "ServeHTTP numCPU cfg (shared sv) None rq = Inr s0"
    by (rule arrival_runs [OF inv arrive reach final(1)])
  obtain h all_nodes runnable where b: "Build ops = Inr (h, all_nodes, runnable)" "ops \<noteq> []"
    and n: "length (requests sv) < length (requests sv0)"
    "requests sv0 ! length (requests sv) = Inr (Run_start (NewConcurrentWorkerPool numCPU (WorkerCount cfg)) h runnable (shared sv0)
        (Some (Drain NewInOrderReorderBuffer (int (length ops)))) None)"
    and sv0: "shared sv0 = shared sv" "service_inv numCPU sv0"
    by (rule arrival_started [OF inv arrive body tr s0])
  ultimately show ?thesis
    using shared_sharded.request_isolated [OF b(1) _ b(2) cpu _ _ sv0(2) n reach sk other final] sv0(1) by auto
qed

section \<open>The simulator against the server\<close>

text \<open>
  A simulated client is served, from bytes to bytes.  The body that the simulator sends for a client, received by a
  server over PostgreSQL whose limit it respects and run to its end without cancellation, is answered with status 200 and
  the JSON array that echoes every update with its number, in order and without an error in any of them,
  whatever the random draws and the interleaving.
\<close>

theorem simulator_requests_succeed:
  assumes rng: "rng_ok rng" and uuid: "reads_simulated uuid_in" "prints_simulated uuid_in uuid_out"
    and size: "0 \<le> clientID" "0 < batchSize" "clientID * 1000 + batchSize \<le> 10 ^ 12"
    and items: "buildBatch fma rng batchSize clientID = Some items"
    and fits: "int (length (sim_body items)) \<le> MaxBodyBytes cfg"
    and start: "serve_batch numCPU cfg d None (sim_body items) = Inr s0"
    and cpu: "0 < numCPU" and inv: "rider_invar d"
    and reach: "pool_reach (rider_engine uuid_in uuid_out) s0 s"
    and final: "quiescent (rider_engine uuid_in uuid_out) s" "ctx s = None"
  shows "\<exists>resp a. handleBatch_finish s = Some resp \<and> respond ft other Error resp = Some a \<and> ans_status a = 200
    \<and> ans_body a = Marshal (JArr (map echo_json items)) @ [CHR 0x0A]"
proof -
  let ?eng = "rider_engine uuid_in uuid_out"
  let ?ops = "sim_ops fma rng batchSize clientID"
  have items': "items = map (build_item fma rng clientID) [0..<nat batchSize]"
    using items by (simp add: buildBatch_def split: if_splits)
  have range: "0 \<le> clientID * 1000 + int i" "clientID * 1000 + int i < 10 ^ 12" if "i < nat batchSize" for i
    using size that by linarith+
  have n: "nat batchSize < 2 ^ 63" using size by (simp add: nat_less_iff)
  have run0: "handleBatch_start numCPU cfg d None (Inr (map wire_item items)) = Inr s0"
    using sim_body_decoded [OF rng items fits, of "[]"] start by (simp add: serve_batch_def withMaxBody_def)
  have keys: "\<forall>item \<in> set (map wire_item items). req_RiderID item \<in> canonical_keys uuid_in uuid_out"
    unfolding items' using sim_keys_canonical [OF range uuid(2)] by auto
  have "length (map wire_item items) \<le> 2 ^ 63" using n by (simp add: items')
  from rider_run_serial [OF run0 cpu inv this keys reach final] obtain ops rs where
    run: "translateRequest (map wire_item items) = Inr ops" "handleBatch_finish s = Some (WriteJSON 200 (map response_item rs))"
      "map (norm_op erase_time) rs = map (norm_op erase_time) (snd (runSequential ?eng d ops))"
    by blast
  have ops: "ops = ?ops" using run(1) translate_sim_batch [OF n, of fma rng clientID] by (simp add: items' sim_ops_def)
  have "those (map (response_json ft other Error) (map response_item rs)) = Some (map echo_json items)"
    unfolding items' by (rule sim_echo [OF rng uuid(1) size(1,3)]) (simp only: run(3) ops)
  then show ?thesis using run(2) by (simp add: writeJSON_def)
qed

theorem simulator_requests_succeed_witness:
  "\<exists>items s0 s a resp. buildBatch True example_rng 2 7 = Some items
    \<and> serve_batch 4 (NewServer (example_config\<lparr>MaxBodyBytes := 0\<rparr>)) example_table None (sim_body items) = Inr s0
    \<and> pool_reach (rider_engine (Some :: string \<Rightarrow> string option) id) s0 s
    \<and> handleBatch_finish s = Some resp \<and> respond (\<lambda>_. None) (\<lambda>_. None) (\<lambda>_. []) resp = Some a \<and> ans_status a = 200"
proof -
  let ?eng = "rider_engine (Some :: string \<Rightarrow> string option) id"
  let ?cfg = "NewServer (example_config\<lparr>MaxBodyBytes := 0\<rparr>)"
  have ok: "rng_ok example_rng" "reads_simulated (Some :: string \<Rightarrow> string option)"
    "prints_simulated (Some :: string \<Rightarrow> string option) id" "rider_invar example_table"
    by (simp_all add: rng_ok_def example_rng_def reads_simulated_def prints_simulated_def canonical_keys_def
        rider_invar_def example_table_def)
  obtain items where items: "buildBatch True example_rng 2 7 = Some items" "length items = 2" "items \<noteq> []"
    by (simp add: buildBatch_def)
  have its: "items = map (build_item True example_rng 7) [0..<2]" using items(1) by (simp add: buildBatch_def)
  have fits: "int (length (sim_body items)) \<le> MaxBodyBytes ?cfg"
    using sim_body_length [OF ok(1), of 7 2 True items] items(1) by (simp add: NewServer_def orDefault_def)
  obtain ops where tr: "translateRequest (map wire_item items) = Inr ops"
    using translate_sim_batch [of 2 True example_rng 7] its by simp
  obtain s0 where s0: "handleBatch_start 4 ?cfg example_table None (Inr (map wire_item items)) = Inr s0"
    using handler_starts [OF _ tr, of 4 ?cfg example_table None] items(2,3) by auto
  then have start: "serve_batch 4 ?cfg example_table None (sim_body items) = Inr s0"
    using sim_body_decoded [OF ok(1) items(1) fits, of "[]"] by (simp add: serve_batch_def withMaxBody_def)
  obtain s where run: "pool_reach ?eng s0 s" "quiescent ?eng s" "ctx s = None"
    using handler_quiescent [OF s0, of ?eng] by blast
  have sizes: "(0::int) \<le> 7" "(0::int) < 2" "7 * 1000 + 2 \<le> (10::int) ^ 12" "0 < (4::nat)" by simp_all
  from simulator_requests_succeed [OF ok(1-3) sizes(1-3) items(1) fits start sizes(4) ok(4) run, of "\<lambda>_. None" "\<lambda>_. None" "\<lambda>_. []"]
  show ?thesis using items(1) start run(1) by (elim exE conjE) (intro exI conjI)
qed

text \<open>
  C3: a simulated load is served completely.  Any number of clients of the simulator, with batches of up to one thousand updates, send their
  bodies to one server over PostgreSQL, which respects its limit; their batches are executed concurrently, in any interleaving.  When
  all have come to their end without a cancellation, every client has been answered with status 200 and the bytes that echo
  its updates in order, and the table holds, for each rider of each client, the update that was sent for it.
\<close>

theorem simulated_load_stored:
  assumes rng: "\<forall>c \<in> set cs. rng_ok (rng c)" and uuid: "reads_simulated uuid_in" "prints_simulated uuid_in uuid_out"
    and clients: "distinct cs" "\<forall>c \<in> set cs. 0 \<le> c \<and> c * 1000 + batchSize \<le> 10 ^ 12" and size: "0 < batchSize" "batchSize \<le> 1000"
    and items: "\<forall>c \<in> set cs. buildBatch fma (rng c) batchSize c = Some (items c)"
    and fits: "\<forall>c \<in> set cs. int (length (sim_body (items c))) \<le> MaxBodyBytes cfg"
    and cpu: "0 < numCPU" and inv: "rider_invar d"
    and run: "service_run numCPU cfg (rider_engine uuid_in uuid_out) es (idle_service d) = Some sv"
    and arr: "arrivals es = map (\<lambda>c. (None, batch_request (sim_body (items c)))) cs"
    and final: "settled (rider_engine uuid_in uuid_out) sv" "live sv"
  shows "length (requests sv) = length cs \<and> (\<forall>j < length cs. \<exists>p resp a.
      requests sv ! j = Inr p \<and> handleBatch_finish p = Some resp \<and> respond ft other Error resp = Some a
      \<and> ans_status a = 200 \<and> ans_body a = Marshal (JArr (map echo_json (items (cs ! j)))) @ [CHR 0x0A]
      \<and> (\<forall>it \<in> set (items (cs ! j)). rider_view uuid_in (shared sv) (it_RiderID it) = update_row uuid_in 0 (wire_payload (the (it_Payload it)))))"
proof -
  let ?eng = "rider_engine uuid_in uuid_out" and ?can = "canonical_keys uuid_in uuid_out"
  have c: "rng_ok (rng (cs ! j))" "0 \<le> cs ! j" "cs ! j * 1000 + batchSize \<le> 10 ^ 12" "buildBatch fma (rng (cs ! j)) batchSize (cs ! j) = Some (items (cs ! j))"
    "int (length (sim_body (items (cs ! j)))) \<le> MaxBodyBytes cfg" "j < length (arrivals es)"
    "arrivals es ! j = (None, batch_request (sim_body (items (cs ! j))))" if "j < length cs" for j
    using rng clients(2) items fits nth_mem [OF that] that by (simp_all add: arr)
  note arrival = load_arrival [OF c(1,2) size(1) c(3-5) run c(6,7)]
  have len: "length (requests sv) = length cs" using service_run_length [OF run] arr by (simp add: idle_service_def)
  have keys: "n < nat batchSize \<and> Key (heap q ! n) = it_RiderID (build_item fma (rng (cs ! j)) (cs ! j) n)"
    if "j < length cs" "requests sv ! j = Inr q" "n < length (heap q)" for j q n
    by (rule arrival [of j]) (use that in auto)
  have sk: "service_keys ?can sv" by (rule load_service_keys [OF len uuid(2) clients(2) keys])
  have "\<exists>p resp a. requests sv ! j = Inr p \<and> handleBatch_finish p = Some resp \<and> respond ft other Error resp = Some a
      \<and> ans_status a = 200 \<and> ans_body a = Marshal (JArr (map echo_json (items (cs ! j)))) @ [CHR 0x0A]
      \<and> (\<forall>it \<in> set (items (cs ! j)). rider_view uuid_in (shared sv) (it_RiderID it) = update_row uuid_in 0 (wire_payload (the (it_Payload it))))"
    if j: "j < length cs" for j
  proof (rule arrival [OF j j j j j j j])
    let ?c = "cs ! j" let ?ops = "sim_ops fma (rng ?c) batchSize ?c"
    fix sva svb h all_nodes runnable p
    assume sva: "service_reach numCPU cfg ?eng (idle_service d) sva" and b: "Build ?ops = Inr (h, all_nodes, runnable)" "?ops \<noteq> []"
      and svb: "shared svb = shared sva" "service_inv numCPU svb" "j < length (requests svb)"
        "requests svb ! j = Inr (Run_start (NewConcurrentWorkerPool numCPU (WorkerCount cfg)) h runnable (shared svb)
           (Some (Drain NewInOrderReorderBuffer (int (length ?ops)))) None)"
      and reach: "service_reach numCPU cfg ?eng svb sv" and p: "j < length (requests sv)" "requests sv ! j = Inr p"
    have its: "items ?c = map (build_item fma (rng ?c) ?c) [0..<nat batchSize]" using c(4) [OF j] size(1) by (simp add: buildBatch_def)
    have "rider_invar (shared sva)"
      by (rule service_reach_store [OF sva]) (use inv in \<open>auto simp: idle_service_def intro: rider_invar_ops\<close>)
    then have "rider_invar (shared svb)" by (simp add: svb(1))
    moreover have "undisturbed (Key ` set ?ops) j svb sv" by (rule load_undisturbed [OF len j clients(1) size(2) clients(2) keys])
    moreover have "quiescent ?eng p" "ctx p = None"
      using settled_live [OF final p] by simp_all
    ultimately show ?thesis
      using load_client [OF c(1) [OF j] uuid c(2,3) [OF j] cpu _ svb(2) b svb(3,4) reach sk _ p(2) _ _ its, of ft other Error] p(2) by blast
  qed
  with len show ?thesis by blast
qed

lemma load_clients:
  obtains es sv where "service_run 4 load_config eng es (idle_service d) = Some sv"
    "arrivals es = map (\<lambda>c. (None, batch_request (sim_body (load_items c)))) [7, 8]" "settled eng sv" "live sv"
proof (rule load_runs [of 4 load_config eng d "map (\<lambda>c. batch_request (sim_body (load_items c))) [7, 8]"])
qed (use that in simp)

theorem simulated_load_stored_witness:
  "\<exists>(sv :: string rider_db service) p. length (requests sv) = 2 \<and> requests sv ! 1 = Inr p
    \<and> (\<exists>resp a. handleBatch_finish p = Some resp \<and> respond (\<lambda>_. None) (\<lambda>_. None) (\<lambda>_. []) resp = Some a \<and> ans_status a = 200)
    \<and> (\<forall>it \<in> set (load_items 8). rider_view (Some :: string \<Rightarrow> string option) (shared sv) (it_RiderID it)
         = update_row Some 0 (wire_payload (the (it_Payload it))))"
proof -
  have ok: "reads_simulated (Some :: string \<Rightarrow> string option)" "prints_simulated (Some :: string \<Rightarrow> string option) id" "rider_invar example_table"
    by (simp_all add: reads_simulated_def prints_simulated_def canonical_keys_def rider_invar_def example_table_def)
  obtain es sv where run: "service_run 4 load_config (rider_engine (Some :: string \<Rightarrow> string option) id) es (idle_service example_table) = Some sv"
    "arrivals es = map (\<lambda>c. (None, batch_request (sim_body (load_items c)))) [7, 8]" "settled (rider_engine Some id) sv" "live sv"
    by (rule load_clients)
  have sizes: "distinct [7 :: int, 8]" "\<forall>c \<in> set [7, 8]. 0 \<le> c \<and> c * 1000 + 2 \<le> (10 :: int) ^ 12" "(0 :: int) < 2" "(2 :: int) \<le> 1000" "0 < (4 :: nat)"
    by simp_all
  have clients: "\<forall>c \<in> set [7, 8]. rng_ok example_rng" "\<forall>c \<in> set [7, 8]. buildBatch True example_rng 2 c = Some (load_items c)"
    "\<forall>c \<in> set [7, 8]. int (length (sim_body (load_items c))) \<le> MaxBodyBytes load_config"
    using load_facts by auto
  note load = simulated_load_stored [OF clients(1) ok(1,2) sizes(1-4) clients(2,3) sizes(5) ok(3) run, of "\<lambda>_. None" "\<lambda>_. None" "\<lambda>_. []"]
  then have len: "length (requests sv) = 2" by simp
  have "1 < length [7 :: int, 8]" by simp
  with load obtain p resp a where p: "requests sv ! 1 = Inr p" "handleBatch_finish p = Some resp"
    "respond (\<lambda>_. None) (\<lambda>_. None) (\<lambda>_. []) resp = Some a" "ans_status a = 200"
    "\<forall>it \<in> set (load_items ([7, 8] ! 1)). rider_view Some (shared sv) (it_RiderID it) = update_row Some 0 (wire_payload (the (it_Payload it)))"
    by meson
  have c: "[7 :: int, 8] ! 1 = 8" by simp
  show ?thesis
    by (intro exI [of _ sv] exI [of _ p] conjI exI [of _ resp] exI [of _ a]) (fact len p(1-4) p(5) [unfolded c])+
qed


theorem service_survives_witness:
  "\<exists>sv p rs. \<not> crashed sv \<and> length (requests sv) = 2 \<and> requests sv ! 0 = Inr p
    \<and> service_reach 4 load_config null_engine (idle_service ()) sv \<and> handleBatch_finish p = Some (WriteJSON 200 rs)"
proof -
  obtain es sv where run: "service_run 4 load_config null_engine es (idle_service ()) = Some sv"
    "arrivals es = map (\<lambda>c. (None, batch_request (sim_body (load_items c)))) [7, 8]" "settled null_engine sv" "live sv"
    by (rule load_clients)
  have reach: "service_reach 4 load_config null_engine (idle_service ()) sv" by (rule service_run_reach [OF run(1) service_reach.start])
  have len: "length (requests sv) = 2" using service_run_length [OF run(1)] run(2) by (simp add: idle_service_def)
  obtain p where p: "requests sv ! 0 = Inr p"
    by (rule load_arrival [OF load_facts(1) _ _ _ load_facts(2) load_facts(3) run(1), of 7 0]) (simp_all add: run(2))
  have "quiescent null_engine p" "ctx p = None" using settled_live [OF run(3,4) _ p] len by simp_all
  moreover have i: "0 < length (requests sv)" and cpu: "0 < (4 :: nat)" using len by simp_all
  ultimately show ?thesis using service_survives [OF reach cpu i p] reach len p by blast
qed

theorem concurrent_batch_isolated_witness:
  "\<exists>sv (sv1 :: go_value ShardedMap service) p. service_reach 4 load_config ShardedMap_engine (idle_service NewShardedMap) sv \<and> length (requests sv) = 1
    \<and> length (requests sv1) = 2 \<and> requests sv1 ! 1 = Inr p
    \<and> handleBatch_finish p = Some (WriteJSON 200 (map response_item (snd (runSequential ShardedMap_engine (shared sv) (sim_ops True example_rng 2 8)))))"
proof -
  let ?eng = "ShardedMap_engine :: (go_value ShardedMap, go_value) StorageEngine"
  obtain es sv1 where run: "service_run 4 load_config ?eng es (idle_service NewShardedMap) = Some sv1"
    "arrivals es = map (\<lambda>c. (None, batch_request (sim_body (load_items c)))) [7, 8]" "settled ?eng sv1" "live sv1"
    by (rule load_clients)
  have len: "length (requests sv1) = 2" using service_run_length [OF run(1)] run(2) by (simp add: idle_service_def)
  have two: "1 < length (arrivals es)" "arrivals es ! 1 = (None, batch_request (sim_body (load_items 8)))" by (simp_all add: run(2))
  obtain es1 es2 sv sv0 where s: "service_run 4 load_config ?eng es1 (idle_service NewShardedMap) = Some sv"
    "length (requests sv) = length (requests (idle_service (NewShardedMap :: go_value ShardedMap))) + 1"
    "service_step 4 load_config ?eng (Arrive None (batch_request (sim_body (load_items 8)))) sv = Some sv0"
    "service_run 4 load_config ?eng es2 sv0 = Some sv1"
    by (rule service_run_arrival [OF run(1) two])
  have one: "length (requests sv) = 1" using s(2) by (simp add: idle_service_def)
  have reach: "service_reach 4 load_config ?eng (idle_service NewShardedMap) sv" "service_reach 4 load_config ?eng sv0 sv1"
    using service_run_reach [OF s(1) service_reach.start] service_run_reach [OF s(4) service_reach.start] .
  obtain q where q: "requests sv1 ! 0 = Inr q"
    "\<forall>n < length (heap q). n < nat 2 \<and> Key (heap q ! n) = it_RiderID (build_item True example_rng 7 n)"
    by (rule load_arrival [OF load_facts(1) _ _ _ load_facts(2) load_facts(3) run(1), of 7 0]) (simp_all add: run(2))
  obtain p where p: "requests sv1 ! 1 = Inr p"
    by (rule load_arrival [OF load_facts(1) _ _ _ load_facts(2) load_facts(3) run(1), of 8 1]) (simp_all add: run(2))
  have fin: "quiescent ?eng p" "ctx p = None" using settled_live [OF run(3,4) _ p] len by simp_all
  have "Key (heap q ! n) \<notin> Key ` set (sim_ops True example_rng 2 8)" if "n < length (heap q)" for n
    using q(2) that load_disjoint [of 7 8 2 n _ True example_rng example_rng] by (fastforce simp: sim_ops_def sim_op_def)
  moreover have "q' = q" if "j < 2" "j \<noteq> 1" "requests sv1 ! j = Inr q'" for j q'
  proof -
    have "j = 0" using that(1,2) by simp
    then show ?thesis using that(3) q(1) by simp
  qed
  ultimately have und: "undisturbed (Key ` set (sim_ops True example_rng 2 8)) (length (requests sv)) sv0 sv1"
    unfolding undisturbed_def one len by metis
  have body: "Decode (MaxBytesReader (MaxBodyBytes load_config) (rq_Body (batch_request (sim_body (load_items 8))))) = Inr (map wire_item (load_items 8))"
    using sim_body_decoded [OF load_facts(1,2,3), of 8 "[]"] by (simp add: batch_request_def)
  have tr: "translateRequest (map wire_item (load_items 8)) = Inr (sim_ops True example_rng 2 8)"
    using translate_sim_batch [of 2 True example_rng 8] by (simp add: load_items_def sim_ops_def)
  have "0 < (4 :: nat)" by simp
  note iso = concurrent_batch_isolated [OF reach(1) sm_invar_New this s(3) body tr reach(2) und p [folded one] fin]
  show ?thesis
    by (intro exI [of _ sv] exI [of _ sv1] exI [of _ p] conjI) (fact reach(1) one len p conjunct1 [OF iso])+
qed

end
